(* ===== verification/Prelude.thy ===== *)
theory Prelude
  imports Main "HOL-Library.Word" "HOL-Library.Monad_Syntax" "HOL-Library.AList"
begin

text \<open>
  Shared material of the development: the collections of simplification rules the component
  theories extend, the generic lemmas on lists, options and finite maps they use, and the types
  that stand for the machine types and the standard containers of the Rust sources.

  Conventions. A \<^verbatim>\<open>usize\<close> or \<^verbatim>\<open>u64\<close> that only counts or indexes is a \<^typ>\<open>nat\<close>; where the
  sources work on the bits of a \<^verbatim>\<open>u64\<close> it is a \<^typ>\<open>64 word\<close>. A Rust panic (an \<^verbatim>\<open>unwrap\<close> on
  \<^verbatim>\<open>None\<close>, an index out of bounds, a second mutable borrow) is \<^const>\<open>None\<close> in the theories
  of the linearizability checker, whose functions have no other failure. Code that returns a
  \<^verbatim>\<open>Result\<close> returns an \<open>outcome\<close>, which keeps errors and panics apart.
\<close>

type_synonym u64 = "64 word"
type_synonym byte = "8 word"

subsection \<open>Results\<close>

datatype ('e, 'a) outcome = Ok 'a | Err 'e | Panic

text \<open>The operator \<^verbatim>\<open>?\<close>: go on with the value of a successful call, hand everything else to the caller.\<close>

definition attempt ::
  "('e, 'a) outcome \<times> 's \<Rightarrow> ('a \<Rightarrow> 's \<Rightarrow> ('e, 'b) outcome \<times> 's) \<Rightarrow> ('e, 'b) outcome \<times> 's" where
  "attempt m k = (case m of (Ok x, s) \<Rightarrow> k x s | (Err e, s) \<Rightarrow> (Err e, s) | (Panic, s) \<Rightarrow> (Panic, s))"

lemma attempt_simps [simp]:
  "attempt (Ok x, s) k = k x s" "attempt (Err e, s) k = (Err e, s)" "attempt (Panic, s) k = (Panic, s)"
  by (simp_all add: attempt_def)

lemma attempt_Ok: "attempt m k = (Ok y, s') \<longleftrightarrow> (\<exists>x s. m = (Ok x, s) \<and> k x s = (Ok y, s'))"
  by (cases m; cases "fst m") (auto simp: attempt_def)

fun is_panic :: "('e, 'a) outcome \<Rightarrow> bool" where
  "is_panic Panic = True"
| "is_panic _ = False"

subsection \<open>Maps that iterate in key order\<close>

text \<open>A \<^verbatim>\<open>BTreeMap\<close> is the list of its entries in ascending order of keys.\<close>

fun bt_insert :: "'k::linorder \<Rightarrow> 'v \<Rightarrow> ('k \<times> 'v) list \<Rightarrow> ('k \<times> 'v) list" where
  "bt_insert k v [] = [(k, v)]"
| "bt_insert k v ((k', v') # m) =
     (if k < k' then (k, v) # (k', v') # m
      else if k = k' then (k, v) # m
      else (k', v') # bt_insert k v m)"

definition bt_remove :: "'k \<Rightarrow> ('k \<times> 'v) list \<Rightarrow> ('k \<times> 'v) list" where
  "bt_remove k m = filter (\<lambda>(k', _). k' \<noteq> k) m"

definition bt_ok :: "('k::linorder \<times> 'v) list \<Rightarrow> bool" where
  "bt_ok m \<longleftrightarrow> sorted_wrt (<) (map fst m)"

lemma keys_bt_insert [simp]: "fst ` set (bt_insert k v m) = insert k (fst ` set m)"
  by (induction k v m rule: bt_insert.induct) auto

lemma bt_ok_Nil [simp]: "bt_ok []"
  by (simp add: bt_ok_def)

lemma bt_ok_Cons: "bt_ok ((k, v) # m) \<longleftrightarrow> (\<forall>k'\<in>fst ` set m. k < k') \<and> bt_ok m"
  by (auto simp: bt_ok_def)

lemma bt_ok_insert [simp]: "bt_ok m \<Longrightarrow> bt_ok (bt_insert k v m)"
  by (induction k v m rule: bt_insert.induct) (auto simp: bt_ok_Cons)

lemma bt_ok_remove [simp]: "bt_ok m \<Longrightarrow> bt_ok (bt_remove k m)"
  unfolding bt_remove_def by (induction m) (auto simp: bt_ok_Cons)

lemma map_of_bt_insert [simp]: "map_of (bt_insert k v m) = (map_of m)(k \<mapsto> v)"
  by (induction k v m rule: bt_insert.induct) (auto simp: fun_eq_iff)

lemma map_of_bt_remove [simp]: "map_of (bt_remove k m) = (map_of m)(k := None)"
  unfolding bt_remove_def by (induction m) (auto simp: fun_eq_iff)

lemma bt_ok_distinct: "bt_ok m \<Longrightarrow> distinct (map fst m)"
  unfolding bt_ok_def by (simp add: strict_sorted_iff)

text \<open>The total of a measure over the entries, as entries come and go.\<close>

definition bt_sum :: "('v \<Rightarrow> nat) \<Rightarrow> ('k \<times> 'v) list \<Rightarrow> nat" where
  "bt_sum f m = sum_list (map (\<lambda>(_, v). f v) m)"

lemma bt_sum_simps [simp]: "bt_sum f [] = 0" "bt_sum f ((k, v) # m) = f v + bt_sum f m"
  "bt_sum f (m @ m') = bt_sum f m + bt_sum f m'"
  by (simp_all add: bt_sum_def)

abbreviation old_of :: "('v \<Rightarrow> nat) \<Rightarrow> ('k \<times> 'v) list \<Rightarrow> 'k \<Rightarrow> nat" where
  "old_of f m k \<equiv> (case map_of m k of None \<Rightarrow> 0 | Some v \<Rightarrow> f v)"

lemma bt_sum_insert: "bt_ok m \<Longrightarrow> bt_sum f (bt_insert k v m) + old_of f m k = bt_sum f m + f v"
proof (induction k v m rule: bt_insert.induct)
  case (2 k v k' v' m)
  have "map_of m k = None" if "k < k'" using "2.prems" that
    by (auto simp: bt_ok_Cons map_of_eq_None_iff)
  then show ?case using 2 by (auto simp: bt_ok_Cons)
qed simp

lemma bt_remove_notin: "k \<notin> fst ` set m \<Longrightarrow> bt_remove k m = m"
  unfolding bt_remove_def by (rule filter_True) force

lemma bt_sum_remove: "bt_ok m \<Longrightarrow> bt_sum f (bt_remove k m) + old_of f m k = bt_sum f m"
proof (induction m)
  case (Cons p m)
  obtain k' v' where p: "p = (k', v')" by fastforce
  show ?case
  proof (cases "k' = k")
    case True
    then have "bt_remove k m = m" using Cons.prems p by (intro bt_remove_notin) (auto simp: bt_ok_Cons)
    then show ?thesis using True by (simp add: p bt_remove_def)
  next
    case False
    then show ?thesis using Cons by (simp add: p bt_remove_def bt_ok_Cons)
  qed
qed (simp add: bt_remove_def)

subsection \<open>Lists\<close>

lemma slice_append: "take n (drop p xs) = ys \<Longrightarrow> p + n \<le> length xs \<Longrightarrow> take n (drop p (xs @ zs)) = ys"
  by simp

subsection \<open>Decimal numerals\<close>

text \<open>Digits of a number, and the number of a string of digits if it fits in 64 bits.\<close>

function show_nat :: "nat \<Rightarrow> string" where
  "show_nat n = (if n < 10 then [char_of (48 + n)] else show_nat (n div 10) @ [char_of (48 + n mod 10)])"
  by auto
termination by (relation "measure (\<lambda>n. n)") auto

declare show_nat.simps [simp del]

fun parse_digits :: "nat \<Rightarrow> string \<Rightarrow> nat option" where
  "parse_digits acc [] = Some acc"
| "parse_digits acc (c # cs) =
     (let d = of_char c :: nat
      in if 48 \<le> d \<and> d \<le> 57 \<and> acc * 10 + (d - 48) < 2 ^ 64 then parse_digits (acc * 10 + (d - 48)) cs else None)"

lemma digit_char: "n < 10 \<Longrightarrow> of_char (char_of (48 + n) :: char) = 48 + (n::nat)"
  by (simp add: of_char_of)

lemma parse_digits_append:
  "parse_digits a (s @ t) = (case parse_digits a s of None \<Rightarrow> None | Some b \<Rightarrow> parse_digits b t)"
  by (induction a s rule: parse_digits.induct) (auto simp: Let_def)

lemma parse_show: "n < 2 ^ 64 \<Longrightarrow> parse_digits 0 (show_nat n) = Some n"
proof (induction n rule: show_nat.induct)
  case (1 n)
  show ?case
  proof (cases "n < 10")
    case True
    then show ?thesis by (simp add: show_nat.simps digit_char Let_def)
  next
    case False
    then have "parse_digits 0 (show_nat (n div 10)) = Some (n div 10)" using 1 by auto
    moreover have "n div 10 * 10 + n mod 10 = n" by simp
    ultimately show ?thesis using False 1(2)
      by (simp add: show_nat.simps[of n] parse_digits_append digit_char Let_def)
  qed
qed

lemma show_nat_digits: "c \<in> set (show_nat n) \<Longrightarrow> 48 \<le> (of_char c :: nat) \<and> (of_char c :: nat) \<le> 57"
proof (induction n rule: show_nat.induct)
  case (1 n)
  then show ?case by (cases "n < 10") (auto simp: show_nat.simps[of n] digit_char)
qed

lemma show_nat_not_Nil: "show_nat n \<noteq> []"
  by (subst show_nat.simps) simp


fun read_digits :: "nat \<Rightarrow> string \<Rightarrow> nat" where
  "read_digits acc [] = acc"
| "read_digits acc (c # cs) = read_digits (acc * 10 + (of_char c - 48)) cs"

lemma read_digits_append [simp]: "read_digits a (s @ t) = read_digits (read_digits a s) t"
  by (induction s arbitrary: a) auto

lemma read_show: "read_digits 0 (show_nat n) = n"
proof (induction n rule: show_nat.induct)
  case (1 n)
  then show ?case by (cases "n < 10") (auto simp: show_nat.simps[of n] digit_char)
qed

lemma show_nat_inject [simp]: "show_nat m = show_nat n \<longleftrightarrow> m = n"
  using read_show by metis

end
