(* ===== verification/LinSpec.thy ===== *)
theory LinSpec
  imports Prelude
begin

text \<open>
  The specification the linearizability checker is verified against. A history is a list of
  invocation and response events, numbered by operation; an operation precedes another when its
  response comes before the other's invocation. A history is linearizable from a state when its
  operations can be put in an order that extends precedence and that the sequential object
  accepts. Two theorems about this notion carry the proofs of the checker: the step lemma
  \<open>lin_step\<close>, which is the search the checker performs, and locality \<open>lin_local\<close>, which is why it
  may check the keys of a key-value history one by one.
\<close>

datatype hev = Inv (hid: nat) | Rsp (hid: nat)

fun is_inv :: "hev \<Rightarrow> bool" where
  "is_inv (Inv i) = True"
| "is_inv (Rsp i) = False"

fun before :: "'a \<Rightarrow> 'a \<Rightarrow> 'a list \<Rightarrow> bool" where
  "before x y [] = False"
| "before x y (z # zs) = (if z = x then y \<in> set zs else before x y zs)"

definition precedes :: "hev list \<Rightarrow> nat \<Rightarrow> nat \<Rightarrow> bool" where
  "precedes H i j \<longleftrightarrow> before (Rsp i) (Inv j) H"

definition whist :: "hev list \<Rightarrow> bool" where
  "whist H \<longleftrightarrow> distinct H \<and>
     (\<forall>x\<in>set H. case x of Inv i \<Rightarrow> before (Inv i) (Rsp i) H | Rsp i \<Rightarrow> Inv i \<in> set H)"

definition ops_of :: "hev list \<Rightarrow> nat set" where
  "ops_of H = {i. Inv i \<in> set H}"

fun accepts :: "('s \<Rightarrow> nat \<Rightarrow> bool \<times> 's) \<Rightarrow> 's \<Rightarrow> nat list \<Rightarrow> bool" where
  "accepts stp s [] = True"
| "accepts stp s (i # is) = (case stp s i of (ok, s') \<Rightarrow> ok \<and> accepts stp s' is)"

fun run_ops :: "('s \<Rightarrow> nat \<Rightarrow> bool \<times> 's) \<Rightarrow> 's \<Rightarrow> nat list \<Rightarrow> 's" where
  "run_ops stp s [] = s"
| "run_ops stp s (i # is) = run_ops stp (snd (stp s i)) is"

definition extends_prec :: "hev list \<Rightarrow> nat list \<Rightarrow> bool" where
  "extends_prec H ord \<longleftrightarrow> sorted_wrt (\<lambda>i j. \<not> precedes H j i) ord"

definition linearization :: "('s \<Rightarrow> nat \<Rightarrow> bool \<times> 's) \<Rightarrow> 's \<Rightarrow> hev list \<Rightarrow> nat list \<Rightarrow> bool" where
  "linearization stp s H ord \<longleftrightarrow>
     distinct ord \<and> set ord = ops_of H \<and> extends_prec H ord \<and> accepts stp s ord"

definition linearizable :: "('s \<Rightarrow> nat \<Rightarrow> bool \<times> 's) \<Rightarrow> 's \<Rightarrow> hev list \<Rightarrow> bool" where
  "linearizable stp s H \<longleftrightarrow> (\<exists>ord. linearization stp s H ord)"

definition without :: "nat set \<Rightarrow> hev list \<Rightarrow> hev list" where
  "without B H = filter (\<lambda>x. hid x \<notin> B) H"

subsection \<open>Order of occurrence\<close>

lemma before_split:
  assumes "distinct H"
  shows "before x y H \<longleftrightarrow> (\<exists>a b. H = a @ x # b \<and> y \<in> set b)"
  using assms
proof (induction H)
  case (Cons z H)
  show ?case
  proof (cases "z = x")
    case True
    with Cons.prems show ?thesis by (auto simp: Cons_eq_append_conv)
  next
    case False
    with Cons show ?thesis by (auto simp: Cons_eq_append_conv)
  qed
qed simp

lemma before_append [simp]:
  "before x y (H @ H') \<longleftrightarrow> before x y H \<or> (if x \<in> set H then y \<in> set H' else before x y H')"
  by (induction H) auto

lemma before_mem: "before x y H \<Longrightarrow> x \<in> set H \<and> y \<in> set H"
  by (induction H) (auto split: if_splits)

lemma before_filter:
  "distinct H \<Longrightarrow> P x \<Longrightarrow> P y \<Longrightarrow> before x y (filter P H) \<longleftrightarrow> before x y H"
  by (induction H) auto

lemma before_irrefl: "distinct H \<Longrightarrow> \<not> before x x H"
  by (induction H) auto

lemma before_asym: "distinct H \<Longrightarrow> before x y H \<Longrightarrow> \<not> before y x H"
  by (induction H) (auto split: if_splits dest: before_mem)

lemma before_trans: "distinct H \<Longrightarrow> before x y H \<Longrightarrow> before y z H \<Longrightarrow> before x z H"
  by (induction H) (auto split: if_splits dest: before_mem)

lemma before_total:
  "distinct H \<Longrightarrow> x \<in> set H \<Longrightarrow> y \<in> set H \<Longrightarrow> x \<noteq> y \<Longrightarrow> before x y H \<or> before y x H"
  by (induction H) auto

fun pos_of :: "'a \<Rightarrow> 'a list \<Rightarrow> nat" where
  "pos_of x [] = 0"
| "pos_of x (z # zs) = (if z = x then 0 else Suc (pos_of x zs))"

lemma before_pos:
  "distinct H \<Longrightarrow> x \<in> set H \<Longrightarrow> y \<in> set H \<Longrightarrow> before x y H \<longleftrightarrow> pos_of x H < pos_of y H"
  by (induction H) (auto dest: before_mem)

subsection \<open>Well-formed histories\<close>

lemma whist_distinct: "whist H \<Longrightarrow> distinct H"
  by (simp add: whist_def)

lemma whist_inv: "whist H \<Longrightarrow> Inv i \<in> set H \<Longrightarrow> before (Inv i) (Rsp i) H"
  by (auto simp: whist_def dest!: bspec split: hev.splits)

lemma whist_rsp: "whist H \<Longrightarrow> Rsp i \<in> set H \<longleftrightarrow> Inv i \<in> set H"
  by (force simp: whist_def dest: before_mem split: hev.splits)

lemma whist_hid: "whist H \<Longrightarrow> x \<in> set H \<Longrightarrow> hid x \<in> ops_of H"
  by (cases x) (auto simp: ops_of_def whist_rsp)

lemma whist_Nil [simp]: "whist []"
  by (simp add: whist_def)

lemma whist_filter: "whist H \<Longrightarrow> whist (filter (\<lambda>x. Q (hid x)) H)"
  unfolding whist_def
  by (auto simp: before_filter split: hev.splits)

lemma ops_of_filter: "ops_of (filter (\<lambda>x. Q (hid x)) H) = {i \<in> ops_of H. Q i}"
  by (auto simp: ops_of_def)

lemma whist_without: "whist H \<Longrightarrow> whist (without B H)"
  unfolding without_def by (rule whist_filter)

lemma ops_of_without [simp]: "ops_of (without B H) = ops_of H - B"
  by (auto simp: without_def ops_of_def)

lemma without_empty [simp]: "without {} H = H"
  by (simp add: without_def)

lemma without_without [simp]: "without B (without C H) = without (B \<union> C) H"
  by (auto simp: without_def intro: filter_cong)

lemma precedes_filter:
  "distinct H \<Longrightarrow> Q i \<Longrightarrow> Q j \<Longrightarrow> precedes (filter (\<lambda>x. Q (hid x)) H) i j \<longleftrightarrow> precedes H i j"
  by (simp add: precedes_def before_filter)

lemma precedes_without:
  "distinct H \<Longrightarrow> i \<notin> B \<Longrightarrow> j \<notin> B \<Longrightarrow> precedes (without B H) i j \<longleftrightarrow> precedes H i j"
  unfolding without_def by (rule precedes_filter)

lemma extends_prec_cong:
  assumes "\<And>i j. i \<in> set xs \<Longrightarrow> j \<in> set xs \<Longrightarrow> precedes H i j \<longleftrightarrow> precedes H' i j"
  shows "extends_prec H xs \<longleftrightarrow> extends_prec H' xs"
  unfolding extends_prec_def using assms by (auto intro: sorted_wrt_mono_rel[rotated])

subsection \<open>The search step\<close>

lemma minimal_iff:
  assumes w: "whist H" and H: "H = pre @ Inv i # post"
  shows "(\<forall>x\<in>set pre. is_inv x) \<longleftrightarrow> (\<forall>j\<in>ops_of H. \<not> precedes H j i)"
proof -
  have d: "distinct H" using w by (rule whist_distinct)
  have "precedes H j i \<longleftrightarrow> Rsp j \<in> set pre" for j
    using d before_mem[of "Rsp j" "Inv i" pre] before_mem[of "Rsp j" "Inv i" post]
    by (auto simp: H precedes_def)
  moreover have "j \<in> ops_of H" if "Rsp j \<in> set pre" for j
    using whist_hid[OF w, of "Rsp j"] that H by simp
  ultimately show ?thesis
    by (auto elim!: is_inv.elims) (metis is_inv.elims(3))
qed

lemma not_self_precedes: "whist H \<Longrightarrow> \<not> precedes H i i"
  unfolding precedes_def
  by (metis before_asym before_mem whist_distinct whist_inv)

lemma lin_Nil [simp]: "linearizable stp s []"
  by (auto simp: linearizable_def linearization_def ops_of_def extends_prec_def intro: exI[of _ "[]"])

lemma lin_stepI:
  assumes w: "whist H" and H: "H = pre @ Inv i # post" and pre: "\<forall>x\<in>set pre. is_inv x"
    and st: "stp s i = (True, s')" and l: "linearizable stp s' (without {i} H)"
  shows "linearizable stp s H"
proof -
  have d: "distinct H" using w by (rule whist_distinct)
  obtain xs where xs: "distinct xs" "set xs = ops_of H - {i}" "extends_prec (without {i} H) xs"
    "accepts stp s' xs"
    using l by (auto simp: linearizable_def linearization_def)
  have "extends_prec H xs"
    using xs(2,3) extends_prec_cong[of xs "without {i} H" H] precedes_without[OF d] by auto
  moreover have "\<forall>j\<in>set xs. \<not> precedes H j i"
    using minimal_iff[OF w H] pre xs(2) by auto
  ultimately have "extends_prec H (i # xs)" by (simp add: extends_prec_def)
  moreover have "i \<in> ops_of H" by (simp add: H ops_of_def)
  ultimately have "linearization stp s H (i # xs)"
    using xs st by (auto simp: linearization_def)
  then show ?thesis by (auto simp: linearizable_def)
qed

lemma lin_stepE:
  assumes w: "whist H" and l: "linearizable stp s H" and ne: "H \<noteq> []"
  shows "\<exists>pre i post s'. H = pre @ Inv i # post \<and> (\<forall>x\<in>set pre. is_inv x)
           \<and> stp s i = (True, s') \<and> linearizable stp s' (without {i} H)"
proof -
  have d: "distinct H" using w by (rule whist_distinct)
  obtain xs where xs: "distinct xs" "set xs = ops_of H" "extends_prec H xs" "accepts stp s xs"
    using l by (auto simp: linearizable_def linearization_def)
  have "ops_of H \<noteq> {}" using ne whist_hid[OF w] by (cases H) auto
  then obtain i ys where i: "xs = i # ys" using xs(2) by (cases xs) auto
  obtain s' where s': "stp s i = (True, s')" "accepts stp s' ys"
    using xs(4) i by (auto split: prod.splits)
  have "Inv i \<in> set H" using xs(2) i by (auto simp: ops_of_def)
  then obtain pre post where H: "H = pre @ Inv i # post" by (meson split_list)
  have "\<forall>j\<in>ops_of H. \<not> precedes H j i"
  proof
    fix j assume "j \<in> ops_of H"
    then have "j = i \<or> j \<in> set ys" using xs(2) i by auto
    then show "\<not> precedes H j i" using xs(3) i not_self_precedes[OF w] by (auto simp: extends_prec_def)
  qed
  then have pre: "\<forall>x\<in>set pre. is_inv x" using minimal_iff[OF w H] by simp
  have "extends_prec H ys" "i \<notin> set ys" using xs(1,3) i by (auto simp: extends_prec_def)
  moreover have "extends_prec (without {i} H) ys \<longleftrightarrow> extends_prec H ys"
    by (rule extends_prec_cong) (metis \<open>i \<notin> set ys\<close> precedes_without[OF d, of _ "{i}"] singletonD)
  ultimately have "extends_prec (without {i} H) ys" by simp
  then have "linearization stp s' (without {i} H) ys"
    using xs(1,2) i s' by (auto simp: linearization_def)
  then show ?thesis using H pre s' by (auto simp: linearizable_def)
qed

subsection \<open>Locality\<close>

text \<open>
  An object made of one independent copy of a sequential object per key. Its state gives a state
  to every key, and an operation acts on the state of its own key only.
\<close>

definition keyed_step :: "(nat \<Rightarrow> 'k) \<Rightarrow> ('s \<Rightarrow> nat \<Rightarrow> bool \<times> 's) \<Rightarrow> ('k \<Rightarrow> 's) \<Rightarrow> nat \<Rightarrow> bool \<times> ('k \<Rightarrow> 's)" where
  "keyed_step key stp \<sigma> i = (case stp (\<sigma> (key i)) i of (ok, s') \<Rightarrow> (ok, \<sigma>(key i := s')))"

lemma accepts_keyed:
  "accepts (keyed_step key stp) \<sigma> xs \<longleftrightarrow> (\<forall>k. accepts stp (\<sigma> k) (filter (\<lambda>i. key i = k) xs))"
proof (induction xs arbitrary: \<sigma>)
  case (Cons i xs)
  obtain ok s' where st: "stp (\<sigma> (key i)) i = (ok, s')" by (cases "stp (\<sigma> (key i)) i")
  have "accepts (keyed_step key stp) \<sigma> (i # xs) \<longleftrightarrow>
        ok \<and> (\<forall>k. accepts stp ((\<sigma>(key i := s')) k) (filter (\<lambda>j. key j = k) xs))"
    unfolding accepts.simps keyed_step_def[of key stp \<sigma> i] st Cons.IH prod.case by (rule refl)
  also have "\<dots> \<longleftrightarrow> (\<forall>k. accepts stp (\<sigma> k) (filter (\<lambda>j. key j = k) (i # xs)))"
    using st by (auto simp: st)
  finally show ?case .
qed simp

abbreviation key_part :: "(nat \<Rightarrow> 'k) \<Rightarrow> 'k \<Rightarrow> hev list \<Rightarrow> hev list" where
  "key_part key k H \<equiv> filter (\<lambda>x. key (hid x) = k) H"

text \<open>
  A linearization of one key is turned into linearization points: each operation gets the largest
  invocation position seen so far, which lies between its own invocation and its response.
\<close>

fun points :: "(nat \<Rightarrow> nat) \<Rightarrow> nat \<Rightarrow> nat list \<Rightarrow> (nat \<times> nat) list" where
  "points c m [] = []"
| "points c m (i # xs) = (max m (c i), i) # points c (max m (c i)) xs"

lemma map_snd_points [simp]: "map snd (points c m xs) = xs"
  by (induction xs arbitrary: m) auto

lemma points_ge: "(p, i) \<in> set (points c m xs) \<Longrightarrow> c i \<le> p \<and> m \<le> p"
  by (induction xs arbitrary: m) (auto, fastforce+)

lemma sorted_points: "sorted (map fst (points c m xs))"
  by (induction xs arbitrary: m) (auto dest: points_ge)

lemma points_lt:
  assumes "sorted_wrt (\<lambda>i j. c i < r j) xs" and "\<forall>i\<in>set xs. m \<le> c i \<or> m < r i"
    and "\<forall>i\<in>set xs. c i < r i" and "(p, i) \<in> set (points c m xs)"
  shows "p < r i"
  using assms
proof (induction xs arbitrary: m)
  case (Cons j xs)
  show ?case
  proof (cases "(p, i) = (max m (c j), j)")
    case True
    with Cons.prems show ?thesis by auto
  next
    case False
    then have "(p, i) \<in> set (points c (max m (c j)) xs)" using Cons.prems(4) by auto
    moreover have "\<forall>i\<in>set xs. max m (c j) \<le> c i \<or> max m (c j) < r i"
    proof
      fix x assume "x \<in> set xs"
      then have "c j < r x" "m \<le> c x \<or> m < r x" "c x < r x" using Cons.prems(1-3) by auto
      then show "max m (c j) \<le> c x \<or> max m (c j) < r x" by auto
    qed
    ultimately show ?thesis using Cons.IH[of "max m (c j)"] Cons.prems(1,3) by auto
  qed
qed simp

lemma extends_prec_pos:
  assumes w: "whist H" and e: "extends_prec (key_part key k H) xs"
    and o: "set xs = ops_of (key_part key k H)"
  shows "sorted_wrt (\<lambda>i j. pos_of (Inv i) H < pos_of (Rsp j) H) xs"
  using e unfolding extends_prec_def
proof (rule sorted_wrt_mono_rel[rotated])
  fix i j assume ij: "i \<in> set xs" "j \<in> set xs" and n: "\<not> precedes (key_part key k H) j i"
  have d: "distinct H" using w by (rule whist_distinct)
  have mem: "Inv i \<in> set H" "Rsp j \<in> set H" "key i = k" "key j = k"
    using ij o whist_rsp[OF w] by (auto simp: ops_of_def)
  then have "\<not> before (Rsp j) (Inv i) H"
    using n precedes_filter[OF d, of "\<lambda>i. key i = k" j i] by (simp add: precedes_def)
  then have "before (Inv i) (Rsp j) H" using before_total[OF d mem(1,2)] by simp
  then show "pos_of (Inv i) H < pos_of (Rsp j) H" using before_pos[OF d mem(1,2)] by simp
qed

lemma lin_localE:
  assumes w: "whist H" and l: "linearizable (keyed_step key stp) \<sigma> H"
  shows "linearizable stp (\<sigma> k) (key_part key k H)"
proof -
  have d: "distinct H" using w by (rule whist_distinct)
  obtain xs where xs: "distinct xs" "set xs = ops_of H" "extends_prec H xs"
    "accepts (keyed_step key stp) \<sigma> xs"
    using l by (auto simp: linearizable_def linearization_def)
  let ?ys = "filter (\<lambda>i. key i = k) xs"
  have "extends_prec H ?ys" using xs(3) by (simp add: extends_prec_def sorted_wrt_filter)
  then have "extends_prec (key_part key k H) ?ys"
    using extends_prec_cong[of ?ys "key_part key k H" H] precedes_filter[OF d, of "\<lambda>i. key i = k"]
    by auto
  moreover have "set ?ys = ops_of (key_part key k H)" using xs(2) by (auto simp: ops_of_def)
  ultimately have "linearization stp (\<sigma> k) (key_part key k H) ?ys"
    using xs(1,4) by (simp add: linearization_def accepts_keyed)
  then show ?thesis by (auto simp: linearizable_def)
qed

lemma filter_concat_map_distinct:
  assumes "distinct ks" and "\<And>k x. x \<in> set (g k) \<Longrightarrow> h x = k"
  shows "filter (\<lambda>x. h x = k) (concat (map g ks)) = (if k \<in> set ks then g k else [])"
  using assms(1)
proof (induction ks)
  case (Cons a ks)
  have "filter (\<lambda>x. h x = k) (g a) = (if a = k then g a else [])"
    using assms(2) by (auto simp: filter_empty_conv filter_id_conv)
  with Cons show ?case by auto
qed simp

lemma distinct_by_parts:
  "(\<And>k. distinct (filter (\<lambda>x. h x = k) xs)) \<Longrightarrow> distinct xs"
proof (induction xs)
  case (Cons a xs)
  have "distinct (filter (\<lambda>x. h x = k) xs)" for k
    using Cons.prems[of k] by (auto split: if_splits)
  moreover have "a \<notin> set xs" using Cons.prems[of "h a"] by auto
  ultimately show ?case using Cons.IH by simp
qed simp

definition merge_points :: "('k \<Rightarrow> (nat \<times> nat) list) \<Rightarrow> 'k list \<Rightarrow> (nat \<times> nat) list" where
  "merge_points g ks = sort_key fst (concat (map g ks))"

lemma lin_localI:
  assumes w: "whist H" and l: "\<And>k. linearizable stp (\<sigma> k) (key_part key k H)"
  shows "linearizable (keyed_step key stp) \<sigma> H"
proof -
  have d: "distinct H" using w by (rule whist_distinct)
  let ?c = "\<lambda>i. pos_of (Inv i) H" and ?r = "\<lambda>i. pos_of (Rsp i) H"
  obtain f where f: "\<And>k. linearization stp (\<sigma> k) (key_part key k H) (f k)"
    using l unfolding linearizable_def by metis
  have setf: "set (f k) = {i \<in> ops_of H. key i = k}" for k
    using f by (auto simp: linearization_def ops_of_def)
  define g where "g k = points ?c 0 (f k)" for k
  define ks where "ks = remdups (map (key \<circ> hid) H)"
  define L where "L = merge_points g ks"
  have gk: "key (snd x) = k" if "x \<in> set (g k)" for k x
  proof -
    have "snd x \<in> set (map snd (g k))" using that by simp
    then have "snd x \<in> set (f k)" by (simp only: g_def map_snd_points)
    then show ?thesis using setf by simp
  qed
  have inks: "key i \<in> set ks" if "i \<in> ops_of H" for i
    using that by (force simp: ks_def ops_of_def)
  have fk: "filter (\<lambda>i. key i = k) (map snd L) = f k" for k
  proof -
    have "filter (\<lambda>x. key (snd x) = k) L
          = sort_key fst (if k \<in> set ks then g k else [])"
      unfolding L_def merge_points_def filter_sort
      by (subst filter_concat_map_distinct) (auto simp: ks_def gk)
    also have "\<dots> = (if k \<in> set ks then g k else [])"
      by (auto simp: g_def sorted_points intro: sorted_sort_id sort_key_id_if_sorted)
    finally have "filter (\<lambda>i. key i = k) (map snd L) = (if k \<in> set ks then f k else [])"
      by (auto simp: filter_map o_def g_def)
    moreover have "set (f k) = {}" if "k \<notin> set ks" using setf[of k] inks that by auto
    ultimately show ?thesis by auto
  qed
  have mem: "?c i \<le> p \<and> p < ?r i \<and> i \<in> ops_of H" if pi: "(p, i) \<in> set L" for p i
  proof -
    obtain k where k: "(p, i) \<in> set (g k)" using pi by (auto simp: L_def merge_points_def)
    then have "i \<in> set (map snd (g k))" by force
    then have "i \<in> set (f k)" by (simp only: g_def map_snd_points)
    moreover have "\<forall>i\<in>set (f k). ?c i < ?r i"
    proof
      fix i assume "i \<in> set (f k)"
      then have b: "before (Inv i) (Rsp i) H" using setf[of k] whist_inv[OF w] by (simp add: ops_of_def)
      then show "?c i < ?r i" using before_pos[OF d, of "Inv i" "Rsp i"] before_mem[OF b] by simp
    qed
    moreover have "sorted_wrt (\<lambda>i j. ?c i < ?r j) (f k)"
      using f[of k] extends_prec_pos[OF w] by (auto simp: linearization_def)
    ultimately show ?thesis
      using points_ge[of p i ?c 0 "f k"] points_lt[of ?c ?r "f k" 0 p i] k setf[of k]
      by (auto simp: g_def)
  qed
  have sets: "set (map snd L) = ops_of H"
  proof (rule set_eqI)
    fix i
    have "i \<in> set (map snd L) \<longleftrightarrow> i \<in> set (filter (\<lambda>j. key j = key i) (map snd L))"
      by (simp del: set_map)
    also have "\<dots> \<longleftrightarrow> i \<in> ops_of H" by (simp only: fk setf) simp
    finally show "i \<in> set (map snd L) \<longleftrightarrow> i \<in> ops_of H" .
  qed
  moreover have "distinct (map snd L)"
    by (rule distinct_by_parts[of key]) (use fk f in \<open>simp add: linearization_def\<close>)
  moreover have "extends_prec H (map snd L)"
  proof -
    have "sorted_wrt (\<lambda>x y. fst x \<le> fst y) L"
      using sorted_sort_key[of fst "concat (map g ks)"] by (simp add: L_def merge_points_def sorted_map)
    then have "sorted_wrt (\<lambda>x y. \<not> precedes H (snd y) (snd x)) L"
    proof (rule sorted_wrt_mono_rel[rotated])
      fix x y assume xy: "x \<in> set L" "y \<in> set L" "fst x \<le> fst y"
      obtain p i q j where e: "x = (p, i)" "y = (q, j)" by (cases x, cases y)
      then have "?c i \<le> p" "p \<le> q" "q < ?r j" "i \<in> ops_of H" "j \<in> ops_of H" using mem xy by auto
      then have "\<not> before (Rsp j) (Inv i) H"
        using before_pos[OF d, of "Rsp j" "Inv i"] whist_rsp[OF w] by (auto simp: ops_of_def)
      then show "\<not> precedes H (snd y) (snd x)" using e by (simp add: precedes_def)
    qed
    then show ?thesis by (simp add: extends_prec_def sorted_wrt_map)
  qed
  moreover have "accepts (keyed_step key stp) \<sigma> (map snd L)"
    using fk f by (simp add: accepts_keyed linearization_def)
  ultimately show ?thesis by (auto simp: linearizable_def linearization_def)
qed

lemma lin_local:
  assumes "whist H"
  shows "linearizable (keyed_step key stp) \<sigma> H \<longleftrightarrow> (\<forall>k. linearizable stp (\<sigma> k) (key_part key k H))"
proof
  assume "linearizable (keyed_step key stp) \<sigma> H"
  from lin_localE[OF assms this] show "\<forall>k. linearizable stp (\<sigma> k) (key_part key k H)" ..
next
  assume "\<forall>k. linearizable stp (\<sigma> k) (key_part key k H)"
  then have "linearizable stp (\<sigma> k) (key_part key k H)" for k ..
  from lin_localI[OF assms this] show "linearizable (keyed_step key stp) \<sigma> H" .
qed

end
