(* ===== verification/LinModel.thy ===== *)
theory LinModel
  imports LinSpec
begin

text \<open>
  The vocabulary of the linearizability checker (\<^verbatim>\<open>courses/dss/linearizability/src/model.rs\<close>):
  values, operations, events and the \<^verbatim>\<open>Model\<close> trait, whose methods are the fields of a record.
  The panicking accessors \<^verbatim>\<open>Value::input\<close> and \<^verbatim>\<open>Value::output\<close> return \<^const>\<open>None\<close> on a panic.
\<close>

datatype ('i, 'o) val = Input 'i | Output 'o | NoVal

fun val_input :: "('i, 'o) val \<Rightarrow> 'i option" where
  "val_input (Input i) = Some i"
| "val_input _ = None"

fun val_output :: "('i, 'o) val \<Rightarrow> 'o option" where
  "val_output (Output x) = Some x"
| "val_output _ = None"

record ('i, 'o) operation =
  op_input :: 'i
  op_call :: int
  op_output :: 'o
  op_finish :: int

datatype event_kind = CallEvent | ReturnEvent

record ('i, 'o) event =
  ev_kind :: event_kind
  ev_value :: "('i, 'o) val"
  ev_id :: nat

record ('s, 'i, 'o) model =
  partition :: "('i, 'o) operation list \<Rightarrow> ('i, 'o) operation list list"
  partition_event :: "('i, 'o) event list \<Rightarrow> ('i, 'o) event list list option"
  init_state :: 's
  step :: "'s \<Rightarrow> 'i \<Rightarrow> 'o \<Rightarrow> bool \<times> 's"
  equal_state :: "'s \<Rightarrow> 's \<Rightarrow> bool"

definition default_partition :: "('i, 'o) operation list \<Rightarrow> ('i, 'o) operation list list" where
  "default_partition history = [history]"

definition default_partition_event :: "('i, 'o) event list \<Rightarrow> ('i, 'o) event list list option" where
  "default_partition_event history = Some [history]"

definition default_equal :: "'s \<Rightarrow> 's \<Rightarrow> bool" where
  "default_equal state1 state2 \<longleftrightarrow> state1 = state2"

text \<open>
  What the checker asks of a model: its comparison of states is equality, which is what the trait's
  default gives. The checker prunes its search with it.
\<close>

locale state_equality =
  fixes M :: "('s, 'i, 'o, 'z) model_scheme"
  assumes equal_state_iff: "equal_state M s t \<longleftrightarrow> s = t"

text \<open>The sequential object a model describes, over operations that are numbered.\<close>

definition model_step :: "('s, 'i, 'o, 'z) model_scheme \<Rightarrow> (nat \<Rightarrow> 'i) \<Rightarrow> (nat \<Rightarrow> 'o) \<Rightarrow> 's \<Rightarrow> nat \<Rightarrow> bool \<times> 's" where
  "model_step M inp outp s i = step M s (inp i) (outp i)"

end
