(* ===== verification/LinNodes.thy ===== *)
theory LinNodes
  imports LinModel
begin

text \<open>
  The doubly linked list of entries the checker searches
  (\<^verbatim>\<open>courses/dss/linearizability/src/lib.rs\<close>: \<^verbatim>\<open>Entry\<close>, \<^verbatim>\<open>make_entries\<close>, \<^verbatim>\<open>LinkedNodes\<close>, \<^verbatim>\<open>Node\<close>,
  \<^verbatim>\<open>lift\<close>, \<^verbatim>\<open>unlift\<close>). A node is reached through an \<^verbatim>\<open>Rc<RefCell<Node>>\<close>; here it is a cell of an
  explicit heap and the reference is its address. A mutable borrow of a cell that is already
  borrowed panics, so every write of \<open>lift\<close> and \<open>unlift\<close> names the cells borrowed at that point.
\<close>

subsection \<open>Entries\<close>

datatype entry_kind = CallEntry | ReturnEntry

record 'v entry =
  ekind :: entry_kind
  evalue :: 'v
  eid :: nat
  etime :: int

fun make_entries_loop :: "nat \<Rightarrow> ('i, 'o) operation list \<Rightarrow> ('i, 'o) val entry list" where
  "make_entries_loop k [] = []"
| "make_entries_loop k (elem # rest) =
     \<lparr>ekind = CallEntry, evalue = Input (op_input elem), eid = k, etime = op_call elem\<rparr> #
     \<lparr>ekind = ReturnEntry, evalue = Output (op_output elem), eid = k, etime = op_finish elem\<rparr> #
     make_entries_loop (Suc k) rest"

definition make_entries :: "('i, 'o) operation list \<Rightarrow> ('i, 'o) val entry list" where
  "make_entries history = sort_key etime (make_entries_loop 0 history)"

subsection \<open>Nodes and the heap\<close>

type_synonym addr = nat

record 'v node =
  nvalue :: 'v
  matched :: "addr option"
  nid :: nat
  nxt :: "addr option"
  prv :: "addr option"

type_synonym 'v heap = "addr \<Rightarrow> 'v node option"

record 'v linked_nodes =
  cells :: "'v heap"
  fresh :: addr
  head :: "addr option"

definition nodes_new :: "'v linked_nodes" where
  "nodes_new = \<lparr>cells = (\<lambda>_. None), fresh = 0, head = None\<rparr>"

definition rc_new :: "'v node \<Rightarrow> 'v linked_nodes \<Rightarrow> addr \<times> 'v linked_nodes" where
  "rc_new nd ns = (fresh ns, ns\<lparr>cells := (cells ns)(fresh ns \<mapsto> nd), fresh := Suc (fresh ns)\<rparr>)"

definition write_cell :: "addr list \<Rightarrow> addr \<Rightarrow> ('v node \<Rightarrow> 'v node) \<Rightarrow> 'v heap \<Rightarrow> 'v heap option" where
  "write_cell borrowed a f h =
     (if a \<in> set borrowed then None
      else case h a of None \<Rightarrow> None | Some nd \<Rightarrow> Some (h(a \<mapsto> f nd)))"

definition push_front :: "'v linked_nodes \<Rightarrow> addr \<Rightarrow> 'v linked_nodes option" where
  "push_front ns new_head =
     (case head ns of
        Some old_head \<Rightarrow> do {
          h1 \<leftarrow> write_cell [] old_head (prv_update (\<lambda>_. Some new_head)) (cells ns);
          h2 \<leftarrow> write_cell [] new_head (nxt_update (\<lambda>_. Some old_head)) h1;
          Some (ns\<lparr>cells := h2, head := Some new_head\<rparr>)
        }
      | None \<Rightarrow> Some (ns\<lparr>head := Some new_head\<rparr>))"

fun from_entries_loop ::
  "'v entry list \<Rightarrow> (nat \<Rightarrow> addr option) \<Rightarrow> 'v linked_nodes \<Rightarrow> 'v linked_nodes option" where
  "from_entries_loop [] matches nodes = Some nodes"
| "from_entries_loop (e # es) matches nodes =
     (case ekind e of
        CallEntry \<Rightarrow>
          (let (a, nodes1) = rc_new \<lparr>nvalue = evalue e, matched = matches (eid e), nid = eid e,
                                     nxt = None, prv = None\<rparr> nodes
           in do { nodes2 \<leftarrow> push_front nodes1 a; from_entries_loop es matches nodes2 })
      | ReturnEntry \<Rightarrow>
          (let (a, nodes1) = rc_new \<lparr>nvalue = evalue e, matched = None, nid = eid e,
                                     nxt = None, prv = None\<rparr> nodes
           in do { nodes2 \<leftarrow> push_front nodes1 a;
                   from_entries_loop es (matches(eid e \<mapsto> a)) nodes2 }))"

definition from_entries :: "'v entry list \<Rightarrow> 'v linked_nodes option" where
  "from_entries entries = from_entries_loop (rev entries) (\<lambda>_. None) nodes_new"

partial_function (option) len_loop :: "'v heap \<Rightarrow> addr option \<Rightarrow> nat \<Rightarrow> nat option" where
  "len_loop h e n =
     (case e of None \<Rightarrow> Some n
      | Some a \<Rightarrow> (case h a of None \<Rightarrow> None | Some nd \<Rightarrow> len_loop h (nxt nd) (n + 1)))"

declare len_loop.simps [code]

definition nodes_len :: "'v linked_nodes \<Rightarrow> nat option" where
  "nodes_len ns = len_loop (cells ns) (head ns) 0"

subsection \<open>Taking an operation out of the list and putting it back\<close>

definition lift :: "'v heap \<Rightarrow> addr \<Rightarrow> 'v heap option" where
  "lift h e = do {
     nd \<leftarrow> h e;
     prev \<leftarrow> prv nd;
     h1 \<leftarrow> write_cell [e] prev (nxt_update (\<lambda>_. nxt nd)) h;
     nd \<leftarrow> h1 e;
     next \<leftarrow> nxt nd;
     h2 \<leftarrow> write_cell [e] next (prv_update (\<lambda>_. prv nd)) h1;
     nd \<leftarrow> h2 e;
     m \<leftarrow> matched nd;
     md \<leftarrow> h2 m;
     matched_prev \<leftarrow> prv md;
     h3 \<leftarrow> write_cell [e, m] matched_prev (nxt_update (\<lambda>_. nxt md)) h2;
     md \<leftarrow> h3 m;
     (case nxt md of
        Some matched_next \<Rightarrow> write_cell [e, m] matched_next (prv_update (\<lambda>_. prv md)) h3
      | None \<Rightarrow> Some h3)
   }"

definition unlift :: "'v heap \<Rightarrow> addr \<Rightarrow> 'v heap option" where
  "unlift h e = do {
     nd \<leftarrow> h e;
     m \<leftarrow> matched nd;
     md \<leftarrow> h m;
     matched_prev \<leftarrow> prv md;
     h1 \<leftarrow> write_cell [e, m] matched_prev (nxt_update (\<lambda>_. Some m)) h;
     md \<leftarrow> h1 m;
     h2 \<leftarrow> (case nxt md of
             Some matched_next \<Rightarrow> write_cell [e, m] matched_next (prv_update (\<lambda>_. Some m)) h1
           | None \<Rightarrow> Some h1);
     nd \<leftarrow> h2 e;
     prev \<leftarrow> prv nd;
     h3 \<leftarrow> write_cell [e] prev (nxt_update (\<lambda>_. Some e)) h2;
     nd \<leftarrow> h3 e;
     next \<leftarrow> nxt nd;
     write_cell [e] next (prv_update (\<lambda>_. Some e)) h3
   }"

subsection \<open>Lists in the heap\<close>

fun hdo :: "'a list \<Rightarrow> 'a option \<Rightarrow> 'a option" where
  "hdo [] q = q"
| "hdo (x # xs) q = Some x"

definition lasto :: "'a list \<Rightarrow> 'a option \<Rightarrow> 'a option" where
  "lasto xs p = (if xs = [] then p else Some (last xs))"

fun seg :: "'v heap \<Rightarrow> addr option \<Rightarrow> addr list \<Rightarrow> addr option \<Rightarrow> bool" where
  "seg h p [] q = True"
| "seg h p (a # as) q =
     (\<exists>nd. h a = Some nd \<and> prv nd = p \<and> nxt nd = hdo as q \<and> seg h (Some a) as q)"

abbreviation dll :: "'v heap \<Rightarrow> addr list \<Rightarrow> bool" where
  "dll h xs \<equiv> seg h None xs None"

lemma lasto_simps [simp]: "lasto [] p = p" "lasto (x # xs) p = lasto xs (Some x)" "lasto (xs @ [x]) p = Some x"
  by (auto simp: lasto_def)

lemma hdo_append [simp]: "hdo (xs @ ys) q = hdo xs (hdo ys q)"
  by (cases xs) auto

lemma seg_append [simp]: "seg h p (xs @ ys) q \<longleftrightarrow> seg h p xs (hdo ys q) \<and> seg h (lasto xs p) ys q"
  by (induction xs arbitrary: p) auto

lemma seg_upd [simp]: "a \<notin> set xs \<Longrightarrow> seg (h(a := v)) p xs q \<longleftrightarrow> seg h p xs q"
  by (induction xs arbitrary: p) auto

lemma seg_cell: "seg h p xs q \<Longrightarrow> a \<in> set xs \<Longrightarrow> \<exists>nd. h a = Some nd"
  by (induction xs arbitrary: p) auto

definition unlink :: "'v heap \<Rightarrow> addr \<Rightarrow> 'v heap" where
  "unlink h e = (case h e of None \<Rightarrow> h | Some nd \<Rightarrow>
     (case prv nd of None \<Rightarrow> h | Some p \<Rightarrow>
       (let h1 = h(p := map_option (nxt_update (\<lambda>_. nxt nd)) (h p))
        in case nxt nd of None \<Rightarrow> h1 | Some q \<Rightarrow> h1(q := map_option (prv_update (\<lambda>_. Some p)) (h1 q)))))"

definition relink :: "'v heap \<Rightarrow> addr \<Rightarrow> 'v heap" where
  "relink h e = (case h e of None \<Rightarrow> h | Some nd \<Rightarrow>
     (case prv nd of None \<Rightarrow> h | Some p \<Rightarrow>
       (let h1 = h(p := map_option (nxt_update (\<lambda>_. Some e)) (h p))
        in case nxt nd of None \<Rightarrow> h1 | Some q \<Rightarrow> h1(q := map_option (prv_update (\<lambda>_. Some e)) (h1 q)))))"

lemma unlink_spec:
  assumes s: "dll h (us @ [p] @ e # ws)" and d: "distinct (us @ [p] @ e # ws)"
  shows "dll (unlink h e) (us @ [p] @ ws)" and "relink (unlink h e) e = h"
    and "a \<notin> set (us @ [p] @ ws) \<Longrightarrow> unlink h e a = h a"
proof -
  obtain nd where nd: "h e = Some nd" "prv nd = Some p" "nxt nd = hdo ws None"
    using s by auto
  obtain pd where pd: "h p = Some pd" "nxt pd = Some e" "prv pd = lasto us None" using s by auto
  have sp: "seg h None us (Some p)" and sw: "seg h (Some e) ws None" using s by auto
  show "dll (unlink h e) (us @ [p] @ ws)"
    using nd pd sp sw d by (cases ws) (auto simp: unlink_def)
  show "relink (unlink h e) e = h"
    using nd pd sp sw d by (cases ws) (auto simp: unlink_def relink_def fun_eq_iff)
  show "unlink h e a = h a" if "a \<notin> set (us @ [p] @ ws)"
    using that nd pd by (cases ws) (auto simp: unlink_def)
qed

definition static :: "'v heap \<Rightarrow> addr \<Rightarrow> ('v \<times> addr option \<times> nat) option" where
  "static h a = map_option (\<lambda>nd. (nvalue nd, matched nd, nid nd)) (h a)"

lemma static_unlink [simp]: "static (unlink h e) = static h"
  by (auto simp: static_def unlink_def fun_eq_iff Let_def option.map_comp o_def split: option.splits)

lemma write_cell_Some:
  "a \<notin> set bs \<Longrightarrow> h a = Some nd \<Longrightarrow> write_cell bs a f h = Some (h(a \<mapsto> f nd))"
  by (simp add: write_cell_def)

lemma lift_unlink:
  assumes s: "dll h (us @ [p] @ e # mid @ m # post)" and d: "distinct (us @ [p] @ e # mid @ m # post)"
    and m: "h e = Some nd" "matched nd = Some m"
  shows "lift h e = Some (unlink (unlink h e) m)"
proof -
  let ?h2 = "unlink h e"
  obtain n where n: "hdo (mid @ m # post) None = Some n" "n \<in> set (mid @ [m])"
    by (cases mid) auto
  have nd: "prv nd = Some p" "nxt nd = Some n" using s m n by auto
  obtain pd where pd: "h p = Some pd" using s by auto
  obtain n1 where n1: "h n = Some n1" using s n seg_cell by fastforce
  have ne: "p \<noteq> e" "n \<noteq> e" "p \<noteq> n" using d n by auto
  have h2: "?h2 = h(p \<mapsto> nxt_update (\<lambda>_. Some n) pd, n \<mapsto> prv_update (\<lambda>_. Some p) n1)"
    using m nd pd n1 ne by (simp add: unlink_def)
  have s2: "dll ?h2 ((us @ [p] @ mid) @ m # post)" using unlink_spec(1)[OF s d] by simp
  obtain vs mp where mp: "us @ [p] @ mid = vs @ [mp]" by (metis append_is_Nil_conv list.distinct(1) rev_exhaust)
  have s2': "dll ?h2 (vs @ [mp] @ m # post)" using s2[unfolded mp] by simp
  have d2: "mp \<noteq> e" "mp \<noteq> m" "m \<noteq> e" "e \<notin> set post" "m \<notin> set post" "mp \<notin> set post"
  proof -
    have "mp \<in> set (us @ [p] @ mid)" unfolding mp by simp
    then show "mp \<noteq> e" "mp \<noteq> m" "m \<noteq> e" "e \<notin> set post" "m \<notin> set post" "mp \<notin> set post"
      using d by auto
  qed
  obtain md where md: "?h2 m = Some md" "prv md = Some mp" "nxt md = hdo post None"
    using s2' by auto
  obtain mpd where mpd: "?h2 mp = Some mpd" using s2' by auto
  have e2: "?h2 e = Some nd" using m ne by (simp add: h2)
  have 1: "lift h e = (do {
     h3 \<leftarrow> write_cell [e, m] mp (nxt_update (\<lambda>_. nxt md)) ?h2;
     md \<leftarrow> h3 m;
     (case nxt md of
        Some matched_next \<Rightarrow> write_cell [e, m] matched_next (prv_update (\<lambda>_. prv md)) h3
      | None \<Rightarrow> Some h3)})"
    using m nd pd n1 ne e2 md by (simp add: lift_def write_cell_Some h2)
  show ?thesis
  proof (cases post)
    case Nil
    then show ?thesis using 1 md mpd d2 by (simp add: write_cell_Some unlink_def[of ?h2 m])
  next
    case (Cons q qs)
    obtain qd where "?h2 q = Some qd" using s2' Cons by auto
    then show ?thesis using 1 md mpd d2 Cons by (simp add: write_cell_Some unlink_def[of ?h2 m])
  qed
qed

lemma unlift_relink:
  assumes e: "h e = Some nd" "matched nd = Some m" and m: "h m = Some md" "prv md = Some mp" "h mp \<noteq> None"
    and q: "\<And>q. nxt md = Some q \<Longrightarrow> h q \<noteq> None \<and> q \<notin> {e, m, mp}" and ne: "mp \<notin> {e, m}" "e \<noteq> m"
    and h1: "relink h m = h1" and e1: "h1 e = Some nd"
    and p: "prv nd = Some p" "h1 p \<noteq> None" and n: "nxt nd = Some n" "h1 n \<noteq> None" and ne1: "p \<noteq> e" "n \<noteq> e" "p \<noteq> n"
  shows "unlift h e = Some (relink h1 e)"
proof -
  obtain mpd where mpd: "h mp = Some mpd" using m by auto
  have 1: "unlift h e = (do {
     nd \<leftarrow> h1 e;
     prev \<leftarrow> prv nd;
     h3 \<leftarrow> write_cell [e] prev (nxt_update (\<lambda>_. Some e)) h1;
     nd \<leftarrow> h3 e;
     next \<leftarrow> nxt nd;
     write_cell [e] next (prv_update (\<lambda>_. Some e)) h3})"
  proof (cases "nxt md")
    case None
    then show ?thesis using e m mpd ne h1[symmetric]
      by (simp add: unlift_def write_cell_Some relink_def)
  next
    case (Some q)
    then obtain qd where "h q = Some qd" using q by auto
    then show ?thesis using e m mpd ne h1[symmetric] Some q[of q]
      by (simp add: unlift_def write_cell_Some relink_def)
  qed
  obtain pd nn where "h1 p = Some pd" "h1 n = Some nn" using p n by auto
  then show ?thesis using 1 e1 p n ne1 by (simp add: write_cell_Some relink_def[of h1 e])
qed

lemma lift_spec:
  assumes s: "dll h (us @ e # mid @ m # post)" and us: "us \<noteq> []" and d: "distinct (us @ e # mid @ m # post)"
    and m: "h e = Some nd" "matched nd = Some m"
  shows "\<exists>h'. lift h e = Some h' \<and> dll h' (us @ mid @ post) \<and> unlift h' e = Some h \<and> static h' = static h"
proof -
  obtain ts p where us': "us = ts @ [p]" using us by (metis rev_exhaust)
  have s': "dll h (ts @ [p] @ e # (mid @ m # post))" and d': "distinct (ts @ [p] @ e # (mid @ m # post))"
    using s d us' by auto
  define h1 where "h1 = unlink h e"
  define h2 where "h2 = unlink h1 m"
  note u1 = unlink_spec[OF s' d', folded h1_def]
  obtain vs mp where mp: "ts @ [p] @ mid = vs @ [mp]"
    by (metis append_is_Nil_conv list.distinct(1) rev_exhaust)
  have eq: "ts @ [p] @ mid @ m # post = vs @ [mp] @ m # post" using mp by simp
  have s2: "dll h1 (vs @ [mp] @ m # post)" using u1(1) unfolding eq .
  have d2: "distinct (vs @ [mp] @ m # post)" using d' unfolding eq[symmetric] by auto
  note u2 = unlink_spec[OF s2 d2, folded h2_def]
  have mid: "e \<notin> set (ts @ [p] @ mid @ m # post)" using d' by auto
  then have e1: "h1 e = Some nd" using u1(3)[of e] m by simp
  have "e \<notin> set (vs @ [mp] @ m # post)" using mid unfolding eq .
  then have enot: "e \<noteq> m" "e \<noteq> mp" "e \<notin> set vs" "e \<notin> set post" by auto
  then have e2: "h2 e = Some nd" using u2(3)[of e] e1 by simp
  obtain md where md: "h1 m = Some md" "prv md = Some mp" "nxt md = hdo post None" using s2 by auto
  have m2: "h2 m = Some md" using u2(3)[of m] d2 md by auto
  obtain n where n: "nxt nd = Some n" "n \<in> set (mid @ [m])"
    using s' m by (cases mid) auto
  have p: "prv nd = Some p" using s' m by auto
  have cell: "\<exists>c. h2 a = Some c" if "a \<in> set (vs @ [mp] @ post)" for a
    using seg_cell[OF u2(1) that] .
  have cell1: "\<exists>c. h1 a = Some c" if "a \<in> set (ts @ [p] @ mid @ m # post)" for a
    using seg_cell[OF u1(1)] that by blast
  have q: "h2 q \<noteq> None \<and> q \<notin> {e, m, mp}" if "nxt md = Some q" for q
  proof -
    have "q \<in> set post" using that md by (cases post) auto
    then show ?thesis using cell[of q] enot d2 by auto
  qed
  have "unlift h2 e = Some (relink h1 e)"
  proof (rule unlift_relink[OF e2 m(2) m2 md(2) _ q])
    show "h2 mp \<noteq> None" using cell[of mp] by auto
    show "mp \<notin> {e, m}" "e \<noteq> m" using enot d2 by auto
    show "relink h2 m = h1" using u2(2) .
    show "h1 e = Some nd" by (rule e1)
    show "prv nd = Some p" by (rule p)
    show "h1 p \<noteq> None" using cell1[of p] by auto
    show "nxt nd = Some n" by (rule n)
    show "h1 n \<noteq> None" using cell1[of n] n by auto
    show "p \<noteq> e" "n \<noteq> e" "p \<noteq> n" using d' n by auto
  qed
  moreover have "lift h e = Some h2"
    unfolding h2_def h1_def by (rule lift_unlink) (use s' d' m in auto)
  moreover have "dll h2 (us @ mid @ post)"
    using u2(1) us' mp by (metis append.assoc)
  moreover have "static h2 = static h" by (simp add: h2_def h1_def)
  ultimately show ?thesis using u1(2) by auto
qed

end
