(* ===== verification/Bitset.thy ===== *)
theory Bitset
  imports Prelude
begin

unbundle bit_operations_syntax

text \<open>
  The bit set of the linearizability checker (\<^verbatim>\<open>courses/dss/linearizability/src/bitset.rs\<close>): a
  vector of 64-bit words in which the checker marks the operations it has linearized. An index
  past the end of the vector panics, which the model returns as \<^const>\<open>None\<close>.
\<close>

subsection \<open>The model\<close>

datatype bitset = Bitset (blocks: "u64 list")

definition new_bitset :: "nat \<Rightarrow> bitset" where
  "new_bitset bits =
     (let extra = (if bits mod 64 \<noteq> 0 then 1 else 0)
      in Bitset (replicate (bits div 64 + extra) 0))"

definition bitset_index :: "nat \<Rightarrow> nat \<times> nat" where
  "bitset_index pos = (pos div 64, pos mod 64)"

definition bitset_set :: "bitset \<Rightarrow> nat \<Rightarrow> bitset option" where
  "bitset_set b pos =
     (let (major, minor) = bitset_index pos
      in if major < length (blocks b)
         then Some (Bitset ((blocks b)[major := (blocks b ! major) OR push_bit minor 1]))
         else None)"

definition bitset_clear :: "bitset \<Rightarrow> nat \<Rightarrow> bitset option" where
  "bitset_clear b pos =
     (let (major, minor) = bitset_index pos
      in if major < length (blocks b)
         then Some (Bitset ((blocks b)[major := (blocks b ! major) AND NOT (push_bit minor 1)]))
         else None)"

definition popcnt_word :: "u64 \<Rightarrow> nat" where
  "popcnt_word b =
     (let v = b;
          v = (v AND 0x5555555555555555) + drop_bit 1 (v AND 0xAAAAAAAAAAAAAAAA);
          v = (v AND 0x3333333333333333) + drop_bit 2 (v AND 0xCCCCCCCCCCCCCCCC);
          v = (v AND 0x0F0F0F0F0F0F0F0F) + drop_bit 4 (v AND 0xF0F0F0F0F0F0F0F0);
          v = v * 0x0101010101010101
      in unat (drop_bit 56 v AND 0xFF))"

definition popcnt :: "bitset \<Rightarrow> nat" where
  "popcnt b = fold (\<lambda>w total. total + popcnt_word w) (blocks b) 0"

definition bitset_hash :: "bitset \<Rightarrow> u64" where
  "bitset_hash b = fold (\<lambda>v hash. hash XOR v) (blocks b) (of_nat (popcnt b))"

definition bitset_equals :: "bitset \<Rightarrow> bitset \<Rightarrow> bool" where
  "bitset_equals b b2 \<longleftrightarrow>
     (if length (blocks b) \<noteq> length (blocks b2) then False
      else list_all (\<lambda>i. blocks b ! i = blocks b2 ! i) [0..<length (blocks b)])"

subsection \<open>What a bit set contains\<close>

definition bitset_elems :: "bitset \<Rightarrow> nat set" where
  "bitset_elems b = {i. i div 64 < length (blocks b) \<and> bit (blocks b ! (i div 64)) (i mod 64)}"

definition bitset_cap :: "bitset \<Rightarrow> nat" where
  "bitset_cap b = 64 * length (blocks b)"

lemma cap_new [simp]: "n \<le> bitset_cap (new_bitset n)"
  by (simp add: bitset_cap_def new_bitset_def Let_def) presburger

lemma elems_new [simp]: "bitset_elems (new_bitset n) = {}"
  by (auto simp: bitset_elems_def new_bitset_def Let_def)

lemma div_mod_64_eq: "i div 64 = j div 64 \<Longrightarrow> i mod 64 = j mod 64 \<Longrightarrow> i = (j::nat)"
  by (metis div_mult_mod_eq)

lemma in_range_iff: "pos div 64 < length (blocks b) \<longleftrightarrow> pos < bitset_cap b"
  by (simp add: bitset_cap_def div_less_iff_less_mult mult.commute)

lemma bitset_set_spec:
  assumes "pos < bitset_cap b"
  shows "\<exists>b'. bitset_set b pos = Some b' \<and> bitset_elems b' = insert pos (bitset_elems b)
              \<and> length (blocks b') = length (blocks b)"
proof -
  have r: "pos div 64 < length (blocks b)" using assms by (simp add: in_range_iff)
  have "bitset_elems (Bitset ((blocks b)[pos div 64 := (blocks b ! (pos div 64)) OR push_bit (pos mod 64) 1]))
        = insert pos (bitset_elems b)"
    using r
    by (auto simp: bitset_elems_def nth_list_update bit_or_iff bit_push_bit_iff bit_1_iff bit_exp_iff possible_bit_word
        dest: div_mod_64_eq split: if_splits)
  with r show ?thesis by (simp add: bitset_set_def bitset_index_def)
qed

lemma bitset_clear_spec:
  assumes "pos < bitset_cap b"
  shows "\<exists>b'. bitset_clear b pos = Some b' \<and> bitset_elems b' = bitset_elems b - {pos}
              \<and> length (blocks b') = length (blocks b)"
proof -
  have r: "pos div 64 < length (blocks b)" using assms by (simp add: in_range_iff)
  have "bitset_elems (Bitset ((blocks b)[pos div 64 := (blocks b ! (pos div 64)) AND NOT (push_bit (pos mod 64) 1)]))
        = bitset_elems b - {pos}"
    using r
    by (auto simp: bitset_elems_def nth_list_update bit_and_iff bit_not_iff bit_push_bit_iff bit_1_iff bit_exp_iff possible_bit_word
        dest: div_mod_64_eq split: if_splits)
  with r show ?thesis by (simp add: bitset_clear_def bitset_index_def)
qed

lemma bitset_equals_iff: "bitset_equals b b2 \<longleftrightarrow> b = b2"
proof
  assume "bitset_equals b b2"
  then have "blocks b = blocks b2"
    by (auto simp: bitset_equals_def list_all_iff intro: nth_equalityI split: if_splits)
  then show "b = b2" by (simp add: bitset.expand)
qed (simp add: bitset_equals_def list_all_iff)

lemma bitset_ext:
  assumes "length (blocks a) = length (blocks b)" and "bitset_elems a = bitset_elems b"
  shows "a = b"
proof -
  have "blocks a = blocks b"
  proof (rule nth_equalityI)
    fix i assume i: "i < length (blocks a)"
    show "blocks a ! i = blocks b ! i"
    proof (rule bit_word_eqI)
      fix n assume n: "n < LENGTH(64)"
      have "bit (blocks a ! i) n \<longleftrightarrow> 64 * i + n \<in> bitset_elems a"
        using i n by (simp add: bitset_elems_def)
      also have "\<dots> \<longleftrightarrow> bit (blocks b ! i) n"
        using i n assms by (simp add: bitset_elems_def)
      finally show "bit (blocks a ! i) n = bit (blocks b ! i) n" .
    qed
  qed (rule assms)
  then show ?thesis by (simp add: bitset.expand)
qed

end
