(* ===== verification/LinCheck.thy ===== *)
theory LinCheck
  imports LinNodes Bitset
begin

text \<open>
  The search of the linearizability checker
  (\<^verbatim>\<open>courses/dss/linearizability/src/lib.rs\<close>: \<^verbatim>\<open>CacheEntry\<close>, \<^verbatim>\<open>cache_contains\<close>, \<^verbatim>\<open>CallsEntry\<close>,
  \<^verbatim>\<open>check_single\<close>). One iteration of the \<^verbatim>\<open>while\<close> loop is the function \<open>check_step\<close>, which either
  returns the verdict or the next loop state; \<open>check_loop\<close> iterates it and \<^const>\<open>None\<close> is a panic or a
  loop that never ends. The flag \<^verbatim>\<open>kill\<close> is shared with other threads, so it is a function from the
  number of the iteration to the value read there.
\<close>

subsection \<open>The model\<close>

type_synonym 's cache = "u64 \<Rightarrow> (bitset \<times> 's) list option"

definition cache_contains :: "('s, 'i, 'o, 'z) model_scheme \<Rightarrow> 's cache \<Rightarrow> bitset \<times> 's \<Rightarrow> bool" where
  "cache_contains M cache entry =
     (case entry of (linearized, st) \<Rightarrow>
        (case cache (bitset_hash linearized) of
           Some elems \<Rightarrow> list_ex (\<lambda>(l, t). bitset_equals linearized l \<and> equal_state M st t) elems
         | None \<Rightarrow> False))"

definition cache_insert :: "'s cache \<Rightarrow> u64 \<Rightarrow> bitset \<times> 's \<Rightarrow> 's cache" where
  "cache_insert cache hash entry =
     cache(hash \<mapsto> (case cache hash of None \<Rightarrow> [] | Some elems \<Rightarrow> elems) @ [entry])"

record ('s, 'i, 'o) search =
  s_heap :: "('i, 'o) val heap"
  s_linearized :: bitset
  s_cache :: "'s cache"
  s_calls :: "(addr option \<times> 's) list"
  s_state :: 's
  s_entry :: "addr option"
  s_iter :: nat

definition check_step ::
  "('s, 'i, 'o, 'z) model_scheme \<Rightarrow> (nat \<Rightarrow> bool) \<Rightarrow> addr \<Rightarrow> ('s, 'i, 'o) search
    \<Rightarrow> (bool + ('s, 'i, 'o) search) option" where
  "check_step M kill head_entry \<sigma> = do {
     hd_nd \<leftarrow> s_heap \<sigma> head_entry;
     if nxt hd_nd = None then Some (Inl True)
     else if kill (s_iter \<sigma>) then Some (Inl False)
     else do {
       e \<leftarrow> s_entry \<sigma>;
       nd \<leftarrow> s_heap \<sigma> e;
       (case matched nd of
          Some matching \<Rightarrow> do {
            i \<leftarrow> val_input (nvalue nd);
            md \<leftarrow> s_heap \<sigma> matching;
            out \<leftarrow> val_output (nvalue md);
            (case step M (s_state \<sigma>) i out of
               (True, new_state) \<Rightarrow> do {
                 new_linearized \<leftarrow> bitset_set (s_linearized \<sigma>) (nid nd);
                 if \<not> cache_contains M (s_cache \<sigma>) (new_linearized, new_state) then do {
                   linearized \<leftarrow> bitset_set (s_linearized \<sigma>) (nid nd);
                   h \<leftarrow> lift (s_heap \<sigma>) e;
                   hd_nd \<leftarrow> h head_entry;
                   Some (Inr \<lparr>s_heap = h, s_linearized = linearized,
                     s_cache = cache_insert (s_cache \<sigma>) (bitset_hash new_linearized)
                                 (new_linearized, new_state),
                     s_calls = (Some e, s_state \<sigma>) # s_calls \<sigma>,
                     s_state = new_state, s_entry = nxt hd_nd, s_iter = Suc (s_iter \<sigma>)\<rparr>)
                 } else Some (Inr (\<sigma>\<lparr>s_entry := nxt nd, s_iter := Suc (s_iter \<sigma>)\<rparr>))
               }
             | (False, _) \<Rightarrow> Some (Inr (\<sigma>\<lparr>s_entry := nxt nd, s_iter := Suc (s_iter \<sigma>)\<rparr>)))
          }
        | None \<Rightarrow>
            (case s_calls \<sigma> of
               [] \<Rightarrow> Some (Inl False)
             | (top_entry, top_state) # rest \<Rightarrow> do {
                 e \<leftarrow> top_entry;
                 nd \<leftarrow> s_heap \<sigma> e;
                 linearized \<leftarrow> bitset_clear (s_linearized \<sigma>) (nid nd);
                 h \<leftarrow> unlift (s_heap \<sigma>) e;
                 nd \<leftarrow> h e;
                 Some (Inr (\<sigma>\<lparr>s_heap := h, s_linearized := linearized, s_calls := rest,
                   s_state := top_state, s_entry := nxt nd, s_iter := Suc (s_iter \<sigma>)\<rparr>))
               }))
     }
   }"

partial_function (option) check_loop ::
  "('s, 'i, 'o, 'z) model_scheme \<Rightarrow> (nat \<Rightarrow> bool) \<Rightarrow> addr \<Rightarrow> ('s, 'i, 'o) search \<Rightarrow> bool option" where
  "check_loop M kill head_entry \<sigma> =
     (case check_step M kill head_entry \<sigma> of
        None \<Rightarrow> None
      | Some r \<Rightarrow> (case r of Inl verdict \<Rightarrow> Some verdict | Inr \<sigma>' \<Rightarrow> check_loop M kill head_entry \<sigma>'))"

declare check_loop.simps [code]

definition check_single ::
  "('s, 'i, 'o, 'z) model_scheme \<Rightarrow> ('i, 'o) val linked_nodes \<Rightarrow> (nat \<Rightarrow> bool) \<Rightarrow> bool option" where
  "check_single M subhistory kill = do {
     len \<leftarrow> nodes_len subhistory;
     let n = len div 2;
     let (head_entry, nodes1) = rc_new \<lparr>nvalue = NoVal, matched = None, nid = 2 ^ 64 - 1,
                                         nxt = None, prv = None\<rparr> subhistory;
     nodes2 \<leftarrow> push_front nodes1 head_entry;
     hd_nd \<leftarrow> cells nodes2 head_entry;
     check_loop M kill head_entry
       \<lparr>s_heap = cells nodes2, s_linearized = new_bitset n, s_cache = (\<lambda>_. None), s_calls = [],
        s_state = init_state M, s_entry = nxt hd_nd, s_iter = 0\<rparr>
   }"

end
