(* ===== verification/LinCorrect.thy ===== *)
theory LinCorrect
  imports LinCheck
begin

text \<open>
  Correctness of the search of \<open>check_single\<close>. The loop explores configurations (a set of
  operations taken out of the list and a state of the object). \<open>stack\<close> describes the
  stack \<^verbatim>\<open>calls\<close>: the heap is the initial one with the operations of the stack lifted out in order,
  and everything before the position of each frame has failed. \<open>search_inv\<close> adds the cache: a cached
  configuration is on the stack or cannot be completed.
\<close>

subsection \<open>Nodes that carry a history\<close>

definition node_hist ::
  "('i, 'o) val heap \<Rightarrow> addr list \<Rightarrow> (addr \<Rightarrow> hev) \<Rightarrow> (nat \<Rightarrow> 'i) \<Rightarrow> (nat \<Rightarrow> 'o) \<Rightarrow> bool" where
  "node_hist h A ev inp outp \<longleftrightarrow> distinct A \<and> whist (map ev A) \<and>
     (\<forall>a\<in>set A. case ev a of
        Inv i \<Rightarrow> (\<exists>m\<in>set A. ev m = Rsp i \<and> static h a = Some (Input (inp i), Some m, i))
      | Rsp i \<Rightarrow> static h a = Some (Output (outp i), None, i))"

definition live :: "addr list \<Rightarrow> (addr \<Rightarrow> hev) \<Rightarrow> nat list \<Rightarrow> addr list" where
  "live A ev xs = filter (\<lambda>a. hid (ev a) \<notin> set xs) A"

lemma map_live: "map ev (live A ev xs) = without (set xs) (map ev A)"
  by (simp add: live_def without_def filter_map o_def)

lemma live_Nil [simp]: "live A ev [] = A"
  by (simp add: live_def)

lemma live_snoc: "live A ev (xs @ [i]) = filter (\<lambda>a. hid (ev a) \<noteq> i) (live A ev xs)"
  by (auto simp: live_def intro: filter_cong)

definition fails :: "('s \<Rightarrow> nat \<Rightarrow> bool \<times> 's) \<Rightarrow> hev list \<Rightarrow> nat set \<Rightarrow> 's \<Rightarrow> nat \<Rightarrow> bool" where
  "fails stp H B s i \<longleftrightarrow> (case stp s i of (ok, s') \<Rightarrow> ok \<longrightarrow> \<not> linearizable stp s' (without (insert i B) H))"

inductive stack ::
  "('s \<Rightarrow> nat \<Rightarrow> bool \<times> 's) \<Rightarrow> 's \<Rightarrow> 'v heap \<Rightarrow> addr list \<Rightarrow> (addr \<Rightarrow> hev) \<Rightarrow>
   (addr option \<times> 's) list \<Rightarrow> 'v heap \<Rightarrow> nat list \<Rightarrow> 's \<Rightarrow> (nat set \<times> 's) set \<Rightarrow> nat \<Rightarrow> bool"
  for stp s0 h0 A ev where
  bottom: "stack stp s0 h0 A ev [] h0 [] s0 {} 0"
| frame: "stack stp s0 h0 A ev rest h1 xs s1 P m \<Longrightarrow> live A ev xs = pre @ e # post \<Longrightarrow> ev e = Inv i \<Longrightarrow>
    \<forall>c\<in>set pre. is_inv (ev c) \<and> fails stp (map ev A) (set xs) s1 (hid (ev c)) \<Longrightarrow>
    stp s1 i = (True, s) \<Longrightarrow> lift h1 e = Some h \<Longrightarrow>
    stack stp s0 h0 A ev ((Some e, s1) # rest) h (xs @ [i]) s (insert (insert i (set xs), s) P)
      (m + length post)"

inductive_cases stack_NilE: "stack stp s0 h0 A ev [] h xs s P m"

lemma stack_ConsE:
  assumes "stack stp s0 h0 A ev ((ce, t) # rest) h xs s P m"
  obtains e i ys pre post h1 P1 m1 where
    "stack stp s0 h0 A ev rest h1 ys t P1 m1" "live A ev ys = pre @ e # post" "ev e = Inv i"
    "\<forall>c\<in>set pre. is_inv (ev c) \<and> fails stp (map ev A) (set ys) t (hid (ev c))"
    "stp t i = (True, s)" "lift h1 e = Some h" "ce = Some e" "xs = ys @ [i]"
    "P = insert (insert i (set ys), s) P1" "m = m1 + length post"
  using assms by cases auto

lemma node_hist_distinct: "node_hist h A ev inp outp \<Longrightarrow> distinct A"
  by (simp add: node_hist_def)

lemma node_hist_call:
  "node_hist h A ev inp outp \<Longrightarrow> a \<in> set A \<Longrightarrow> ev a = Inv i \<Longrightarrow>
     \<exists>m\<in>set A. ev m = Rsp i \<and> static h a = Some (Input (inp i), Some m, i)"
  unfolding node_hist_def by (auto dest: bspec[of _ _ a])

lemma node_hist_ret:
  "node_hist h A ev inp outp \<Longrightarrow> a \<in> set A \<Longrightarrow> ev a = Rsp i \<Longrightarrow> static h a = Some (Output (outp i), None, i)"
  unfolding node_hist_def by (auto dest: bspec[of _ _ a])

lemma live_split:
  assumes nh: "node_hist h A ev inp outp" and l: "live A ev xs = pre @ e # post" and e: "ev e = Inv i"
  shows "\<exists>m mid post'. post = mid @ m # post' \<and> ev m = Rsp i \<and> static h e = Some (Input (inp i), Some m, i)
           \<and> live A ev (xs @ [i]) = pre @ mid @ post'"
proof -
  have d: "distinct (map ev A)" and w: "whist (map ev A)"
    using nh by (auto simp: node_hist_def dest: whist_distinct)
  have inj: "inj_on ev (set A)" using d by (simp add: distinct_map)
  have eA: "e \<in> set (live A ev xs)" using l by simp
  then have eA': "e \<in> set A" "i \<notin> set xs" using e by (auto simp: live_def)
  then obtain m where m: "m \<in> set A" "ev m = Rsp i" "static h e = Some (Input (inp i), Some m, i)"
    using node_hist_call[OF nh _ e] by blast
  have mL: "m \<in> set (live A ev xs)" using m eA' by (simp add: live_def)
  have wl: "whist (map ev (live A ev xs))" using w by (simp add: map_live whist_without)
  then have "whist (map ev pre @ Inv i # map ev post)" using l e by simp
  then have b: "before (Inv i) (Rsp i) (map ev pre @ Inv i # map ev post)" by (rule whist_inv) simp
  have "distinct (map ev pre @ Inv i # map ev post)" using whist_distinct[OF wl] l e by simp
  then have "Rsp i \<in> set (map ev post)" using b by (auto dest: before_mem)
  then obtain m' where m': "m' \<in> set post" "ev m' = Rsp i" by auto
  have "m' \<in> set (live A ev xs)" using l m' by simp
  then have "m' \<in> set A" by (simp add: live_def)
  then have "m' = m" using inj m m' by (simp add: inj_on_def)
  then obtain mid post' where post: "post = mid @ m # post'" using m' by (meson split_list)
  have dl: "distinct (live A ev xs)" using nh by (simp add: live_def node_hist_distinct)
  have other: "hid (ev a) \<noteq> i" if "a \<in> set (pre @ mid @ post')" for a
  proof
    assume "hid (ev a) = i"
    then have "ev a = Inv i \<or> ev a = Rsp i" by (cases "ev a") auto
    then have "ev a = ev e \<or> ev a = ev m" using e m by simp
    moreover have "a \<in> set (live A ev xs)" using that l post by auto
    then have "a \<in> set A" by (simp add: live_def)
    ultimately have "a = e \<or> a = m" using inj eA' m by (auto simp: inj_on_def)
    then show False using that dl l post by auto
  qed
  have "live A ev (xs @ [i]) = filter (\<lambda>a. hid (ev a) \<noteq> i) (pre @ e # mid @ m # post')"
    using l post by (simp add: live_snoc)
  also have "\<dots> = pre @ mid @ post'"
    using other e m by (auto simp: filter_id_conv)
  finally show ?thesis using post m by blast
qed

lemma static_Some: "static h a = Some (v, m, i) \<longleftrightarrow> (\<exists>nd. h a = Some nd \<and> nvalue nd = v \<and> matched nd = m \<and> nid nd = i)"
  by (auto simp: static_def)

lemma lift_live:
  assumes nh: "node_hist h0 A ev inp outp" and hn: "hn \<notin> set A"
    and dl: "dll h (hn # live A ev xs)" and st: "static h = static h0"
    and l: "live A ev xs = pre @ e # post" and e: "ev e = Inv i"
  shows "\<exists>h'. lift h e = Some h' \<and> dll h' (hn # live A ev (xs @ [i])) \<and> unlift h' e = Some h
              \<and> static h' = static h0"
proof -
  obtain m mid post' where p: "post = mid @ m # post'"
    "static h0 e = Some (Input (inp i), Some m, i)" "live A ev (xs @ [i]) = pre @ mid @ post'"
    using live_split[OF nh l e] by blast
  obtain nd where nd: "h e = Some nd" "matched nd = Some m" using p(2) st static_Some by metis
  have "distinct (hn # live A ev xs)" using nh hn by (simp add: live_def node_hist_distinct)
  then have "distinct ((hn # pre) @ e # mid @ m # post')" using l p by simp
  moreover have "dll h ((hn # pre) @ e # mid @ m # post')" using dl l p by simp
  ultimately obtain h' where "lift h e = Some h'" "dll h' ((hn # pre) @ mid @ post')"
    "unlift h' e = Some h" "static h' = static h"
    using lift_spec[of h "hn # pre" e mid m post' nd] nd by blast
  then show ?thesis using p(3) st by auto
qed

lemma stack_facts:
  assumes nh: "node_hist h0 A ev inp outp" and hn: "hn \<notin> set A" and d0: "dll h0 (hn # A)"
    and s: "stack stp s0 h0 A ev calls h xs s P m"
  shows "distinct xs \<and> set xs \<subseteq> ops_of (map ev A) \<and> s = run_ops stp s0 xs \<and>
    dll h (hn # live A ev xs) \<and> static h = static h0 \<and>
    (\<forall>(B, t)\<in>P. finite B \<and> card B \<le> length xs) \<and>
    (linearizable stp s (without (set xs) (map ev A)) \<longrightarrow> linearizable stp s0 (map ev A))"
  using s
proof induction
  case bottom
  then show ?case using d0 by simp
next
  case (frame rest h1 xs s1 P m pre e post i s h)
  let ?H = "map ev A"
  have w: "whist ?H" using nh by (simp add: node_hist_def)
  have "e \<in> set (live A ev xs)" using frame.hyps(2) by simp
  then have i: "i \<notin> set xs" "i \<in> ops_of ?H"
    using frame.hyps(3) by (auto simp: live_def ops_of_def intro: rev_image_eqI)
  obtain h' where h': "lift h1 e = Some h'" "dll h' (hn # live A ev (xs @ [i]))" "static h' = static h0"
    using lift_live[OF nh hn _ _ frame.hyps(2,3)] frame.IH by blast
  have run: "run_ops stp s0 (xs @ [i]) = s"
  proof -
    have "run_ops stp t (ys @ [i]) = snd (stp (run_ops stp t ys) i)" for t ys
      by (induction ys arbitrary: t) auto
    then show ?thesis using frame.IH frame.hyps(5) by simp
  qed
  have lin: "linearizable stp s0 ?H" if l: "linearizable stp s (without (set (xs @ [i])) ?H)"
  proof -
    have eq: "without (set xs) ?H = map ev pre @ Inv i # map ev post"
      using frame.hyps(2,3) map_live[of ev A xs] by simp
    have l': "linearizable stp s (without {i} (without (set xs) ?H))" using l by simp
    have inv: "\<forall>x\<in>set (map ev pre). is_inv x" using frame.hyps(4) by simp
    have "linearizable stp s1 (without (set xs) ?H)"
      by (rule lin_stepI[OF whist_without[OF w] eq inv frame.hyps(5) l'])
    then show ?thesis using frame.IH by blast
  qed
  have "\<forall>(B, t)\<in>insert (insert i (set xs), s) P. finite B \<and> card B \<le> length (xs @ [i])"
    using frame.IH i by (auto simp: card_insert_if card_length intro: le_SucI)
  then show ?case using frame i h' run lin by auto
qed

subsection \<open>The invariant of the loop\<close>

definition configs_of :: "('s \<Rightarrow> nat \<Rightarrow> bool \<times> 's) \<Rightarrow> 's \<Rightarrow> hev list \<Rightarrow> (nat set \<times> 's) set" where
  "configs_of stp s0 H = (\<lambda>xs. (set xs, run_ops stp s0 xs)) ` {xs. distinct xs \<and> set xs \<subseteq> ops_of H}"

definition cached :: "'s cache \<Rightarrow> (bitset \<times> 's) set" where
  "cached c = {(b, t). \<exists>l. c (bitset_hash b) = Some l \<and> (b, t) \<in> set l}"

definition cache_ok ::
  "('s \<Rightarrow> nat \<Rightarrow> bool \<times> 's) \<Rightarrow> 's \<Rightarrow> hev list \<Rightarrow> nat \<Rightarrow> (nat set \<times> 's) set \<Rightarrow> 's cache \<Rightarrow> bool" where
  "cache_ok stp s0 H len P c \<longleftrightarrow>
     (\<forall>(b, t)\<in>cached c. length (blocks b) = len \<and> (bitset_elems b, t) \<in> configs_of stp s0 H \<and>
        ((bitset_elems b, t) \<in> P \<or> \<not> linearizable stp t (without (bitset_elems b) H)))"

definition seen :: "'s cache \<Rightarrow> (nat set \<times> 's) set" where
  "seen c = (\<lambda>(b, t). (bitset_elems b, t)) ` cached c"

definition search_inv ::
  "('s \<Rightarrow> nat \<Rightarrow> bool \<times> 's) \<Rightarrow> 's \<Rightarrow> ('i, 'o) val heap \<Rightarrow> addr list \<Rightarrow> (addr \<Rightarrow> hev) \<Rightarrow> nat \<Rightarrow>
   ('s, 'i, 'o) search \<Rightarrow> nat list \<Rightarrow> (nat set \<times> 's) set \<Rightarrow> nat \<Rightarrow> addr list \<Rightarrow> addr list \<Rightarrow> bool" where
  "search_inv stp s0 h0 A ev len \<sigma> xs P m pre post \<longleftrightarrow>
     stack stp s0 h0 A ev (s_calls \<sigma>) (s_heap \<sigma>) xs (s_state \<sigma>) P m \<and>
     bitset_elems (s_linearized \<sigma>) = set xs \<and> length (blocks (s_linearized \<sigma>)) = len \<and>
     live A ev xs = pre @ post \<and> s_entry \<sigma> = hdo post None \<and>
     (\<forall>c\<in>set pre. is_inv (ev c) \<and> fails stp (map ev A) (set xs) (s_state \<sigma>) (hid (ev c))) \<and>
     cache_ok stp s0 (map ev A) len P (s_cache \<sigma>)"

lemma finite_configs: "finite (configs_of stp s0 H)"
proof -
  have "finite (ops_of H)"
    by (rule finite_subset[of _ "hid ` set H"]) (force simp: ops_of_def)+
  then have "finite {xs. set xs \<subseteq> ops_of H \<and> length xs \<le> card (ops_of H)}" by (rule finite_lists_length_le)
  moreover have "{xs. distinct xs \<and> set xs \<subseteq> ops_of H} \<subseteq> {xs. set xs \<subseteq> ops_of H \<and> length xs \<le> card (ops_of H)}"
    using \<open>finite (ops_of H)\<close> by (auto intro: card_mono simp: distinct_card[symmetric])
  ultimately have "finite {xs. distinct xs \<and> set xs \<subseteq> ops_of H}" by (rule finite_subset[rotated])
  then show ?thesis by (simp add: configs_of_def)
qed

lemma cached_insert:
  "cached (cache_insert c (bitset_hash b) (b, t)) = insert (b, t) (cached c)"
  by (auto simp: cached_def cache_insert_def split: option.splits if_splits)

lemma seen_insert: "seen (cache_insert c (bitset_hash b) (b, t)) = insert (bitset_elems b, t) (seen c)"
  by (simp add: seen_def cached_insert)

lemma not_lin_at_response:
  assumes w: "whist (map ev (pre @ a # post))" and a: "ev a = Rsp j"
    and f: "\<forall>c\<in>set pre. is_inv (ev c) \<and> fails stp H B s (hid (ev c))"
    and H: "map ev (pre @ a # post) = without B H"
  shows "\<not> linearizable stp s (without B H)"
proof
  assume l: "linearizable stp s (without B H)"
  have w': "whist (without B H)" using w unfolding H .
  have "without B H \<noteq> []" unfolding H[symmetric] by simp
  from lin_stepE[OF w' l this] obtain pre' i post' s' where
    s: "without B H = pre' @ Inv i # post'" "\<forall>x\<in>set pre'. is_inv x" "stp s i = (True, s')"
       "linearizable stp s' (without {i} (without B H))" by blast
  have eq: "map ev pre @ Rsp j # map ev post = pre' @ Inv i # post'" using H a s(1) by simp
  have "Inv i \<in> set (map ev pre)"
  proof (rule ccontr)
    assume n: "Inv i \<notin> set (map ev pre)"
    have "length (map ev pre) < length pre'"
    proof (rule ccontr)
      assume "\<not> length (map ev pre) < length pre'"
      then have "(pre' @ Inv i # post') ! length pre' = (map ev pre @ Rsp j # map ev post) ! length pre'"
        using eq by simp
      then have "Inv i = (map ev pre @ Rsp j # map ev post) ! length pre'" by simp
      then show False using n \<open>\<not> length (map ev pre) < length pre'\<close>
        by (cases "length pre' = length pre") (auto simp: nth_append split: if_splits)
    qed
    then have "pre' ! length (map ev pre) = Rsp j"
      using eq by (metis nth_append nth_append_length)
    then have "Rsp j \<in> set pre'" using \<open>length (map ev pre) < length pre'\<close> by (metis nth_mem)
    then show False using s(2) by auto
  qed
  then obtain c where "c \<in> set pre" "ev c = Inv i" by auto
  then have "fails stp H B s i" using f by force
  then show False using s(3,4) by (simp add: fails_def)
qed

lemma live_invs_only:
  assumes "node_hist h A ev inp outp" and "\<forall>c\<in>set (live A ev xs). is_inv (ev c)"
  shows "live A ev xs = []"
proof (rule ccontr)
  assume "live A ev xs \<noteq> []"
  then obtain e es where l: "live A ev xs = [] @ e # es" by (cases "live A ev xs") auto
  then obtain i where "ev e = Inv i" using assms(2) by (cases "ev e") auto
  from live_split[OF assms(1) l this] obtain m mid post' where "es = mid @ m # post'" "ev m = Rsp i" by blast
  then have "m \<in> set (live A ev xs)" "ev m = Rsp i" using l by auto
  then show False using assms(2) by fastforce
qed

definition loop_measure ::
  "('s \<Rightarrow> nat \<Rightarrow> bool \<times> 's) \<Rightarrow> 's \<Rightarrow> hev list \<Rightarrow> ('s, 'i, 'o) search \<Rightarrow> nat \<Rightarrow> addr list \<Rightarrow> nat \<times> nat" where
  "loop_measure stp s0 H \<sigma> m post = (card (configs_of stp s0 H - seen (s_cache \<sigma>)), m + length post)"

text \<open>The facts every iteration starts from, bundled once.\<close>

definition space ::
  "('s \<Rightarrow> nat \<Rightarrow> bool \<times> 's) \<Rightarrow> ('i, 'o) val heap \<Rightarrow> addr \<Rightarrow> addr list \<Rightarrow> (addr \<Rightarrow> hev) \<Rightarrow>
    ('s, 'i, 'o, 'z) model_scheme \<Rightarrow> nat \<Rightarrow> bool" where
  "space stp h0 hn A ev M len \<longleftrightarrow>
     (\<exists>inp outp. node_hist h0 A ev inp outp \<and> stp = model_step M inp outp) \<and> hn \<notin> set A \<and>
     dll h0 (hn # A) \<and> (\<forall>i\<in>ops_of (map ev A). i < 64 * len)"

lemma advance_inv:
  assumes I: "search_inv stp s0 h0 A ev len \<sigma> xs P m pre (a # post)"
    and a: "ev a = Inv i" and f: "fails stp (map ev A) (set xs) (s_state \<sigma>) i"
  shows "search_inv stp s0 h0 A ev len (\<sigma>\<lparr>s_entry := hdo post None, s_iter := k\<rparr>) xs P m (pre @ [a]) post"
    and "(loop_measure stp s0 H (\<sigma>\<lparr>s_entry := hdo post None, s_iter := k\<rparr>) m post,
          loop_measure stp s0 H \<sigma> m (a # post)) \<in> less_than <*lex*> less_than"
  using assms by (auto simp: search_inv_def loop_measure_def)

lemma entry_cell:
  assumes sp: "space stp h0 hn A ev M len" and I: "search_inv stp s0 h0 A ev len \<sigma> xs P m pre (a # post)"
  obtains nd where "s_heap \<sigma> a = Some nd" "nxt nd = hdo post None" "static h0 a = Some (nvalue nd, matched nd, nid nd)"
    and "a \<in> set A"
proof -
  obtain inp outp where nh: "node_hist h0 A ev inp outp" and hn: "hn \<notin> set A" "dll h0 (hn # A)"
    using sp by (auto simp: space_def)
  have st: "stack stp s0 h0 A ev (s_calls \<sigma>) (s_heap \<sigma>) xs (s_state \<sigma>) P m" and l: "live A ev xs = pre @ a # post"
    using I by (auto simp: search_inv_def)
  from stack_facts[OF nh hn st] have "dll (s_heap \<sigma>) (hn # pre @ a # post)" and s: "static (s_heap \<sigma>) = static h0"
    using l by auto
  then obtain nd where "s_heap \<sigma> a = Some nd" "nxt nd = hdo post None" by auto
  moreover have "a \<in> set (live A ev xs)" using l by simp
  then have "a \<in> set A" by (simp add: live_def)
  ultimately show thesis using that s by (metis static_Some)
qed

context state_equality
begin

lemma cache_contains_iff: "cache_contains M c (b, t) \<longleftrightarrow> (b, t) \<in> cached c"
  by (force simp: cache_contains_def cached_def list_ex_iff bitset_equals_iff equal_state_iff
      split: option.splits)

lemma cached_fails:
  assumes sp: "space stp h0 hn A ev M len" and I: "search_inv stp s0 h0 A ev len \<sigma> xs P m pre (a # post)"
    and a: "ev a = Inv i" and st: "stp (s_state \<sigma>) i = (True, s')"
    and b: "bitset_elems b = insert i (set xs)" and c: "(b, s') \<in> cached (s_cache \<sigma>)"
  shows "fails stp (map ev A) (set xs) (s_state \<sigma>) i"
proof -
  obtain inp outp where nh: "node_hist h0 A ev inp outp" and hn: "hn \<notin> set A" "dll h0 (hn # A)"
    using sp by (auto simp: space_def)
  have S: "stack stp s0 h0 A ev (s_calls \<sigma>) (s_heap \<sigma>) xs (s_state \<sigma>) P m" and l: "live A ev xs = pre @ a # post"
    and ok: "cache_ok stp s0 (map ev A) len P (s_cache \<sigma>)"
    using I by (auto simp: search_inv_def)
  note F = stack_facts[OF nh hn S]
  have "a \<in> set (live A ev xs)" using l by simp
  then have "i \<notin> set xs" using a by (simp add: live_def)
  then have "card (insert i (set xs)) = Suc (length xs)" using F by (simp add: distinct_card)
  then have "(insert i (set xs), s') \<notin> P" using F by fastforce
  then have "\<not> linearizable stp s' (without (insert i (set xs)) (map ev A))"
    using ok c b unfolding cache_ok_def by fastforce
  then show ?thesis using st by (simp add: fails_def)
qed

lemma push_inv:
  assumes sp: "space stp h0 hn A ev M len" and I: "search_inv stp s0 h0 A ev len \<sigma> xs P m pre (a # post)"
    and a: "ev a = Inv i" and st: "stp (s_state \<sigma>) i = (True, s')"
    and b: "bitset_elems b = insert i (set xs)" "length (blocks b) = len"
    and c: "(b, s') \<notin> cached (s_cache \<sigma>)" and lf: "lift (s_heap \<sigma>) a = Some h"
    and \<sigma>': "\<sigma>' = \<lparr>s_heap = h, s_linearized = b,
               s_cache = cache_insert (s_cache \<sigma>) (bitset_hash b) (b, s'),
               s_calls = (Some a, s_state \<sigma>) # s_calls \<sigma>, s_state = s',
               s_entry = hdo (live A ev (xs @ [i])) None, s_iter = k\<rparr>"
  shows "\<exists>P'. search_inv stp s0 h0 A ev len \<sigma>' (xs @ [i]) P' (m + length post) [] (live A ev (xs @ [i]))"
    and "(loop_measure stp s0 (map ev A) \<sigma>' m' post', loop_measure stp s0 (map ev A) \<sigma> m (a # post))
           \<in> less_than <*lex*> less_than"
proof -
  let ?H = "map ev A" and ?P' = "insert (insert i (set xs), s') P"
  obtain inp outp where nh: "node_hist h0 A ev inp outp" and hn: "hn \<notin> set A" "dll h0 (hn # A)"
    using sp by (auto simp: space_def)
  have S: "stack stp s0 h0 A ev (s_calls \<sigma>) (s_heap \<sigma>) xs (s_state \<sigma>) P m" and l: "live A ev xs = pre @ a # post"
    and ok: "cache_ok stp s0 ?H len P (s_cache \<sigma>)"
    and f: "\<forall>c\<in>set pre. is_inv (ev c) \<and> fails stp ?H (set xs) (s_state \<sigma>) (hid (ev c))"
    using I by (auto simp: search_inv_def)
  have S': "stack stp s0 h0 A ev ((Some a, s_state \<sigma>) # s_calls \<sigma>) h (xs @ [i]) s' ?P' (m + length post)"
    by (rule stack.frame[OF S l a f st lf])
  note F = stack_facts[OF nh hn S']
  have conf: "(bitset_elems b, s') \<in> configs_of stp s0 ?H"
    using F b unfolding configs_of_def by (auto intro!: image_eqI[of _ _ "xs @ [i]"])
  then have "cache_ok stp s0 ?H len ?P' (s_cache \<sigma>')"
    using ok b unfolding cache_ok_def \<sigma>' by (auto simp: cached_insert)
  then have "search_inv stp s0 h0 A ev len \<sigma>' (xs @ [i]) ?P' (m + length post) [] (live A ev (xs @ [i]))"
    using S' b unfolding search_inv_def \<sigma>' by simp
  then show "\<exists>P'. search_inv stp s0 h0 A ev len \<sigma>' (xs @ [i]) P' (m + length post) [] (live A ev (xs @ [i]))" ..
  have "(bitset_elems b, s') \<notin> seen (s_cache \<sigma>)"
  proof
    assume "(bitset_elems b, s') \<in> seen (s_cache \<sigma>)"
    then obtain b' where b': "(b', s') \<in> cached (s_cache \<sigma>)" "bitset_elems b' = bitset_elems b"
      by (auto simp: seen_def)
    then have "length (blocks b') = length (blocks b)" using ok b by (fastforce simp: cache_ok_def)
    then have "b' = b" using b'(2) by (rule bitset_ext)
    then show False using b' c by simp
  qed
  then have "card (configs_of stp s0 ?H - seen (s_cache \<sigma>')) < card (configs_of stp s0 ?H - seen (s_cache \<sigma>))"
    using conf finite_configs[of stp s0 ?H] unfolding \<sigma>'
    by (intro psubset_card_mono) (auto simp: seen_insert)
  then show "(loop_measure stp s0 ?H \<sigma>' m' post', loop_measure stp s0 ?H \<sigma> m (a # post))
               \<in> less_than <*lex*> less_than"
    by (simp add: loop_measure_def)
qed

lemma response_fails:
  assumes sp: "space stp h0 hn A ev M len" and I: "search_inv stp s0 h0 A ev len \<sigma> xs P m pre (a # post)"
    and a: "ev a = Rsp j"
  shows "\<not> linearizable stp (s_state \<sigma>) (without (set xs) (map ev A))"
proof (rule not_lin_at_response[where a = a and ev = ev and j = j])
  show "ev a = Rsp j" by (rule a)
  obtain inp outp where nh: "node_hist h0 A ev inp outp" using sp by (auto simp: space_def)
  have l: "live A ev xs = pre @ a # post" using I by (simp add: search_inv_def)
  show H: "map ev (pre @ a # post) = without (set xs) (map ev A)" using map_live[of ev A xs] l by simp
  show "whist (map ev (pre @ a # post))" unfolding H
    using nh by (simp add: node_hist_def whist_without)
  show "\<forall>c\<in>set pre. is_inv (ev c) \<and> fails stp (map ev A) (set xs) (s_state \<sigma>) (hid (ev c))"
    using I by (simp add: search_inv_def)
qed

lemma pop_inv:
  assumes sp: "space stp h0 hn A ev M len" and I: "search_inv stp s0 h0 A ev len \<sigma> xs P m pre (a # post)"
    and a: "ev a = Rsp j" and c: "s_calls \<sigma> = (ce, t) # rest"
  obtains e i ys pre1 post1 h1 P1 m1 ed ed1 where
    "ce = Some e" "xs = ys @ [i]" "i \<notin> set ys" "i \<in> ops_of (map ev A)" "unlift (s_heap \<sigma>) e = Some h1"
    "s_heap \<sigma> e = Some ed" "nid ed = i" "h1 e = Some ed1" "nxt ed1 = hdo post1 None"
    "\<And>b. bitset_elems b = set ys \<Longrightarrow> length (blocks b) = len \<Longrightarrow>
       search_inv stp s0 h0 A ev len (\<sigma>\<lparr>s_heap := h1, s_linearized := b, s_calls := rest, s_state := t,
                 s_entry := hdo post1 None, s_iter := k\<rparr>) ys P1 m1 (pre1 @ [e]) post1"
    "\<And>b. (loop_measure stp s0 (map ev A) (\<sigma>\<lparr>s_heap := h1, s_linearized := b, s_calls := rest, s_state := t,
                 s_entry := hdo post1 None, s_iter := k\<rparr>) m1 post1,
           loop_measure stp s0 (map ev A) \<sigma> m (a # post)) \<in> less_than <*lex*> less_than"
proof -
  let ?H = "map ev A"
  obtain inp outp where nh: "node_hist h0 A ev inp outp" and hn: "hn \<notin> set A" "dll h0 (hn # A)"
    using sp by (auto simp: space_def)
  have S: "stack stp s0 h0 A ev ((ce, t) # rest) (s_heap \<sigma>) xs (s_state \<sigma>) P m"
    and ok: "cache_ok stp s0 ?H len P (s_cache \<sigma>)"
    using I c by (auto simp: search_inv_def)
  note nl = response_fails[OF sp I a]
  from S obtain e i ys pre1 post1 h1 P1 m1 where 1:
    "stack stp s0 h0 A ev rest h1 ys t P1 m1" "live A ev ys = pre1 @ e # post1" "ev e = Inv i"
    "\<forall>c\<in>set pre1. is_inv (ev c) \<and> fails stp (map ev A) (set ys) t (hid (ev c))"
    "stp t i = (True, s_state \<sigma>)" "lift h1 e = Some (s_heap \<sigma>)" "ce = Some e" "xs = ys @ [i]"
    "P = insert (insert i (set ys), s_state \<sigma>) P1" "m = m1 + length post1"
    by (rule stack_ConsE)
    note F1 = stack_facts[OF nh hn 1(1)] and F = stack_facts[OF nh hn S]
    obtain h' where h': "lift h1 e = Some h'" "unlift h' e = Some h1"
      using lift_live[OF nh hn(1) _ _ 1(2,3)] F1 by blast
    have ul: "unlift (s_heap \<sigma>) e = Some h1" using h' 1(6) by simp
    have "e \<in> set (live A ev ys)" using 1(2) by simp
    then have e: "e \<in> set A" "i \<notin> set ys" using 1(3) by (auto simp: live_def)
    then have iop: "i \<in> ops_of ?H" using 1(3) by (force simp: ops_of_def)
    obtain mm where "static h0 e = Some (Input (inp i), Some mm, i)"
      using node_hist_call[OF nh e(1) 1(3)] by blast
    then have "static (s_heap \<sigma>) e = Some (Input (inp i), Some mm, i)" using F by simp
    then obtain ed where cell: "s_heap \<sigma> e = Some ed" "nid ed = i" by (auto simp: static_Some)
    have "dll h1 (hn # pre1 @ e # post1)" using F1 1(2) by simp
    then obtain ed1 where cell1: "h1 e = Some ed1" "nxt ed1 = hdo post1 None" by auto
    have fl: "fails stp ?H (set ys) t i"
      using nl 1(5,8) by (simp add: fails_def)
    have ok1: "cache_ok stp s0 ?H len P1 (s_cache \<sigma>)"
      using ok nl 1(8,9) unfolding cache_ok_def by auto
    show thesis
    proof (rule that[OF 1(7,8) e(2) iop ul cell cell1])
      fix b assume "bitset_elems b = set ys" "length (blocks b) = len"
      then show "search_inv stp s0 h0 A ev len (\<sigma>\<lparr>s_heap := h1, s_linearized := b, s_calls := rest, s_state := t,
                 s_entry := hdo post1 None, s_iter := k\<rparr>) ys P1 m1 (pre1 @ [e]) post1"
        using 1(1,2,3,4) fl ok1 by (simp add: search_inv_def)
    next
      fix b
      show "(loop_measure stp s0 ?H (\<sigma>\<lparr>s_heap := h1, s_linearized := b, s_calls := rest, s_state := t,
                 s_entry := hdo post1 None, s_iter := k\<rparr>) m1 post1,
           loop_measure stp s0 ?H \<sigma> m (a # post)) \<in> less_than <*lex*> less_than"
        using 1(10) by (simp add: loop_measure_def)
    qed
qed

lemma call_step:
  assumes sp: "space stp h0 hn A ev M len" and I: "search_inv stp s0 h0 A ev len \<sigma> xs P m pre (a # post)"
    and a: "ev a = Inv i" and hdn: "s_heap \<sigma> hn = Some hd_nd" "nxt hd_nd \<noteq> None" and k: "\<not> kill (s_iter \<sigma>)"
  shows "\<exists>\<sigma>' xs' P' m' pre' post'. check_step M kill hn \<sigma> = Some (Inr \<sigma>') \<and>
           search_inv stp s0 h0 A ev len \<sigma>' xs' P' m' pre' post' \<and>
           (loop_measure stp s0 (map ev A) \<sigma>' m' post', loop_measure stp s0 (map ev A) \<sigma> m (a # post))
             \<in> less_than <*lex*> less_than"
proof -
  obtain inp outp where nh: "node_hist h0 A ev inp outp" and stp: "stp = model_step M inp outp"
    and hn: "hn \<notin> set A" "dll h0 (hn # A)" and len: "\<forall>i\<in>ops_of (map ev A). i < 64 * len"
    using sp by (auto simp: space_def)
  have S: "stack stp s0 h0 A ev (s_calls \<sigma>) (s_heap \<sigma>) xs (s_state \<sigma>) P m"
    and l: "live A ev xs = pre @ a # post" and ent: "s_entry \<sigma> = Some a"
    and be: "bitset_elems (s_linearized \<sigma>) = set xs" "length (blocks (s_linearized \<sigma>)) = len"
    using I by (auto simp: search_inv_def)
  note F = stack_facts[OF nh hn S]
  obtain nd where nd: "s_heap \<sigma> a = Some nd" "nxt nd = hdo post None"
    "static h0 a = Some (nvalue nd, matched nd, nid nd)" and aA: "a \<in> set A"
    by (rule entry_cell[OF sp I])
  obtain mm where mm: "mm \<in> set A" "ev mm = Rsp i" "nvalue nd = Input (inp i)" "matched nd = Some mm" "nid nd = i"
    using node_hist_call[OF nh aA a] nd(3) by auto
  have "static (s_heap \<sigma>) mm = Some (Output (outp i), None, i)" using node_hist_ret[OF nh mm(1,2)] F by simp
  then obtain md where md: "s_heap \<sigma> mm = Some md" "nvalue md = Output (outp i)" by (auto simp: static_Some)
  have iop: "i \<in> ops_of (map ev A)" using a aA by (force simp: ops_of_def)
  obtain b where b: "bitset_set (s_linearized \<sigma>) i = Some b" "bitset_elems b = insert i (set xs)"
    "length (blocks b) = len"
    using bitset_set_spec[of i "s_linearized \<sigma>"] be iop len by (auto simp: bitset_cap_def)
  obtain ok s' where st: "stp (s_state \<sigma>) i = (ok, s')" by (cases "stp (s_state \<sigma>) i")
  then have st': "step M (s_state \<sigma>) (inp i) (outp i) = (ok, s')" by (simp add: stp model_step_def)
  let ?adv = "\<sigma>\<lparr>s_entry := hdo post None, s_iter := Suc (s_iter \<sigma>)\<rparr>"
  show ?thesis
  proof (cases "ok \<and> (b, s') \<notin> cached (s_cache \<sigma>)")
    case False
    then have f: "fails stp (map ev A) (set xs) (s_state \<sigma>) i"
      using st b cached_fails[OF sp I a _ b(2)] by (cases ok) (auto simp: fails_def)
    have "check_step M kill hn \<sigma> = Some (Inr ?adv)"
      using False hdn k ent nd mm md st' b by (cases ok) (simp_all add: check_step_def cache_contains_iff)
    then show ?thesis using advance_inv[OF I a f] by blast
  next
    case True
    obtain h where h: "lift (s_heap \<sigma>) a = Some h" "dll h (hn # live A ev (xs @ [i]))"
      using lift_live[OF nh hn(1) _ _ l a] F by blast
    obtain hd' where hd': "h hn = Some hd'" "nxt hd' = hdo (live A ev (xs @ [i])) None" using h(2) by auto
    define \<sigma>' where "\<sigma>' = \<lparr>s_heap = h, s_linearized = b,
               s_cache = cache_insert (s_cache \<sigma>) (bitset_hash b) (b, s'),
               s_calls = (Some a, s_state \<sigma>) # s_calls \<sigma>, s_state = s',
               s_entry = hdo (live A ev (xs @ [i])) None, s_iter = Suc (s_iter \<sigma>)\<rparr>"
    have "check_step M kill hn \<sigma> = Some (Inr \<sigma>')"
      using True hdn k ent nd mm md st' b h hd' by (simp add: check_step_def cache_contains_iff \<sigma>'_def)
    moreover have "stp (s_state \<sigma>) i = (True, s')" "(b, s') \<notin> cached (s_cache \<sigma>)" using True st by auto
    note pushed = push_inv[OF sp I a this(1) b(2,3) this(2) h(1) \<sigma>'_def]
    obtain P' where "search_inv stp s0 h0 A ev len \<sigma>' (xs @ [i]) P' (m + length post) [] (live A ev (xs @ [i]))"
      using pushed(1) by blast
    ultimately show ?thesis
      using pushed(2)[of "m + length post" "live A ev (xs @ [i])"] by (intro exI conjI)
  qed
qed

lemma check_step_spec:
  assumes sp: "space stp h0 hn A ev M len" and I: "search_inv stp s0 h0 A ev len \<sigma> xs P m pre post"
  shows "(check_step M kill hn \<sigma> = Some (Inl True) \<and> linearizable stp s0 (map ev A)) \<or>
    (check_step M kill hn \<sigma> = Some (Inl False) \<and> (kill (s_iter \<sigma>) \<or> \<not> linearizable stp s0 (map ev A))) \<or>
    (\<exists>\<sigma>' xs' P' m' pre' post'. check_step M kill hn \<sigma> = Some (Inr \<sigma>') \<and>
       search_inv stp s0 h0 A ev len \<sigma>' xs' P' m' pre' post' \<and>
       (loop_measure stp s0 (map ev A) \<sigma>' m' post', loop_measure stp s0 (map ev A) \<sigma> m post)
         \<in> less_than <*lex*> less_than)"
proof -
  obtain inp outp where nh: "node_hist h0 A ev inp outp" and hn: "hn \<notin> set A" "dll h0 (hn # A)"
    and len: "\<forall>i\<in>ops_of (map ev A). i < 64 * len"
    using sp by (auto simp: space_def)
  have S: "stack stp s0 h0 A ev (s_calls \<sigma>) (s_heap \<sigma>) xs (s_state \<sigma>) P m"
    and l: "live A ev xs = pre @ post" and ent: "s_entry \<sigma> = hdo post None"
    and f: "\<forall>c\<in>set pre. is_inv (ev c)"
    and be: "bitset_elems (s_linearized \<sigma>) = set xs" "length (blocks (s_linearized \<sigma>)) = len"
    using I by (auto simp: search_inv_def)
  note F = stack_facts[OF nh hn S]
  obtain hdn where hdn: "s_heap \<sigma> hn = Some hdn" "nxt hdn = hdo (live A ev xs) None" using F by auto
  show ?thesis
  proof (cases post)
    case Nil
    then have "\<forall>c\<in>set (live A ev xs). is_inv (ev c)" using l f by simp
    then have e: "live A ev xs = []" by (rule live_invs_only[OF nh])
    then have "without (set xs) (map ev A) = []" using map_live[of ev A xs] by simp
    then have "linearizable stp s0 (map ev A)" using F by simp
    then show ?thesis using hdn e by (simp add: check_step_def)
  next
    case (Cons a post')
    then have nn: "nxt hdn \<noteq> None" using hdn l by (cases pre) auto
    have I': "search_inv stp s0 h0 A ev len \<sigma> xs P m pre (a # post')" using I Cons by simp
    obtain nd where nd: "s_heap \<sigma> a = Some nd" "static h0 a = Some (nvalue nd, matched nd, nid nd)" and aA: "a \<in> set A"
      by (rule entry_cell[OF sp I'])
    show ?thesis
    proof (cases "kill (s_iter \<sigma>)")
      case True
      then show ?thesis using hdn(1) nn by (auto simp: check_step_def)
    next
      case nk: False
      show ?thesis
      proof (cases "ev a")
        case (Inv i)
        from call_step[OF sp I' this hdn(1) nn, of kill] nk show ?thesis
          unfolding Cons by (intro disjI2) simp
      next
        case (Rsp j)
        then have m: "matched nd = None" using node_hist_ret[OF nh aA] nd(2) by auto
        note nl = response_fails[OF sp I' Rsp]
        show ?thesis
        proof (cases "s_calls \<sigma>")
          case Nil
          then have "xs = []" "s_state \<sigma> = s0" using S by (auto elim: stack_NilE)
          then have "\<not> linearizable stp s0 (map ev A)" using nl by simp
          then show ?thesis using hdn nn nk ent Cons nd m Nil by (simp add: check_step_def)
        next
          case c: (Cons c rest)
          obtain ce t where ct: "c = (ce, t)" by (cases c)
          obtain e i ys pre1 post1 h1 P1 m1 ed ed1 where
            1: "ce = Some e" "xs = ys @ [i]" "i \<notin> set ys" "i \<in> ops_of (map ev A)" "unlift (s_heap \<sigma>) e = Some h1"
              "s_heap \<sigma> e = Some ed" "nid ed = i" "h1 e = Some ed1" "nxt ed1 = hdo post1 None"
            and 2: "\<And>b. bitset_elems b = set ys \<Longrightarrow> length (blocks b) = len \<Longrightarrow>
              search_inv stp s0 h0 A ev len (\<sigma>\<lparr>s_heap := h1, s_linearized := b, s_calls := rest, s_state := t,
                 s_entry := hdo post1 None, s_iter := Suc (s_iter \<sigma>)\<rparr>) ys P1 m1 (pre1 @ [e]) post1"
            and 3: "\<And>b. (loop_measure stp s0 (map ev A) (\<sigma>\<lparr>s_heap := h1, s_linearized := b, s_calls := rest,
                 s_state := t, s_entry := hdo post1 None, s_iter := Suc (s_iter \<sigma>)\<rparr>) m1 post1,
               loop_measure stp s0 (map ev A) \<sigma> m (a # post')) \<in> less_than <*lex*> less_than"
            by (rule pop_inv[OF sp I' Rsp c[unfolded ct], where k = "Suc (s_iter \<sigma>)"]) (rule that)
          obtain b where b: "bitset_clear (s_linearized \<sigma>) i = Some b" "bitset_elems b = set xs - {i}"
            "length (blocks b) = len"
            using bitset_clear_spec[of i "s_linearized \<sigma>"] be 1(4) len by (auto simp: bitset_cap_def)
          have b': "bitset_elems b = set ys" using b 1(2,3) by auto
          have "check_step M kill hn \<sigma> = Some (Inr (\<sigma>\<lparr>s_heap := h1, s_linearized := b, s_calls := rest, s_state := t,
                 s_entry := hdo post1 None, s_iter := Suc (s_iter \<sigma>)\<rparr>))"
            using hdn nn nk ent Cons nd m c ct 1 b by (simp add: check_step_def)
          from this 2[OF b' b(3)] 3[of b] show ?thesis unfolding Cons
            by (intro disjI2 exI conjI)
        qed
      qed
    qed
  qed
qed

theorem check_loop_spec:
  assumes sp: "space stp h0 hn A ev M len" and I: "search_inv stp s0 h0 A ev len \<sigma> xs P m pre post"
  shows "\<exists>b. check_loop M kill hn \<sigma> = Some b \<and> (b \<longrightarrow> linearizable stp s0 (map ev A)) \<and>
             ((\<forall>n. \<not> kill n) \<longrightarrow> b = linearizable stp s0 (map ev A))"
  using I
proof (induction "loop_measure stp s0 (map ev A) \<sigma> m post" arbitrary: \<sigma> xs P m pre post
       rule: wf_induct_rule[OF wf_lex_prod[OF wf_less_than wf_less_than]])
  case 1
  from check_step_spec[OF sp 1(2), of kill] show ?case
  proof (elim disjE exE conjE)
    fix \<sigma>' xs' P' m' pre' post'
    assume s: "check_step M kill hn \<sigma> = Some (Inr \<sigma>')"
      and I': "search_inv stp s0 h0 A ev len \<sigma>' xs' P' m' pre' post'"
      and lt: "(loop_measure stp s0 (map ev A) \<sigma>' m' post', loop_measure stp s0 (map ev A) \<sigma> m post)
                 \<in> less_than <*lex*> less_than"
    have "check_loop M kill hn \<sigma> = check_loop M kill hn \<sigma>'" by (subst check_loop.simps) (simp add: s)
    then show ?thesis using 1(1)[OF lt I'] by simp
  qed (auto simp: check_loop.simps[of M kill hn \<sigma>])
qed

end

end
