(* ===== verification/LinBuild.thy ===== *)
theory LinBuild
  imports LinCorrect
begin

text \<open>
  From entries to a verdict: \<open>from_entries\<close> builds a well-formed list of nodes out of well-formed
  entries, so the search theorem of \<open>LinCorrect\<close> applies to \<open>check_single\<close> on it.
\<close>

subsection \<open>Building the nodes\<close>

definition hev_of :: "'v entry \<Rightarrow> hev" where
  "hev_of e = (case ekind e of CallEntry \<Rightarrow> Inv (eid e) | ReturnEntry \<Rightarrow> Rsp (eid e))"

definition wf_entries :: "('i, 'o) val entry list \<Rightarrow> (nat \<Rightarrow> 'i) \<Rightarrow> (nat \<Rightarrow> 'o) \<Rightarrow> bool" where
  "wf_entries es inp outp \<longleftrightarrow> whist (map hev_of es) \<and>
     (\<forall>e\<in>set es. evalue e = (case ekind e of CallEntry \<Rightarrow> Input (inp (eid e)) | ReturnEntry \<Rightarrow> Output (outp (eid e)))) \<and>
     (\<forall>e\<in>set es. eid e < length es div 2)"

definition built :: "'v linked_nodes \<Rightarrow> nat \<Rightarrow> bool" where
  "built ns k \<longleftrightarrow> fresh ns = k \<and> head ns = hdo (rev [0..<k]) None \<and> dll (cells ns) (rev [0..<k]) \<and>
     (\<forall>a\<ge>k. cells ns a = None)"

lemma push_new:
  assumes b: "built ns k" and nd: "prv nd = None" "nxt nd = None" and r: "rc_new nd ns = (a, ns1)"
  shows "\<exists>ns'. push_front ns1 a = Some ns' \<and> built ns' (Suc k) \<and>
           static (cells ns') = (static (cells ns))(k \<mapsto> (nvalue nd, matched nd, nid nd)) \<and> a = k"
proof (cases k)
  case 0
  with b nd r show ?thesis
    by (auto simp: built_def rc_new_def push_front_def static_def fun_eq_iff)
next
  case (Suc j)
  then have d: "rev [0..<k] = j # rev [0..<j]" by simp
  obtain od where od: "cells ns j = Some od" "prv od = None" "nxt od = hdo (rev [0..<j]) None"
    "seg (cells ns) (Some j) (rev [0..<j]) None"
    using b by (auto simp: built_def Suc)
  have jk: "j \<notin> set (rev [0..<j])" "k \<notin> set (rev [0..<j])" using Suc by auto
  have free: "\<forall>a\<ge>Suc j. cells ns a = None" using b Suc by (simp add: built_def)
  have f: "fresh ns = Suc j" "head ns = Some j" using b by (simp_all add: built_def Suc)
  have sg: "seg ((cells ns)(j \<mapsto> od\<lparr>prv := Some (Suc j)\<rparr>, Suc j \<mapsto> nd\<lparr>nxt := Some j\<rparr>)) (Some j) (rev [0..<j]) None"
    using od(4) jk Suc by (simp add: seg_upd)
  have ns1: "a = Suc j" "ns1 = ns\<lparr>cells := (cells ns)(Suc j \<mapsto> nd), fresh := Suc (Suc j)\<rparr>"
    using r f by (auto simp: rc_new_def)
  let ?h = "(cells ns)(j \<mapsto> od\<lparr>prv := Some (Suc j)\<rparr>, Suc j \<mapsto> nd\<lparr>nxt := Some j\<rparr>)"
  have "push_front ns1 a = Some (ns1\<lparr>cells := ?h, head := Some (Suc j)\<rparr>)"
    using f od(1) by (simp add: push_front_def write_cell_def ns1 fun_upd_twist)
  moreover have "built (ns1\<lparr>cells := ?h, head := Some (Suc j)\<rparr>) (Suc (Suc j))"
    using free nd od sg by (simp add: built_def ns1)
  moreover have "static ?h = (static (cells ns))(Suc j \<mapsto> (nvalue nd, matched nd, nid nd))"
    using od(1) by (auto simp: static_def fun_eq_iff)
  ultimately show ?thesis by (simp add: Suc ns1)
qed

fun upd_matches :: "(nat \<Rightarrow> addr option) \<Rightarrow> nat \<Rightarrow> 'v entry list \<Rightarrow> nat \<Rightarrow> addr option" where
  "upd_matches m k [] = m"
| "upd_matches m k (e # es) =
     upd_matches (if ekind e = ReturnEntry then m(eid e \<mapsto> k) else m) (Suc k) es"

lemma from_entries_loop_spec:
  assumes "built ns k"
  shows "\<exists>ns'. from_entries_loop es m ns = Some ns' \<and> built ns' (k + length es) \<and>
     (\<forall>a<k. static (cells ns') a = static (cells ns) a) \<and>
     (\<forall>j<length es. static (cells ns') (k + j) = Some (evalue (es ! j),
        (case ekind (es ! j) of CallEntry \<Rightarrow> upd_matches m k (take j es) (eid (es ! j)) | ReturnEntry \<Rightarrow> None),
        eid (es ! j)))"
  using assms
proof (induction es arbitrary: m ns k)
  case (Cons e es)
  define nd where "nd = \<lparr>nvalue = evalue e,
     matched = (case ekind e of CallEntry \<Rightarrow> m (eid e) | ReturnEntry \<Rightarrow> None), nid = eid e,
     nxt = None, prv = None :: addr option\<rparr>"
  define m' where "m' = (if ekind e = ReturnEntry then m(eid e \<mapsto> k) else m)"
  obtain a ns1 where r: "rc_new nd ns = (a, ns1)" by (cases "rc_new nd ns")
  obtain ns2 where ns2: "push_front ns1 a = Some ns2" "built ns2 (Suc k)"
    "static (cells ns2) = (static (cells ns))(k \<mapsto> (nvalue nd, matched nd, nid nd))" "a = k"
    using push_new[OF Cons.prems _ _ r] by (auto simp: nd_def)
  have step: "from_entries_loop (e # es) m ns = from_entries_loop es m' ns2"
    using r ns2 by (cases "ekind e") (simp_all add: nd_def m'_def)
  obtain ns' where ns': "from_entries_loop es m' ns2 = Some ns'" "built ns' (Suc k + length es)"
    "\<forall>a<Suc k. static (cells ns') a = static (cells ns2) a"
    "\<forall>j<length es. static (cells ns') (Suc k + j) = Some (evalue (es ! j),
        (case ekind (es ! j) of CallEntry \<Rightarrow> upd_matches m' (Suc k) (take j es) (eid (es ! j)) | ReturnEntry \<Rightarrow> None),
        eid (es ! j))"
    using Cons.IH[OF ns2(2), of m'] by blast
  have "static (cells ns') (k + j) = Some (evalue ((e # es) ! j),
        (case ekind ((e # es) ! j) of CallEntry \<Rightarrow> upd_matches m k (take j (e # es)) (eid ((e # es) ! j))
         | ReturnEntry \<Rightarrow> None), eid ((e # es) ! j))" if "j < length (e # es)" for j
  proof (cases j)
    case 0
    then show ?thesis using ns'(3) ns2(3) by (simp add: nd_def cong: entry_kind.case_cong)
  next
    case (Suc i)
    then have "static (cells ns') (Suc k + i) = Some (evalue (es ! i),
        (case ekind (es ! i) of CallEntry \<Rightarrow> upd_matches m' (Suc k) (take i es) (eid (es ! i)) | ReturnEntry \<Rightarrow> None),
        eid (es ! i))" using ns'(4) that by simp
    then show ?thesis using Suc by (simp add: m'_def cong: entry_kind.case_cong)
  qed
  then show ?case using step ns' ns2(3) by auto
qed simp

lemma upd_matches_hit:
  assumes "r < length es" "ekind (es ! r) = ReturnEntry" "eid (es ! r) = i"
    and "\<forall>j<length es. ekind (es ! j) = ReturnEntry \<longrightarrow> eid (es ! j) = i \<longrightarrow> j = r"
  shows "upd_matches m k es i = Some (k + r)"
proof -
  have miss: "upd_matches m k es i = m i" if "\<forall>j<length es. ekind (es ! j) = ReturnEntry \<longrightarrow> eid (es ! j) \<noteq> i"
    for m k and es :: "'a entry list"
    using that
  proof (induction es arbitrary: m k)
    case (Cons e es)
    then show ?case by (auto simp: All_less_Suc2)
  qed simp
  show ?thesis using assms
  proof (induction es arbitrary: m k r)
    case (Cons e es)
    have uniq: "Suc j = r" if "j < length es" "ekind (es ! j) = ReturnEntry" "eid (es ! j) = i" for j
      using Cons.prems(4)[rule_format, of "Suc j"] that by simp
    show ?case
    proof (cases r)
      case 0
      then have "\<forall>j<length es. ekind (es ! j) = ReturnEntry \<longrightarrow> eid (es ! j) \<noteq> i"
        using uniq by blast
      then have "upd_matches (m(i \<mapsto> k)) (Suc k) es i = Some k" by (simp add: miss)
      then show ?thesis using 0 Cons.prems(2,3) by simp
    next
      case (Suc q)
      have "\<forall>j<length es. ekind (es ! j) = ReturnEntry \<longrightarrow> eid (es ! j) = i \<longrightarrow> j = q"
        using uniq unfolding Suc by blast
      moreover have "q < length es" "ekind (es ! q) = ReturnEntry" "eid (es ! q) = i"
        using Cons.prems(1-3) Suc by simp_all
      ultimately have "upd_matches m' (Suc k) es i = Some (Suc k + q)" for m' by (intro Cons.IH)
      then show ?thesis using Suc by simp
    qed
  qed simp
qed


lemma len_loop_seg: "seg h p xs None \<Longrightarrow> len_loop h (hdo xs None) n = Some (n + length xs)"
proof (induction xs arbitrary: p n)
  case Nil
  then show ?case by (simp add: len_loop.simps)
next
  case (Cons a xs)
  then show ?case by (auto simp: len_loop.simps[of _ "Some a"])
qed

lemma built_len: "built ns k \<Longrightarrow> nodes_len ns = Some k"
  using len_loop_seg[of "cells ns" None "rev [0..<k]" 0] by (simp add: built_def nodes_len_def)

subsection \<open>A verdict on well-formed entries\<close>

definition entry_ev :: "'v entry list \<Rightarrow> addr \<Rightarrow> hev" where
  "entry_ev es a = hev_of (rev es ! a)"

lemma map_entry_ev: "map (entry_ev es) (rev [0..<length es]) = map hev_of es"
proof -
  have "map (entry_ev es) [0..<length es] = map hev_of (rev es)"
    by (rule nth_equalityI) (simp_all add: entry_ev_def)
  then show ?thesis by (simp add: rev_map[symmetric])
qed

lemma return_unique:
  assumes d: "distinct (map hev_of es)" and jr: "j < length es" "r < length es"
    and k: "ekind (es ! j) = ReturnEntry" "ekind (es ! r) = ReturnEntry" "eid (es ! j) = eid (es ! r)"
  shows "j = r"
proof -
  have "map hev_of es ! j = map hev_of es ! r" using jr k by (simp add: hev_of_def)
  then show ?thesis using d jr by (metis length_map nth_eq_iff_index_eq)
qed

lemma matching_return:
  assumes wf: "whist (map hev_of es)" and j: "j < length es" "ekind (rev es ! j) = CallEntry"
  shows "\<exists>r<j. entry_ev es r = Rsp (eid (rev es ! j)) \<and>
           upd_matches m 0 (take j (rev es)) (eid (rev es ! j)) = Some r"
proof -
  let ?es = "rev es" and ?i = "eid (rev es ! j)"
  have d: "distinct (map hev_of ?es)" using whist_distinct[OF wf] by (simp add: rev_map[symmetric])
  have hj: "hev_of (?es ! j) = Inv ?i" using j by (simp add: hev_of_def)
  then have "Inv ?i \<in> set (map hev_of es)" using j by (metis length_rev nth_mem set_map set_rev image_eqI)
  then have "before (Inv ?i) (Rsp ?i) (map hev_of es)" using whist_inv[OF wf] by blast
  then obtain a b where ab: "map hev_of es = a @ Inv ?i # b" "Rsp ?i \<in> set b"
    using before_split[OF whist_distinct[OF wf]] by blast
  then have rv: "map hev_of ?es = rev b @ Inv ?i # rev a" by (simp add: rev_map[symmetric])
  have "j = length b"
    using d j(1) rv hj
    by (metis (no_types, lifting) distinct_conv_nth length_append length_map length_rev
        length_Cons less_add_same_cancel1 nth_append_length nth_map zero_less_Suc)
  with rv obtain r where r: "r < j" "hev_of (?es ! r) = Rsp ?i"
    using ab(2) j(1) by (metis in_set_conv_nth length_rev nth_append nth_map less_trans set_rev)
  then have k: "ekind (?es ! r) = ReturnEntry" "eid (?es ! r) = ?i"
    by (auto simp: hev_of_def split: entry_kind.splits)
  have "upd_matches m 0 (take j ?es) ?i = Some (0 + r)"
  proof (rule upd_matches_hit)
    show "\<forall>q<length (take j ?es). ekind (take j ?es ! q) = ReturnEntry \<longrightarrow> eid (take j ?es ! q) = ?i \<longrightarrow> q = r"
      using return_unique[OF d] j(1) r(1) k by (auto intro: return_unique[OF d])
  qed (use r(1) j(1) k in auto)
  with r show ?thesis by (auto simp: entry_ev_def)
qed


lemma from_entries_spec:
  assumes wf: "wf_entries es inp outp"
  shows "\<exists>ns. from_entries es = Some ns \<and> built ns (length es) \<and>
           node_hist (cells ns) (rev [0..<length es]) (entry_ev es) inp outp"
proof -
  let ?N = "length es"
  have w: "whist (map hev_of es)" using wf by (simp add: wf_entries_def)
  have "built (nodes_new :: ('a, 'b) val linked_nodes) 0" by (simp add: built_def nodes_new_def)
  from from_entries_loop_spec[OF this, of "rev es" "\<lambda>_. None"] obtain ns where
    ns: "from_entries es = Some ns" "built ns ?N"
    and st: "\<And>j. j < ?N \<Longrightarrow> static (cells ns) j = Some (evalue (rev es ! j),
      (case ekind (rev es ! j) of CallEntry \<Rightarrow> upd_matches (\<lambda>_. None) 0 (take j (rev es)) (eid (rev es ! j))
       | ReturnEntry \<Rightarrow> None), eid (rev es ! j))"
    by (auto simp: from_entries_def)
  have val: "evalue (rev es ! j) = (case ekind (rev es ! j) of
      CallEntry \<Rightarrow> Input (inp (eid (rev es ! j))) | ReturnEntry \<Rightarrow> Output (outp (eid (rev es ! j))))"
    if "j < ?N" for j
    using wf that nth_mem[of j "rev es"] by (simp add: wf_entries_def del: nth_mem)
  have "case entry_ev es a of
        Inv i \<Rightarrow> (\<exists>m\<in>set (rev [0..<?N]). entry_ev es m = Rsp i \<and> static (cells ns) a = Some (Input (inp i), Some m, i))
      | Rsp i \<Rightarrow> static (cells ns) a = Some (Output (outp i), None, i)" if a: "a < ?N" for a
  proof (cases "ekind (rev es ! a)")
    case CallEntry
    then obtain r where "r < a" "entry_ev es r = Rsp (eid (rev es ! a))"
      "upd_matches (\<lambda>_. None) 0 (take a (rev es)) (eid (rev es ! a)) = Some r"
      using matching_return[OF w a] by blast
    with CallEntry st[OF a] val[OF a] a show ?thesis
      by (auto simp: entry_ev_def[of es a] hev_of_def[of "rev es ! a"] intro!: exI[of _ r])
  next
    case ReturnEntry
    with st[OF a] val[OF a] show ?thesis by (simp add: entry_ev_def hev_of_def)
  qed
  then have "node_hist (cells ns) (rev [0..<?N]) (entry_ev es) inp outp"
    using w by (simp add: node_hist_def map_entry_ev)
  with ns show ?thesis by blast
qed

lemma node_hist_static:
  "node_hist h A ev inp outp \<Longrightarrow> \<forall>a\<in>set A. static h' a = static h a \<Longrightarrow> node_hist h' A ev inp outp"
  by (simp add: node_hist_def cong: hev.case_cong)

context state_equality
begin

lemma check_single_entries:
  assumes wf: "wf_entries es inp outp"
  shows "\<exists>ns b. from_entries es = Some ns \<and> check_single M ns kill = Some b \<and>
    (b \<longrightarrow> linearizable (model_step M inp outp) (init_state M) (map hev_of es)) \<and>
    ((\<forall>n. \<not> kill n) \<longrightarrow> b = linearizable (model_step M inp outp) (init_state M) (map hev_of es))"
proof -
  let ?N = "length es" and ?A = "rev [0..<length es]" and ?stp = "model_step M inp outp"
  let ?H = "map hev_of es" and ?len = "length (blocks (new_bitset (length es div 2)))"
  obtain ns where ns: "from_entries es = Some ns" "built ns ?N"
    "node_hist (cells ns) ?A (entry_ev es) inp outp" using from_entries_spec[OF wf] by blast
  define nd :: "('i, 'o) val node" where
    "nd = \<lparr>nvalue = NoVal, matched = None, nid = 2 ^ 64 - 1, nxt = None, prv = None\<rparr>"
  obtain a ns1 where r: "rc_new nd ns = (a, ns1)" by (cases "rc_new nd ns")
  obtain ns2 where ns2: "push_front ns1 a = Some ns2" "built ns2 (Suc ?N)" "a = ?N"
    "static (cells ns2) = (static (cells ns))(?N \<mapsto> (nvalue nd, matched nd, nid nd))"
    using push_new[OF ns(2) _ _ r] by (auto simp: nd_def)
  obtain hd_nd where h: "cells ns2 ?N = Some hd_nd" "nxt hd_nd = hdo ?A None"
    using ns2(2) by (auto simp: built_def)
  have "node_hist (cells ns2) ?A (entry_ev es) inp outp"
    by (rule node_hist_static[OF ns(3)]) (use ns2(4) in auto)
  moreover have ids: "\<forall>i\<in>ops_of ?H. i < 64 * ?len"
  proof
    fix i assume "i \<in> ops_of ?H"
    then obtain e where "e \<in> set es" "eid e = i"
      by (auto simp: ops_of_def hev_of_def split: entry_kind.splits)
    then have "i < ?N div 2" using wf by (auto simp: wf_entries_def)
    then show "i < 64 * ?len" using cap_new[of "?N div 2"] by (simp add: bitset_cap_def)
  qed
  ultimately have sp: "space ?stp (cells ns2) ?N ?A (entry_ev es) M ?len"
    using ns2(2) by (auto simp: space_def map_entry_ev built_def)
  let ?\<sigma> = "\<lparr>s_heap = cells ns2, s_linearized = new_bitset (?N div 2), s_cache = (\<lambda>_. None), s_calls = [],
     s_state = init_state M, s_entry = hdo ?A None, s_iter = 0\<rparr>"
  have "search_inv ?stp (init_state M) (cells ns2) ?A (entry_ev es) ?len ?\<sigma> [] {} 0 [] ?A"
    by (auto simp: search_inv_def elems_new cache_ok_def seen_def cached_def intro: stack.intros)
  from check_loop_spec[OF sp this] obtain b where
    "check_loop M kill ?N ?\<sigma> = Some b" "b \<longrightarrow> linearizable ?stp (init_state M) ?H"
    "(\<forall>n. \<not> kill n) \<longrightarrow> b = linearizable ?stp (init_state M) ?H"
    unfolding map_entry_ev by blast
  moreover have "check_single M ns kill = check_loop M kill ?N ?\<sigma>"
    using built_len[OF ns(2)] r ns2(1,3) h by (simp add: check_single_def nd_def)
  ultimately show ?thesis using ns(1) by auto
qed

end

end
