(* ===== verification/LinHist.thy ===== *)
theory LinHist
  imports LinBuild "HOL-Library.Multiset"
begin

text \<open>
  The two ways a history becomes entries (\<^verbatim>\<open>courses/dss/linearizability/src/lib.rs\<close>): timed operations
  through \<^const>\<open>make_entries\<close>, and event logs through \<^verbatim>\<open>renumber\<close> and \<^verbatim>\<open>convert_entries\<close>. Both give
  well-formed entries; the order of operations they encode is stated on the operations and the
  events themselves.
\<close>

subsection \<open>Linearizability of numbered operations\<close>

text \<open>
  The notion of \<open>LinSpec\<close> on any set of numbered operations and any precedence, with the lemma that
  renaming the operations does not change it.
\<close>

definition lin_struct :: "nat set \<Rightarrow> (nat \<Rightarrow> nat \<Rightarrow> bool) \<Rightarrow> ('s \<Rightarrow> nat \<Rightarrow> bool \<times> 's) \<Rightarrow> 's \<Rightarrow> bool" where
  "lin_struct D R stp s \<longleftrightarrow>
     (\<exists>ord. distinct ord \<and> set ord = D \<and> sorted_wrt (\<lambda>i j. \<not> R j i) ord \<and> accepts stp s ord)"

lemma linearizable_struct: "linearizable stp s H = lin_struct (ops_of H) (precedes H) stp s"
  by (simp add: linearizable_def linearization_def lin_struct_def extends_prec_def)

lemma accepts_map: "accepts stp s (map \<phi> ord) = accepts (\<lambda>s i. stp s (\<phi> i)) s ord"
  by (induction ord arbitrary: s) auto

lemma accepts_cong:
  "(\<And>s i. i \<in> set ord \<Longrightarrow> stp s i = stp' s i) \<Longrightarrow> accepts stp s ord = accepts stp' s ord"
  by (induction ord arbitrary: s) auto

lemma lin_struct_rename1:
  assumes "lin_struct D R stp s" and "bij_betw \<phi> D D'"
    and "\<And>i j. i \<in> D \<Longrightarrow> j \<in> D \<Longrightarrow> R' (\<phi> i) (\<phi> j) \<Longrightarrow> R i j"
    and "\<And>s i. i \<in> D \<Longrightarrow> stp' s (\<phi> i) = stp s i"
  shows "lin_struct D' R' stp' s"
proof -
  obtain ord where ord: "distinct ord" "set ord = D" "sorted_wrt (\<lambda>i j. \<not> R j i) ord" "accepts stp s ord"
    using assms(1) by (auto simp: lin_struct_def)
  have "distinct (map \<phi> ord)" "set (map \<phi> ord) = D'"
    using assms(2) ord(1,2) by (auto simp: bij_betw_def distinct_map)
  moreover have "sorted_wrt (\<lambda>i j. \<not> R' j i) (map \<phi> ord)"
    unfolding sorted_wrt_map
    by (rule sorted_wrt_mono_rel[OF _ ord(3)]) (use assms(3) ord(2) in blast)
  moreover have "accepts stp' s (map \<phi> ord)"
    using ord(4) accepts_cong[of ord "\<lambda>s i. stp' s (\<phi> i)" stp s] assms(4) ord(2)
    by (simp add: accepts_map)
  ultimately show ?thesis unfolding lin_struct_def by blast
qed

lemma lin_struct_rename:
  assumes b: "bij_betw \<phi> D D'"
    and R: "\<And>i j. i \<in> D \<Longrightarrow> j \<in> D \<Longrightarrow> R' (\<phi> i) (\<phi> j) \<longleftrightarrow> R i j"
    and st: "\<And>s i. i \<in> D \<Longrightarrow> stp' s (\<phi> i) = stp s i"
  shows "lin_struct D R stp s \<longleftrightarrow> lin_struct D' R' stp' s"
proof
  show "lin_struct D' R' stp' s" if "lin_struct D R stp s"
    using lin_struct_rename1[OF that b] R st by blast
  let ?\<psi> = "the_inv_into D \<phi>"
  have inv: "\<phi> (?\<psi> j) = j" "?\<psi> j \<in> D" if "j \<in> D'" for j
    using b that by (auto simp: bij_betw_def f_the_inv_into_f the_inv_into_into)
  show "lin_struct D R stp s" if l: "lin_struct D' R' stp' s"
  proof (rule lin_struct_rename1[OF l bij_betw_the_inv_into[OF b]])
    show "R' i j" if "i \<in> D'" "j \<in> D'" "R (?\<psi> i) (?\<psi> j)" for i j
      using R[OF inv(2)[OF that(1)] inv(2)[OF that(2)]] that by (simp add: inv)
    show "stp s (?\<psi> i) = stp' s i" if "i \<in> D'" for s i
      using st[OF inv(2)[OF that], of s] that by (simp add: inv)
  qed
qed

lemma lin_struct_cong:
  assumes "D = D'" "\<And>i j. i \<in> D \<Longrightarrow> j \<in> D \<Longrightarrow> R i j = R' i j" "\<And>s i. i \<in> D \<Longrightarrow> stp s i = stp' s i"
  shows "lin_struct D R stp s = lin_struct D' R' stp' s"
  by (rule lin_struct_rename[of "\<lambda>x. x"]) (use assms in \<open>auto simp: bij_betw_def\<close>)

subsection \<open>A stable sort and the order of two elements\<close>

lemma sort_before:
  assumes d: "distinct (map g xs)" and ab: "a \<in> set xs" "b \<in> set xs" "g a \<noteq> g b"
  shows "before (g a) (g b) (map g (sort_key f xs)) \<longleftrightarrow>
           f a < f b \<or> (f a = f b \<and> before (g a) (g b) (map g xs))"
proof -
  define P where "P = (\<lambda>x. g x = g a \<or> g x = g b)"
  let ?ys = "filter P xs"
  have inj: "inj_on g (set xs)" using d by (simp add: distinct_map)
  have two: "set ?ys = {a, b}" using ab inj by (auto simp: P_def inj_on_def)
  have dy: "distinct ?ys" using d by (simp add: distinct_map)
  have "length ?ys = 2" using distinct_card[OF dy] two ab(3) by (auto simp: card_insert_if split: if_splits)
  then obtain x y where xy: "?ys = [x, y]" by (auto simp: length_Suc_conv numeral_2_eq_2)
  then have opt: "x = a \<and> y = b \<or> x = b \<and> y = a" using two dy by (auto simp: doubleton_eq_iff)
  have bf: "before (g a) (g b) (map g zs) \<longleftrightarrow> before (g a) (g b) (map g (filter P zs))"
    if "distinct (map g zs)" for zs
    using before_filter[OF that, of "\<lambda>v. v = g a \<or> v = g b" "g a" "g b"]
    by (simp add: filter_map o_def P_def)
  have "mset (map g (sort_key f xs)) = mset (map g xs)" by simp
  then have ds: "distinct (map g (sort_key f xs))" using d mset_eq_imp_distinct_iff by blast
  show ?thesis unfolding bf[OF ds] bf[OF d] filter_sort xy
    using opt ab(3) by auto
qed

subsection \<open>Operations with times\<close>

definition rt_precedes :: "('i, 'o) operation list \<Rightarrow> nat \<Rightarrow> nat \<Rightarrow> bool" where
  "rt_precedes ops i j \<longleftrightarrow>
     op_finish (ops ! i) < op_call (ops ! j) \<or> (op_finish (ops ! i) = op_call (ops ! j) \<and> i < j)"

definition timed :: "('i, 'o) operation list \<Rightarrow> bool" where
  "timed ops \<longleftrightarrow> (\<forall>op\<in>set ops. op_call op \<le> op_finish op)"

lemma make_entries_loop_set:
  "e \<in> set (make_entries_loop k ops) \<longleftrightarrow>
     (\<exists>i<length ops. e = \<lparr>ekind = CallEntry, evalue = Input (op_input (ops ! i)), eid = k + i, etime = op_call (ops ! i)\<rparr> \<or>
        e = \<lparr>ekind = ReturnEntry, evalue = Output (op_output (ops ! i)), eid = k + i, etime = op_finish (ops ! i)\<rparr>)"
  by (induction ops arbitrary: k) (auto simp: Ex_less_Suc2)

lemma make_entries_loop_hev:
  "map hev_of (make_entries_loop k ops) = concat (map (\<lambda>i. [Inv i, Rsp i]) [k..<k + length ops])"
proof (induction ops arbitrary: k)
  case (Cons p ops)
  have "[k..<k + length (p # ops)] = k # [Suc k..<Suc k + length ops]"
    by (simp add: upt_conv_Cons del: upt_Suc)
  then show ?case using Cons by (simp add: hev_of_def)
qed simp

lemma length_make_entries_loop: "length (make_entries_loop k ops) = 2 * length ops"
  by (induction ops arbitrary: k) auto

lemma pairs_distinct: "distinct (concat (map (\<lambda>i. [Inv i, Rsp i]) [k..<m]))"
  by (induction m) auto

lemma pairs_set: "x \<in> set (concat (map (\<lambda>i. [Inv i, Rsp i]) [k..<m])) \<longleftrightarrow> k \<le> hid x \<and> hid x < m"
  by (cases x) auto

lemma pairs_before_self: "i < m \<Longrightarrow> before (Inv i) (Rsp i) (concat (map (\<lambda>i. [Inv i, Rsp i]) [0..<m]))"
  by (induction m) (auto simp: less_Suc_eq)

lemma pairs_before:
  assumes "i < m" "j < m"
  shows "before (Rsp i) (Inv j) (concat (map (\<lambda>i. [Inv i, Rsp i]) [0..<m])) \<longleftrightarrow> i < j"
  using assms
proof (induction m)
  case (Suc m)
  have "before (Rsp i) (Inv j) (concat (map (\<lambda>i. [Inv i, Rsp i]) [0..<m])) \<Longrightarrow> i < m \<and> j < m"
    by (drule before_mem) (simp only: pairs_set, simp)
  with Suc show ?case by (auto simp: less_Suc_eq)
qed simp

lemma make_entries_before:
  assumes "i < length ops" "j < length ops"
  shows "before (Rsp i) (Inv j) (map hev_of (make_entries ops)) \<longleftrightarrow> rt_precedes ops i j" (is ?A)
    and "before (Inv i) (Rsp j) (map hev_of (make_entries ops)) \<longleftrightarrow>
           op_call (ops ! i) < op_finish (ops ! j) \<or>
           (op_call (ops ! i) = op_finish (ops ! j) \<and>
             before (Inv i) (Rsp j) (concat (map (\<lambda>i. [Inv i, Rsp i]) [0..<length ops])))" (is ?B)
proof -
  let ?es = "make_entries_loop 0 ops"
  define c :: "nat \<Rightarrow> ('a, 'b) val entry" where "c i = \<lparr>ekind = CallEntry, evalue = Input (op_input (ops ! i)), eid = i, etime = op_call (ops ! i)\<rparr>" for i
  define r :: "nat \<Rightarrow> ('a, 'b) val entry" where "r i = \<lparr>ekind = ReturnEntry, evalue = Output (op_output (ops ! i)), eid = i, etime = op_finish (ops ! i)\<rparr>" for i
  have d: "distinct (map hev_of ?es)" by (simp add: make_entries_loop_hev pairs_distinct)
  have m: "c i \<in> set ?es" "r i \<in> set ?es" if "i < length ops" for i
    using that by (auto simp: make_entries_loop_set c_def r_def)
  have h: "hev_of (c i) = Inv i" "hev_of (r i) = Rsp i" "etime (c i) = op_call (ops ! i)"
    "etime (r i) = op_finish (ops ! i)" for i by (simp_all add: c_def r_def hev_of_def)
  show ?A using sort_before[OF d m(2)[OF assms(1)] m(1)[OF assms(2)], of etime] assms
    by (simp add: h make_entries_def rt_precedes_def make_entries_loop_hev pairs_before)
  show ?B using sort_before[OF d m(1)[OF assms(1)] m(2)[OF assms(2)], of etime]
    by (simp add: h make_entries_def make_entries_loop_hev)
qed

lemma make_entries_set: "x \<in> set (map hev_of (make_entries ops)) \<longleftrightarrow> hid x < length ops"
proof -
  have "set (map hev_of (make_entries ops)) = set (map hev_of (make_entries_loop 0 ops))"
    by (simp add: make_entries_def)
  then show ?thesis by (simp only: make_entries_loop_hev pairs_set) simp
qed

lemma make_entries_ops: "ops_of (map hev_of (make_entries ops)) = {..<length ops}"
  unfolding ops_of_def make_entries_set by auto

lemma make_entries_whist:
  assumes "timed ops"
  shows "whist (map hev_of (make_entries ops))"
proof -
  let ?H = "map hev_of (make_entries ops)"
  have "mset ?H = mset (map hev_of (make_entries_loop 0 ops))" by (simp add: make_entries_def)
  then have "distinct ?H" using mset_eq_imp_distinct_iff make_entries_loop_hev pairs_distinct by metis
  moreover have "before (Inv i) (Rsp i) ?H" if "i < length ops" for i
  proof -
    have "op_call (ops ! i) \<le> op_finish (ops ! i)" using assms that by (simp add: timed_def)
    then show ?thesis using make_entries_before(2)[OF that that] pairs_before_self[OF that] by auto
  qed
  ultimately show ?thesis unfolding whist_def
    by (simp only: make_entries_set Ball_def) (simp split: hev.splits)
qed

lemma make_entries_wf:
  assumes "timed ops"
  shows "wf_entries (make_entries ops) (\<lambda>i. op_input (ops ! i)) (\<lambda>i. op_output (ops ! i))"
  using make_entries_whist[OF assms]
  by (auto simp: wf_entries_def make_entries_def make_entries_loop_set length_make_entries_loop)

definition ops_linearizable ::
  "('s \<Rightarrow> 'i \<Rightarrow> 'o \<Rightarrow> bool \<times> 's) \<Rightarrow> 's \<Rightarrow> ('i, 'o) operation list \<Rightarrow> bool" where
  "ops_linearizable stp s ops =
     lin_struct {..<length ops} (rt_precedes ops) (\<lambda>s i. stp s (op_input (ops ! i)) (op_output (ops ! i))) s"

lemma make_entries_linearizable:
  "linearizable (model_step M (\<lambda>i. op_input (ops ! i)) (\<lambda>i. op_output (ops ! i))) s (map hev_of (make_entries ops))
     \<longleftrightarrow> ops_linearizable (step M) s ops"
  unfolding linearizable_struct ops_linearizable_def
  by (rule lin_struct_cong) (auto simp: make_entries_ops precedes_def make_entries_before model_step_def)

subsection \<open>Event logs\<close>

fun renumber_loop :: "(nat \<Rightarrow> nat option) \<Rightarrow> nat \<Rightarrow> ('i, 'o) event list \<Rightarrow> ('i, 'o) event list" where
  "renumber_loop m k [] = []"
| "renumber_loop m k (ev # rest) =
     (case m (ev_id ev) of
        Some i \<Rightarrow> ev\<lparr>ev_id := i\<rparr> # renumber_loop m k rest
      | None \<Rightarrow> ev\<lparr>ev_id := k\<rparr> # renumber_loop (m(ev_id ev \<mapsto> k)) (k + 1) rest)"

definition renumber :: "('i, 'o) event list \<Rightarrow> ('i, 'o) event list" where
  "renumber events = renumber_loop (\<lambda>_. None) 0 events"

definition convert_entries :: "('i, 'o) event list \<Rightarrow> ('i, 'o) val entry list" where
  "convert_entries events = map (\<lambda>ev.
     (case ev_kind ev of
        CallEvent \<Rightarrow> \<lparr>ekind = CallEntry, evalue = ev_value ev, eid = ev_id ev, etime = -1\<rparr>
      | ReturnEvent \<Rightarrow> \<lparr>ekind = ReturnEntry, evalue = ev_value ev, eid = ev_id ev, etime = -1\<rparr>)) events"

definition hev_event :: "('i, 'o) event \<Rightarrow> hev" where
  "hev_event ev = (case ev_kind ev of CallEvent \<Rightarrow> Inv (ev_id ev) | ReturnEvent \<Rightarrow> Rsp (ev_id ev))"

definition wf_events :: "('i, 'o) event list \<Rightarrow> (nat \<Rightarrow> 'i) \<Rightarrow> (nat \<Rightarrow> 'o) \<Rightarrow> bool" where
  "wf_events evs inp outp \<longleftrightarrow> whist (map hev_event evs) \<and>
     (\<forall>ev\<in>set evs. ev_value ev =
        (case ev_kind ev of CallEvent \<Rightarrow> Input (inp (ev_id ev)) | ReturnEvent \<Rightarrow> Output (outp (ev_id ev))))"

lemma hid_hev_event [simp]: "hid (hev_event ev) = ev_id ev"
  by (simp add: hev_event_def split: event_kind.splits)

lemma convert_hev: "map hev_of (convert_entries evs) = map hev_event evs"
  by (simp add: convert_entries_def hev_of_def hev_event_def split: event_kind.splits)

fun numbering :: "(nat \<Rightarrow> nat option) \<Rightarrow> nat \<Rightarrow> ('i, 'o) event list \<Rightarrow> nat \<Rightarrow> nat option" where
  "numbering m k [] = m"
| "numbering m k (ev # rest) =
     (case m (ev_id ev) of Some i \<Rightarrow> numbering m k rest | None \<Rightarrow> numbering (m(ev_id ev \<mapsto> k)) (k + 1) rest)"

lemma numbering_extends: "m i = Some j \<Longrightarrow> numbering m k evs i = Some j"
proof (induction evs arbitrary: m k)
  case (Cons ev evs)
  then show ?case by (cases "i = ev_id ev") (auto split: option.splits)
qed simp

lemma numbering_dom: "dom (numbering m k evs) = dom m \<union> ev_id ` set evs"
  by (induction evs arbitrary: m k) (auto split: option.splits)

lemma renumber_loop_numbering:
  "renumber_loop m k evs = map (\<lambda>ev. ev\<lparr>ev_id := the (numbering m k evs (ev_id ev))\<rparr>) evs"
  by (induction evs arbitrary: m k) (auto split: option.splits simp: numbering_extends)

lemma numbering_bij:
  assumes "inj_on m (dom m)" "ran m = {..<k}"
  shows "inj_on (numbering m k evs) (dom (numbering m k evs)) \<and> (\<exists>n. ran (numbering m k evs) = {..<n})"
  using assms
proof (induction evs arbitrary: m k)
  case (Cons ev rest)
  show ?case
  proof (cases "m (ev_id ev)")
    case None
    have "m i \<noteq> Some k" for i using Cons.prems(2) by (metis lessThan_iff less_irrefl ranI)
    then have "inj_on (m(ev_id ev \<mapsto> k)) (dom (m(ev_id ev \<mapsto> k)))"
      using Cons.prems(1) None by (auto simp: inj_on_def dom_def)
    moreover have "ran (m(ev_id ev \<mapsto> k)) = {..<k + 1}"
      using None by (simp add: Cons.prems(2) lessThan_Suc)
    ultimately have "inj_on (numbering (m(ev_id ev \<mapsto> k)) (k + 1) rest) (dom (numbering (m(ev_id ev \<mapsto> k)) (k + 1) rest)) \<and>
        (\<exists>n. ran (numbering (m(ev_id ev \<mapsto> k)) (k + 1) rest) = {..<n})" by (rule Cons.IH)
    then show ?thesis using None by simp
  qed (use Cons in auto)
qed auto

lemma renumber_bij:
  "\<exists>\<phi>. renumber evs = map (\<lambda>ev. ev\<lparr>ev_id := \<phi> (ev_id ev)\<rparr>) evs \<and>
       bij_betw \<phi> (ev_id ` set evs) {..<card (ev_id ` set evs)}"
proof -
  let ?m = "numbering (\<lambda>_. None) 0 evs" and ?D = "ev_id ` set evs"
  have dom: "dom ?m = ?D" by (simp add: numbering_dom)
  obtain n where n: "inj_on ?m ?D" "ran ?m = {..<n}"
    using numbering_bij[of "\<lambda>_. None" 0 evs] by (auto simp: dom ran_def)
  have val: "?m i = Some (the (?m i))" if "i \<in> ?D" for i
    using that unfolding dom[symmetric] by auto
  have "inj_on (\<lambda>i. the (?m i)) ?D"
    by (rule inj_onI) (metis n(1) inj_onD val)
  moreover have "(\<lambda>i. the (?m i)) ` ?D = ran ?m"
    unfolding dom[symmetric] by (force simp: ran_def dom_def image_def)
  ultimately have b: "bij_betw (\<lambda>i. the (?m i)) ?D {..<n}" by (simp add: bij_betw_def n(2))
  then have "card ?D = n" using bij_betw_same_card[OF b] by simp
  with b show ?thesis
    by (intro exI[of _ "\<lambda>i. the (?m i)"]) (simp add: renumber_def renumber_loop_numbering)
qed

subsection \<open>Renaming a history\<close>

fun hev_ren :: "(nat \<Rightarrow> nat) \<Rightarrow> hev \<Rightarrow> hev" where
  "hev_ren \<phi> (Inv i) = Inv (\<phi> i)"
| "hev_ren \<phi> (Rsp i) = Rsp (\<phi> i)"

lemma before_map:
  "inj_on f (insert x (insert y (set H))) \<Longrightarrow> before (f x) (f y) (map f H) \<longleftrightarrow> before x y H"
  by (induction H) (auto simp: inj_on_def)

lemma hev_ren_inj: "inj_on \<phi> (hid ` S) \<Longrightarrow> inj_on (hev_ren \<phi>) S"
proof (rule inj_onI)
  fix x y assume "inj_on \<phi> (hid ` S)" "x \<in> S" "y \<in> S" "hev_ren \<phi> x = hev_ren \<phi> y"
  then show "x = y" by (cases x; cases y) (auto simp: inj_on_def)
qed

lemma whist_hids: "whist H \<Longrightarrow> hid ` set H = ops_of H"
  using whist_hid by (force simp: ops_of_def)

lemma hev_ren_Inv: "Inv j = hev_ren \<phi> x \<longleftrightarrow> (\<exists>i. x = Inv i \<and> j = \<phi> i)"
  by (cases x) auto

lemma ops_of_ren: "ops_of (map (hev_ren \<phi>) H) = \<phi> ` ops_of H"
  by (auto simp: ops_of_def hev_ren_Inv image_iff)

lemma before_ren:
  assumes w: "whist H" and i: "inj_on \<phi> (ops_of H)" and x: "x \<in> set H" "y \<in> set H"
  shows "before (hev_ren \<phi> x) (hev_ren \<phi> y) (map (hev_ren \<phi>) H) \<longleftrightarrow> before x y H"
proof (rule before_map)
  have "insert x (insert y (set H)) = set H" using x by auto
  then show "inj_on (hev_ren \<phi>) (insert x (insert y (set H)))"
    using hev_ren_inj[of \<phi> "set H"] i by (simp add: whist_hids[OF w])
qed

lemma whist_ren:
  assumes w: "whist H" and i: "inj_on \<phi> (ops_of H)"
  shows "whist (map (hev_ren \<phi>) H)"
proof -
  have "inj_on (hev_ren \<phi>) (set H)" using hev_ren_inj[of \<phi> "set H"] i by (simp add: whist_hids[OF w])
  then have "distinct (map (hev_ren \<phi>) H)" using whist_distinct[OF w] by (simp add: distinct_map)
  moreover have "case hev_ren \<phi> x of
      Inv j \<Rightarrow> before (Inv j) (Rsp j) (map (hev_ren \<phi>) H) | Rsp j \<Rightarrow> Inv j \<in> set (map (hev_ren \<phi>) H)"
    if x: "x \<in> set H" for x
  proof (cases x)
    case (Inv k)
    with x have "before (Inv k) (Rsp k) H" using whist_inv[OF w] by simp
    then show ?thesis using before_ren[OF w i, of "Inv k" "Rsp k"] before_mem[of "Inv k"] Inv by simp
  next
    case (Rsp k)
    with x have "Inv k \<in> set H" using whist_rsp[OF w] by simp
    then have "hev_ren \<phi> (Inv k) \<in> hev_ren \<phi> ` set H" by blast
    then show ?thesis using Rsp by simp
  qed
  ultimately show ?thesis by (auto simp: whist_def)
qed

lemma linearizable_ren:
  assumes w: "whist H" and i: "inj_on \<phi> (ops_of H)"
    and st: "\<And>s k. k \<in> ops_of H \<Longrightarrow> stp' s (\<phi> k) = stp s k"
  shows "linearizable stp s H \<longleftrightarrow> linearizable stp' s (map (hev_ren \<phi>) H)"
  unfolding linearizable_struct
proof (rule lin_struct_rename)
  show "bij_betw \<phi> (ops_of H) (ops_of (map (hev_ren \<phi>) H))"
    using i by (simp add: bij_betw_def ops_of_ren)
  show "precedes (map (hev_ren \<phi>) H) (\<phi> k) (\<phi> j) \<longleftrightarrow> precedes H k j" if "k \<in> ops_of H" "j \<in> ops_of H" for k j
    using before_ren[OF w i, of "Rsp k" "Inv j"] that whist_rsp[OF w] by (simp add: precedes_def ops_of_def)
qed (rule st)

lemma whist_length:
  assumes w: "whist H"
  shows "length H = 2 * card (ops_of H)"
proof -
  let ?D = "ops_of H"
  have fin: "finite ?D" using whist_hids[OF w] by (metis List.finite_set finite_imageI)
  have "x \<in> Inv ` ?D \<union> Rsp ` ?D \<longleftrightarrow> x \<in> set H" for x
    using whist_rsp[OF w] by (cases x) (auto simp: ops_of_def)
  then have "set H = Inv ` ?D \<union> Rsp ` ?D" by blast
  moreover have "card (Inv ` ?D \<union> Rsp ` ?D) = card ?D + card ?D"
    using fin by (subst card_Un_disjoint) (auto simp: card_image inj_on_def)
  ultimately show ?thesis using distinct_card[OF whist_distinct[OF w]] by simp
qed

lemma renumber_spec:
  assumes wf: "wf_events evs inp outp"
  shows "\<exists>inp' outp'. wf_entries (convert_entries (renumber evs)) inp' outp' \<and>
     (\<forall>M s. linearizable (model_step M inp' outp') s (map hev_of (convert_entries (renumber evs)))
          = linearizable (model_step M inp outp) s (map hev_event evs))"
proof -
  let ?H = "map hev_event evs" and ?D = "ev_id ` set evs"
  have w: "whist ?H" using wf by (simp add: wf_events_def)
  have D: "ops_of ?H = ?D" using whist_hids[OF w] by (simp add: image_image)
  obtain \<phi> where \<phi>: "renumber evs = map (\<lambda>ev. ev\<lparr>ev_id := \<phi> (ev_id ev)\<rparr>) evs" "bij_betw \<phi> ?D {..<card ?D}"
    using renumber_bij by blast
  have inj: "inj_on \<phi> (ops_of ?H)" using \<phi>(2) by (simp add: D bij_betw_def)
  let ?\<psi> = "the_inv_into ?D \<phi>"
  have \<psi>: "?\<psi> (\<phi> i) = i" if "i \<in> ?D" for i using that inj the_inv_into_f_f D by metis
  have H': "map hev_of (convert_entries (renumber evs)) = map (hev_ren \<phi>) ?H"
    by (auto simp: convert_hev \<phi>(1) hev_event_def split: event_kind.splits)
  have len: "length evs = 2 * card ?D" using whist_length[OF w] by (simp add: D)
  have "wf_entries (convert_entries (renumber evs)) (inp \<circ> ?\<psi>) (outp \<circ> ?\<psi>)"
    unfolding wf_entries_def H'
  proof (intro conjI ballI)
    show "whist (map (hev_ren \<phi>) ?H)" by (rule whist_ren[OF w inj])
    fix e assume "e \<in> set (convert_entries (renumber evs))"
    then obtain ev where ev: "ev \<in> set evs" and e: "e = (case ev_kind ev of
        CallEvent \<Rightarrow> \<lparr>ekind = CallEntry, evalue = ev_value ev, eid = \<phi> (ev_id ev), etime = -1\<rparr>
      | ReturnEvent \<Rightarrow> \<lparr>ekind = ReturnEntry, evalue = ev_value ev, eid = \<phi> (ev_id ev), etime = -1\<rparr>)"
      by (auto simp: convert_entries_def \<phi>(1) cong: event_kind.case_cong)
    show "evalue e = (case ekind e of CallEntry \<Rightarrow> Input ((inp \<circ> ?\<psi>) (eid e)) | ReturnEntry \<Rightarrow> Output ((outp \<circ> ?\<psi>) (eid e)))"
      using wf ev by (auto simp: e wf_events_def \<psi> split: event_kind.splits)
    have "\<phi> (ev_id ev) < card ?D" using \<phi>(2) ev by (auto simp: bij_betw_def)
    then show "eid e < length (convert_entries (renumber evs)) div 2"
      by (simp add: e \<phi>(1) convert_entries_def len split: event_kind.splits)
  qed
  moreover have "linearizable (model_step M (inp \<circ> ?\<psi>) (outp \<circ> ?\<psi>)) s (map (hev_ren \<phi>) ?H)
      = linearizable (model_step M inp outp) s ?H" for M :: "('c, 'a, 'b, 'd) model_scheme" and s
    by (rule linearizable_ren[OF w inj, symmetric]) (simp add: model_step_def \<psi> D)
  ultimately show ?thesis unfolding H' by blast
qed

end
