(* ===== verification/LinTop.thy ===== *)
theory LinTop
  imports LinHist
begin

text \<open>
  The entry points of the checker (\<^verbatim>\<open>courses/dss/linearizability/src/lib.rs\<close>: \<^verbatim>\<open>check_operations\<close>,
  \<^verbatim>\<open>check_events\<close>, their variants with a timeout, \<^verbatim>\<open>wait_res\<close>). One thread per partition runs
  \<^const>\<open>check_single\<close> and sends its verdict; \<^verbatim>\<open>wait_res\<close> receives. The interleaving is an explicit
  schedule of what the receiver sees: the verdict of thread \<open>j\<close> arrives, or the timer of
  \<^verbatim>\<open>recv_timeout\<close> expires. A schedule that ends while the receiver still waits is a receiver that
  blocks forever, the value \<^const>\<open>None\<close>, as is a panic. What thread \<open>j\<close> reads from the shared \<^verbatim>\<open>kill\<close>
  flag in its \<open>n\<close>-th iteration is \<open>kills j n\<close>.
\<close>

subsection \<open>The model\<close>

datatype recv = RecvOk bool | RecvTimeout | RecvDisconnected

datatype sched = Arrive nat | Expire

text \<open>The result is the verdict and whether \<^verbatim>\<open>kill\<close> was stored. The subtraction \<^verbatim>\<open>count -= 1\<close> is checked.\<close>

fun wait_res :: "recv list \<Rightarrow> nat \<Rightarrow> nat \<Rightarrow> bool \<Rightarrow> (bool \<times> bool) option" where
  "wait_res [] cnt timeout ok = None"
| "wait_res (RecvOk res # rx) cnt timeout ok =
     (let ok' = ok \<and> res in
      if \<not> ok' then Some (ok', True)
      else if cnt = 0 then None
      else if cnt - 1 = 0 then Some (ok', False)
      else wait_res rx (cnt - 1) timeout ok')"
| "wait_res (RecvTimeout # rx) cnt timeout ok =
     (if timeout = 0 then wait_res rx cnt timeout ok else Some (ok, False))"
| "wait_res (RecvDisconnected # rx) cnt timeout ok = None"

text \<open>A thread that panics drops its sender without sending; the main thread still holds one.\<close>

fun channel_stream :: "(nat \<Rightarrow> bool option) \<Rightarrow> sched list \<Rightarrow> recv list" where
  "channel_stream result [] = []"
| "channel_stream result (Arrive j # s) =
     (case result j of
        None \<Rightarrow> channel_stream result s
      | Some res \<Rightarrow> RecvOk res # channel_stream result s)"
| "channel_stream result (Expire # s) = RecvTimeout # channel_stream result s"

definition operations_worker ::
  "('s, 'i, 'o, 'z) model_scheme \<Rightarrow> (nat \<Rightarrow> nat \<Rightarrow> bool) \<Rightarrow> ('i, 'o) operation list list \<Rightarrow> nat \<Rightarrow> bool option" where
  "operations_worker M kills partitions j = do {
     l \<leftarrow> from_entries (make_entries (partitions ! j));
     check_single M l (kills j)
   }"

definition check_operations_timeout ::
  "('s, 'i, 'o, 'z) model_scheme \<Rightarrow> ('i, 'o) operation list \<Rightarrow> nat \<Rightarrow> (nat \<Rightarrow> nat \<Rightarrow> bool) \<Rightarrow> sched list
     \<Rightarrow> bool option" where
  "check_operations_timeout M history timeout kills sched =
     (let partitions = partition M history;
          cnt = length partitions;
          result = operations_worker M kills partitions
      in do {
        (res, _) \<leftarrow> wait_res (channel_stream result sched) cnt timeout True;
        if list_all (\<lambda>j. result j \<noteq> None) [0..<cnt] then Some res else None
      })"

definition check_operations ::
  "('s, 'i, 'o, 'z) model_scheme \<Rightarrow> ('i, 'o) operation list \<Rightarrow> (nat \<Rightarrow> nat \<Rightarrow> bool) \<Rightarrow> sched list \<Rightarrow> bool option" where
  "check_operations M history kills sched = check_operations_timeout M history 0 kills sched"

definition events_worker ::
  "('s, 'i, 'o, 'z) model_scheme \<Rightarrow> (nat \<Rightarrow> nat \<Rightarrow> bool) \<Rightarrow> ('i, 'o) event list list \<Rightarrow> nat \<Rightarrow> bool option" where
  "events_worker M kills partitions j = do {
     l \<leftarrow> from_entries (convert_entries (renumber (partitions ! j)));
     check_single M l (kills j)
   }"

definition check_events_timeout ::
  "('s, 'i, 'o, 'z) model_scheme \<Rightarrow> ('i, 'o) event list \<Rightarrow> nat \<Rightarrow> (nat \<Rightarrow> nat \<Rightarrow> bool) \<Rightarrow> sched list
     \<Rightarrow> bool option" where
  "check_events_timeout M history timeout kills sched = do {
     partitions \<leftarrow> partition_event M history;
     let cnt = length partitions;
     let result = events_worker M kills partitions;
     (res, _) \<leftarrow> wait_res (channel_stream result sched) cnt timeout True;
     if list_all (\<lambda>j. result j \<noteq> None) [0..<cnt] then Some res else None
   }"

definition check_events ::
  "('s, 'i, 'o, 'z) model_scheme \<Rightarrow> ('i, 'o) event list \<Rightarrow> (nat \<Rightarrow> nat \<Rightarrow> bool) \<Rightarrow> sched list \<Rightarrow> bool option" where
  "check_events M history kills sched = check_events_timeout M history 0 kills sched"

subsection \<open>Schedules\<close>

text \<open>
  Which schedules the code can produce: every thread sends once, and \<^verbatim>\<open>kill\<close> is stored only after a
  negative verdict was received, so a thread whose verdict arrives before that read only \<^const>\<open>False\<close>.
\<close>

fun arrivals :: "sched list \<Rightarrow> nat list" where
  "arrivals [] = []"
| "arrivals (Arrive j # s) = j # arrivals s"
| "arrivals (Expire # s) = arrivals s"

fun kill_clear :: "(nat \<Rightarrow> bool option) \<Rightarrow> (nat \<Rightarrow> nat \<Rightarrow> bool) \<Rightarrow> sched list \<Rightarrow> bool" where
  "kill_clear result kills [] = True"
| "kill_clear result kills (Arrive j # s) =
     ((\<forall>n. \<not> kills j n) \<and> (result j = Some True \<longrightarrow> kill_clear result kills s))"
| "kill_clear result kills (Expire # s) = kill_clear result kills s"

definition schedule :: "(nat \<Rightarrow> bool option) \<Rightarrow> (nat \<Rightarrow> nat \<Rightarrow> bool) \<Rightarrow> nat \<Rightarrow> sched list \<Rightarrow> bool" where
  "schedule result kills cnt s \<longleftrightarrow>
     distinct (arrivals s) \<and> set (arrivals s) \<subseteq> {..<cnt} \<and> kill_clear result kills s"

definition complete :: "nat \<Rightarrow> sched list \<Rightarrow> bool" where
  "complete cnt s \<longleftrightarrow> {..<cnt} \<subseteq> set (arrivals s)"

text \<open>What a thread guarantees of its verdict: it terminates, and without \<^verbatim>\<open>kill\<close> it decides.\<close>

definition decides :: "(nat \<Rightarrow> bool option) \<Rightarrow> (nat \<Rightarrow> nat \<Rightarrow> bool) \<Rightarrow> (nat \<Rightarrow> bool) \<Rightarrow> nat \<Rightarrow> bool" where
  "decides result kills lin j \<longleftrightarrow>
     (\<exists>b. result j = Some b \<and> (b \<longrightarrow> lin j) \<and> ((\<forall>n. \<not> kills j n) \<longrightarrow> b = lin j))"

lemma wait_res_all:
  assumes "\<forall>j\<in>set (arrivals s). decides result kills lin j" "kill_clear result kills s"
    "length (arrivals s) = c" "0 < c"
  shows "\<exists>k. wait_res (channel_stream result s) c 0 True = Some (\<forall>j\<in>set (arrivals s). lin j, k)"
  using assms
proof (induction s arbitrary: c rule: arrivals.induct)
  case (2 j s)
  then have dec: "result j = Some (lin j)" by (auto simp: decides_def)
  show ?case
  proof (cases "lin j \<and> arrivals s \<noteq> []")
    case True
    with dec have "\<exists>k. wait_res (channel_stream result s) (length (arrivals s)) 0 True =
        Some (\<forall>j\<in>set (arrivals s). lin j, k)" by (intro "2.IH") (use "2.prems" in auto)
    then show ?thesis using True dec "2.prems"(3) by auto
  next
    case False
    then show ?thesis using dec "2.prems"(3) by (auto simp: Let_def)
  qed
qed auto

lemma wait_res_false:
  assumes "\<forall>j\<in>set (arrivals s). decides result kills lin j" "kill_clear result kills s"
    "wait_res (channel_stream result s) c t True = Some (False, k)"
  shows "\<exists>j\<in>set (arrivals s). \<not> lin j"
  using assms
proof (induction s arbitrary: c rule: arrivals.induct)
  case (2 j s)
  then have dec: "result j = Some (lin j)" by (auto simp: decides_def)
  then show ?case using 2 by (cases "lin j") (auto split: if_splits)
qed (auto split: if_splits)

lemma wait_res_returns:
  assumes "\<forall>j\<in>set (arrivals s). decides result kills lin j" "length (arrivals s) \<le> c" "0 < c"
    "length (arrivals s) = c \<or> (t \<noteq> 0 \<and> Expire \<in> set s)"
  shows "\<exists>r. wait_res (channel_stream result s) c t True = Some r"
  using assms
proof (induction s arbitrary: c rule: arrivals.induct)
  case (2 j s)
  then obtain b where b: "result j = Some b" by (auto simp: decides_def)
  show ?case
  proof (cases "b \<and> c \<noteq> 1")
    case True
    have "\<exists>r. wait_res (channel_stream result s) (c - 1) t True = Some r"
      by (rule "2.IH") (use "2.prems" True in auto)
    then show ?thesis using True b "2.prems"(3) by auto
  next
    case False
    then show ?thesis using b "2.prems"(3) by auto
  qed
qed auto

text \<open>The three facts for a whole run, in terms of the number of threads.\<close>

lemma complete_arrivals:
  assumes "schedule result kills cnt s" "complete cnt s"
  shows "set (arrivals s) = {..<cnt}" "length (arrivals s) = cnt"
proof -
  show *: "set (arrivals s) = {..<cnt}" using assms by (auto simp: schedule_def complete_def)
  then show "length (arrivals s) = cnt"
    using assms(1) distinct_card[of "arrivals s"] by (simp add: schedule_def)
qed

lemma run_decides:
  assumes "\<forall>j<cnt. decides result kills lin j" "schedule result kills cnt s" "complete cnt s" "0 < cnt"
  shows "\<exists>k. wait_res (channel_stream result s) cnt 0 True = Some (\<forall>j<cnt. lin j, k)"
proof -
  note arr = complete_arrivals[OF assms(2,3)]
  have "kill_clear result kills s" using assms(2) by (simp add: schedule_def)
  then have "\<exists>k. wait_res (channel_stream result s) cnt 0 True = Some (\<forall>j\<in>set (arrivals s). lin j, k)"
    using assms(1,4) arr by (intro wait_res_all) auto
  then show ?thesis by (simp only: arr lessThan_iff Ball_def)
qed

lemma results_joined: "\<forall>j<cnt. decides result kills lin j \<Longrightarrow> list_all (\<lambda>j. result j \<noteq> None) [0..<cnt]"
  by (auto simp: list_all_iff decides_def)

context state_equality
begin

lemma operations_worker_decides:
  assumes "timed (parts ! j)"
  shows "decides (operations_worker M kills parts) kills (\<lambda>j. ops_linearizable (step M) (init_state M) (parts ! j)) j"
  using check_single_entries[OF make_entries_wf[OF assms], of "kills j"]
  unfolding make_entries_linearizable
  by (auto simp: decides_def operations_worker_def)

lemma events_worker_decides:
  assumes "wf_events (parts ! j) inp outp"
  shows "decides (events_worker M kills parts) kills
     (\<lambda>j. linearizable (model_step M inp outp) (init_state M) (map hev_event (parts ! j))) j"
proof -
  from renumber_spec[OF assms] obtain inp' outp' where
    wf: "wf_entries (convert_entries (renumber (parts ! j))) inp' outp'"
    and lin: "\<forall>(N::('s, 'i, 'o, 'z) model_scheme) s.
      linearizable (model_step N inp' outp') s (map hev_of (convert_entries (renumber (parts ! j))))
      = linearizable (model_step N inp outp) s (map hev_event (parts ! j))"
    by (elim exE conjE)
  show ?thesis
    using check_single_entries[OF wf, of "kills j"] unfolding lin[rule_format]
    by (auto simp: decides_def events_worker_def)
qed

lemma check_operations_decides:
  assumes "\<forall>part\<in>set (partition M history). timed part" "partition M history \<noteq> []"
    and "schedule (operations_worker M kills (partition M history)) kills (length (partition M history)) s"
    and "complete (length (partition M history)) s"
  shows "check_operations M history kills s =
           Some (\<forall>part\<in>set (partition M history). ops_linearizable (step M) (init_state M) part)"
proof -
  let ?parts = "partition M history"
  let ?lin = "\<lambda>j. ops_linearizable (step M) (init_state M) (?parts ! j)"
  have d: "\<forall>j<length ?parts. decides (operations_worker M kills ?parts) kills ?lin j"
    using assms(1) by (auto intro!: operations_worker_decides)
  have eq: "(\<forall>j<length ?parts. ?lin j) \<longleftrightarrow> (\<forall>part\<in>set ?parts. ops_linearizable (step M) (init_state M) part)"
    by (simp add: all_set_conv_all_nth)
  obtain k where "wait_res (channel_stream (operations_worker M kills ?parts) s) (length ?parts) 0 True
      = Some (\<forall>j<length ?parts. ?lin j, k)" using run_decides[OF d assms(3,4)] assms(2) by auto
  then show ?thesis
    unfolding check_operations_def check_operations_timeout_def Let_def eq
    using results_joined[OF d] by simp
qed

lemma check_events_decides:
  assumes "partition_event M history = Some parts" "\<forall>part\<in>set parts. wf_events part inp outp" "parts \<noteq> []"
    and "schedule (events_worker M kills parts) kills (length parts) s" "complete (length parts) s"
  shows "check_events M history kills s =
           Some (\<forall>part\<in>set parts. linearizable (model_step M inp outp) (init_state M) (map hev_event part))"
proof -
  let ?lin = "\<lambda>j. linearizable (model_step M inp outp) (init_state M) (map hev_event (parts ! j))"
  have d: "\<forall>j<length parts. decides (events_worker M kills parts) kills ?lin j"
    using assms(2) by (auto intro!: events_worker_decides)
  have eq: "(\<forall>j<length parts. ?lin j) \<longleftrightarrow>
      (\<forall>part\<in>set parts. linearizable (model_step M inp outp) (init_state M) (map hev_event part))"
    by (simp add: all_set_conv_all_nth)
  obtain k where "wait_res (channel_stream (events_worker M kills parts) s) (length parts) 0 True
      = Some (\<forall>j<length parts. ?lin j, k)" using run_decides[OF d assms(4,5)] assms(3) by auto
  then show ?thesis
    unfolding check_events_def check_events_timeout_def Let_def eq
    using results_joined[OF d] assms(1) by simp
qed

lemma check_operations_timeout_sound:
  assumes "\<forall>part\<in>set (partition M history). timed part"
    and "schedule (operations_worker M kills (partition M history)) kills (length (partition M history)) s"
    and "check_operations_timeout M history t kills s = Some False"
  shows "\<exists>part\<in>set (partition M history). \<not> ops_linearizable (step M) (init_state M) part"
proof -
  let ?parts = "partition M history" and ?res = "operations_worker M kills (partition M history)"
  let ?lin = "\<lambda>j. ops_linearizable (step M) (init_state M) (?parts ! j)"
  have d: "\<forall>j\<in>set (arrivals s). decides ?res kills ?lin j"
    using assms(1,2) by (auto simp: schedule_def intro!: operations_worker_decides)
  obtain k where "wait_res (channel_stream ?res s) (length ?parts) t True = Some (False, k)"
    using assms(3) by (auto simp: check_operations_timeout_def Let_def split: Option.bind_splits if_splits)
  from wait_res_false[OF d _ this] assms(2) obtain j where "j \<in> set (arrivals s)" "\<not> ?lin j"
    by (auto simp: schedule_def)
  then show ?thesis using assms(2) by (auto simp: schedule_def intro!: bexI[of _ "?parts ! j"])
qed

lemma check_operations_timeout_returns:
  assumes "\<forall>part\<in>set (partition M history). timed part" "partition M history \<noteq> []"
    and "schedule (operations_worker M kills (partition M history)) kills (length (partition M history)) s"
    and "complete (length (partition M history)) s \<or> (t \<noteq> 0 \<and> Expire \<in> set s)"
  shows "\<exists>b. check_operations_timeout M history t kills s = Some b"
proof -
  let ?parts = "partition M history" and ?res = "operations_worker M kills (partition M history)"
  let ?lin = "\<lambda>j. ops_linearizable (step M) (init_state M) (?parts ! j)"
  have d: "\<forall>j<length ?parts. decides ?res kills ?lin j"
    using assms(1) by (auto intro!: operations_worker_decides)
  have sub: "distinct (arrivals s)" "set (arrivals s) \<subseteq> {..<length ?parts}"
    using assms(3) by (auto simp: schedule_def)
  then have "length (arrivals s) \<le> length ?parts"
    using distinct_card[OF sub(1)] card_mono[OF _ sub(2)] by simp
  moreover have "length (arrivals s) = length ?parts \<or> (t \<noteq> 0 \<and> Expire \<in> set s)"
    using assms(4) complete_arrivals(2)[OF assms(3)] by blast
  ultimately obtain r where "wait_res (channel_stream ?res s) (length ?parts) t True = Some r"
    using wait_res_returns[of s ?res kills ?lin "length ?parts" t] d sub assms(2) by auto
  then show ?thesis
    using results_joined[OF d] by (cases r) (simp add: check_operations_timeout_def Let_def)
qed

end

end
