(* ===== verification/KvModel.thy ===== *)
theory KvModel
  imports LinTop
begin

text \<open>
  The key-value model handed to the checker (\<^verbatim>\<open>courses/dss/linearizability/src/models.rs\<close>). It describes
  one key; \<^verbatim>\<open>partition\<close> and \<^verbatim>\<open>partition_event\<close> split a history by key. The order in which a \<^verbatim>\<open>HashMap\<close>
  yields its keys is the parameter \<open>ord\<close>. The theorems relate the checker's verdict on a whole history to
  the store with all keys, through locality.
\<close>

subsection \<open>The model\<close>

datatype op = GET | PUT | APPEND

record kv_input =
  kv_op :: op
  kv_key :: string
  kv_value :: string

record kv_output =
  out_value :: string

text \<open>\<^verbatim>\<open>map.entry(k).or_insert_with(Vec::new).push(v)\<close> on a map kept as an association list.\<close>

fun entry_push :: "'k \<Rightarrow> 'v \<Rightarrow> ('k \<times> 'v list) list \<Rightarrow> ('k \<times> 'v list) list" where
  "entry_push k v [] = [(k, [v])]"
| "entry_push k v ((k', vs) # m) = (if k' = k then (k', vs @ [v]) # m else (k', vs) # entry_push k v m)"

definition map_values :: "('k list \<Rightarrow> 'k list) \<Rightarrow> ('k \<times> 'v list) list \<Rightarrow> 'v list list" where
  "map_values ord m = map (\<lambda>k. case map_of m k of None \<Rightarrow> [] | Some vs \<Rightarrow> vs) (ord (map fst m))"

fun kv_partition_loop ::
  "(string \<times> (kv_input, kv_output) operation list) list \<Rightarrow> (kv_input, kv_output) operation list \<Rightarrow>
   (string \<times> (kv_input, kv_output) operation list) list" where
  "kv_partition_loop m [] = m"
| "kv_partition_loop m (p # rest) = kv_partition_loop (entry_push (kv_key (op_input p)) p m) rest"

definition kv_partition ::
  "(string list \<Rightarrow> string list) \<Rightarrow> (kv_input, kv_output) operation list \<Rightarrow> (kv_input, kv_output) operation list list" where
  "kv_partition ord history = map_values ord (kv_partition_loop [] history)"

fun kv_partition_event_loop ::
  "(string \<times> (kv_input, kv_output) event list) list \<Rightarrow> (nat \<Rightarrow> string option) \<Rightarrow> (kv_input, kv_output) event list \<Rightarrow>
   (string \<times> (kv_input, kv_output) event list) list option" where
  "kv_partition_event_loop m mt [] = Some m"
| "kv_partition_event_loop m mt (ev # rest) =
     (case ev_kind ev of
        CallEvent \<Rightarrow> do {
          i \<leftarrow> val_input (ev_value ev);
          kv_partition_event_loop (entry_push (kv_key i) ev m) (mt(ev_id ev \<mapsto> kv_key i)) rest
        }
      | ReturnEvent \<Rightarrow> do {
          key \<leftarrow> mt (ev_id ev);
          kv_partition_event_loop (entry_push key ev m) mt rest
        })"

definition kv_partition_event ::
  "(string list \<Rightarrow> string list) \<Rightarrow> (kv_input, kv_output) event list \<Rightarrow> (kv_input, kv_output) event list list option" where
  "kv_partition_event ord history = map_option (map_values ord) (kv_partition_event_loop [] (\<lambda>_. None) history)"

definition kv_init :: string where
  "kv_init = ''''"

definition kv_step :: "string \<Rightarrow> kv_input \<Rightarrow> kv_output \<Rightarrow> bool \<times> string" where
  "kv_step state inp outp =
     (case kv_op inp of
        GET \<Rightarrow> (out_value outp = state, state)
      | PUT \<Rightarrow> (True, kv_value inp)
      | APPEND \<Rightarrow> (True, state @ kv_value inp))"

definition kv_model :: "(string list \<Rightarrow> string list) \<Rightarrow> (string, kv_input, kv_output) model" where
  "kv_model ord = \<lparr>partition = kv_partition ord, partition_event = kv_partition_event ord,
     init_state = kv_init, step = kv_step, equal_state = default_equal\<rparr>"

lemma kv_model_simps [simp]:
  "partition (kv_model ord) = kv_partition ord" "partition_event (kv_model ord) = kv_partition_event ord"
  "init_state (kv_model ord) = ''''" "step (kv_model ord) = kv_step" "equal_state (kv_model ord) = default_equal"
  by (simp_all add: kv_model_def kv_init_def)

interpretation kv: state_equality "kv_model ord" for ord
  by unfold_locales (simp add: default_equal_def)

subsection \<open>The store with all keys\<close>

definition kv_object :: "(string \<Rightarrow> string) \<Rightarrow> kv_input \<Rightarrow> kv_output \<Rightarrow> bool \<times> (string \<Rightarrow> string)" where
  "kv_object \<sigma> inp outp =
     (case kv_op inp of
        GET \<Rightarrow> (out_value outp = \<sigma> (kv_key inp), \<sigma>)
      | PUT \<Rightarrow> (True, \<sigma>(kv_key inp := kv_value inp))
      | APPEND \<Rightarrow> (True, \<sigma>(kv_key inp := \<sigma> (kv_key inp) @ kv_value inp)))"

lemma kv_object_keyed:
  "kv_object \<sigma> (inp i) (outp i) = keyed_step (\<lambda>i. kv_key (inp i)) (\<lambda>s i. kv_step s (inp i) (outp i)) \<sigma> i"
  by (simp add: kv_object_def keyed_step_def kv_step_def split: op.splits)

definition iteration_order :: "(string list \<Rightarrow> string list) \<Rightarrow> bool" where
  "iteration_order ord \<longleftrightarrow> (\<forall>ks. mset (ord ks) = mset ks)"

subsection \<open>Partitions\<close>

abbreviation found :: "('k \<times> 'v list) list \<Rightarrow> 'k \<Rightarrow> 'v list" where
  "found m k \<equiv> (case map_of m k of None \<Rightarrow> [] | Some vs \<Rightarrow> vs)"

lemma found_push [simp]: "found (entry_push k v m) k' = (if k' = k then found m k @ [v] else found m k')"
  by (induction k v m rule: entry_push.induct) auto

lemma keys_push [simp]: "fst ` set (entry_push k v m) = insert k (fst ` set m)"
  by (induction k v m rule: entry_push.induct) auto

lemma partition_loop_found:
  "found (kv_partition_loop m ops) k = found m k @ filter (\<lambda>p. kv_key (op_input p) = k) ops"
  by (induction m ops rule: kv_partition_loop.induct) auto

lemma partition_loop_keys:
  "fst ` set (kv_partition_loop m ops) = fst ` set m \<union> (\<lambda>p. kv_key (op_input p)) ` set ops"
  by (induction m ops rule: kv_partition_loop.induct) auto

lemma kv_partition_set:
  assumes "iteration_order ord"
  shows "set (kv_partition ord ops) =
           (\<lambda>k. filter (\<lambda>p. kv_key (op_input p) = k) ops) ` (\<lambda>p. kv_key (op_input p)) ` set ops"
proof -
  let ?m = "kv_partition_loop [] ops"
  have "set (ord (map fst ?m)) = fst ` set ?m"
    using assms unfolding iteration_order_def by (metis list.set_map set_mset_mset)
  then show ?thesis
    by (simp add: kv_partition_def map_values_def partition_loop_found partition_loop_keys)
qed

lemma filter_via_nth: "filter P xs = map ((!) xs) (filter (\<lambda>i. P (xs ! i)) [0..<length xs])"
  using filter_map[of P "(!) xs" "[0..<length xs]"] by (simp add: map_nth o_def)

lemma ops_part:
  assumes "timed ops"
  shows "ops_linearizable stp s (filter (\<lambda>p. kv_key (op_input p) = k) ops) \<longleftrightarrow>
     linearizable (\<lambda>s i. stp s (op_input (ops ! i)) (op_output (ops ! i))) s
       (key_part (\<lambda>i. kv_key (op_input (ops ! i))) k (map hev_of (make_entries ops)))"
proof -
  let ?H = "map hev_of (make_entries ops)"
  define idx where "idx = filter (\<lambda>i. kv_key (op_input (ops ! i)) = k) [0..<length ops]"
  let ?sub = "filter (\<lambda>p. kv_key (op_input p) = k) ops"
  let ?part = "key_part (\<lambda>i. kv_key (op_input (ops ! i))) k ?H"
  have sub: "?sub = map ((!) ops) idx" unfolding idx_def by (rule filter_via_nth)
  have d: "distinct ?H" using make_entries_whist[OF assms] by (rule whist_distinct)
  have D: "ops_of ?part = set idx"
    using make_entries_ops[of ops] by (auto simp: idx_def ops_of_def)
  have mono: "idx ! i < idx ! j \<longleftrightarrow> i < j" if "i < length idx" "j < length idx" for i j
  proof -
    have "sorted_wrt (<) idx" unfolding idx_def by (rule sorted_wrt_filter) simp
    then show ?thesis using that by (metis linorder_neqE_nat not_less_iff_gr_or_eq sorted_wrt_nth_less)
  qed
  have in_range: "idx ! i < length ops" if "i < length idx" for i
    using nth_mem[OF that] by (auto simp: idx_def)
  have key: "kv_key (op_input (ops ! (idx ! i))) = k" if "i < length idx" for i
    using nth_mem[OF that] by (auto simp: idx_def)
  show ?thesis unfolding ops_linearizable_def linearizable_struct sub length_map
  proof (rule lin_struct_rename[of "(!) idx"])
    have "distinct idx" by (simp add: idx_def)
    then show "bij_betw ((!) idx) {..<length idx} (ops_of ?part)"
      unfolding D by (rule bij_betw_nth) auto
    fix i j assume "i \<in> {..<length idx}" "j \<in> {..<length idx}"
    then have ij: "i < length idx" "j < length idx" by auto
    have "precedes ?part (idx ! i) (idx ! j) \<longleftrightarrow> precedes ?H (idx ! i) (idx ! j)"
      unfolding precedes_def by (rule before_filter[OF d]) (simp_all add: key ij)
    also have "\<dots> \<longleftrightarrow> rt_precedes ops (idx ! i) (idx ! j)"
      unfolding precedes_def by (rule make_entries_before(1)) (simp_all add: in_range ij)
    finally show "precedes ?part (idx ! i) (idx ! j) \<longleftrightarrow> rt_precedes (map ((!) ops) idx) i j"
      using ij mono by (simp add: rt_precedes_def)
  qed simp
qed

lemma empty_ops_linearizable: "ops_linearizable stp s []"
  by (auto simp: ops_linearizable_def lin_struct_def)

lemma kv_ops_local:
  assumes "timed ops"
  shows "ops_linearizable kv_object (\<lambda>_. '''') ops \<longleftrightarrow>
     (\<forall>k. ops_linearizable kv_step '''' (filter (\<lambda>p. kv_key (op_input p) = k) ops))"
proof -
  let ?key = "\<lambda>i. kv_key (op_input (ops ! i))" and ?H = "map hev_of (make_entries ops)"
  let ?stp = "\<lambda>s i. kv_step s (op_input (ops ! i)) (op_output (ops ! i))"
  have "ops_linearizable kv_object (\<lambda>_. '''') ops \<longleftrightarrow> linearizable (keyed_step ?key ?stp) (\<lambda>_. '''') ?H"
    unfolding ops_linearizable_def linearizable_struct
    by (rule lin_struct_cong)
      (auto simp: make_entries_ops precedes_def make_entries_before
        kv_object_keyed[of _ "\<lambda>i. op_input (ops ! i)" _ "\<lambda>i. op_output (ops ! i)"])
  also have "\<dots> \<longleftrightarrow> (\<forall>k. linearizable ?stp '''' (key_part ?key k ?H))"
    by (rule lin_local[OF make_entries_whist[OF assms]])
  finally show ?thesis unfolding ops_part[OF assms, symmetric] .
qed

lemma kv_partition_linearizable:
  assumes "iteration_order ord" "timed ops"
  shows "(\<forall>part\<in>set (kv_partition ord ops). ops_linearizable kv_step '''' part) \<longleftrightarrow>
     ops_linearizable kv_object (\<lambda>_. '''') ops"
proof -
  have "ops_linearizable kv_step '''' (filter (\<lambda>p. kv_key (op_input p) = k) ops)"
    if "k \<notin> (\<lambda>p. kv_key (op_input p)) ` set ops" for k
  proof -
    have "filter (\<lambda>p. kv_key (op_input p) = k) ops = []" using that by (auto simp: filter_empty_conv)
    then show ?thesis by (simp only: empty_ops_linearizable)
  qed
  then show ?thesis unfolding kv_ops_local[OF assms(2)] kv_partition_set[OF assms(1)] by blast
qed

lemma kv_partition_timed: "iteration_order ord \<Longrightarrow> timed ops \<Longrightarrow> part \<in> set (kv_partition ord ops) \<Longrightarrow> timed part"
  by (auto simp: kv_partition_set timed_def)

lemma kv_partition_Nil: "iteration_order ord \<Longrightarrow> kv_partition ord ops = [] \<longleftrightarrow> ops = []"
  using kv_partition_set[of ord ops] by auto

subsection \<open>Partitions of an event log\<close>

fun calls_first :: "nat set \<Rightarrow> hev list \<Rightarrow> bool" where
  "calls_first D [] = True"
| "calls_first D (Inv i # H) = calls_first (insert i D) H"
| "calls_first D (Rsp i # H) = (i \<in> D \<and> calls_first D H)"

lemma calls_firstI:
  "distinct H \<Longrightarrow> \<forall>i. Rsp i \<in> set H \<longrightarrow> i \<in> D \<or> before (Inv i) (Rsp i) H \<Longrightarrow> calls_first D H"
proof (induction D H rule: calls_first.induct)
  case (2 D i H)
  have "calls_first (insert i D) H"
    by (rule "2.IH") (use "2.prems" in \<open>auto split: if_splits\<close>)
  then show ?case by simp
next
  case (3 D i H)
  then show ?case using before_mem[of "Inv i" "Rsp i" H] by auto
qed auto

lemma whist_calls_first: "whist H \<Longrightarrow> calls_first {} H"
  by (rule calls_firstI) (auto simp: whist_distinct whist_rsp whist_inv)

lemma partition_event_loop_spec:
  assumes "calls_first D (map hev_event evs)" "\<forall>i\<in>D. mt i = Some (kv_key (inp i))"
    and "\<forall>ev\<in>set evs. ev_value ev =
        (case ev_kind ev of CallEvent \<Rightarrow> Input (inp (ev_id ev)) | ReturnEvent \<Rightarrow> Output (outp (ev_id ev)))"
  shows "\<exists>m'. kv_partition_event_loop m mt evs = Some m' \<and>
     (\<forall>k. found m' k = found m k @ filter (\<lambda>ev. kv_key (inp (ev_id ev)) = k) evs) \<and>
     fst ` set m' = fst ` set m \<union> (\<lambda>ev. kv_key (inp (ev_id ev))) ` set evs"
  using assms
proof (induction evs arbitrary: D m mt)
  case (Cons ev evs)
  let ?k = "kv_key (inp (ev_id ev))"
  obtain mt' D' where next_loop: "kv_partition_event_loop m mt (ev # evs) = kv_partition_event_loop (entry_push ?k ev m) mt' evs"
    and inv: "calls_first D' (map hev_event evs)" "\<forall>i\<in>D'. mt' i = Some (kv_key (inp i))"
  proof (cases "ev_kind ev")
    case CallEvent
    with Cons.prems show ?thesis
      by (intro that[of "mt(ev_id ev \<mapsto> ?k)" "insert (ev_id ev) D"]) (auto simp: hev_event_def[of ev])
  next
    case ReturnEvent
    with Cons.prems show ?thesis by (intro that[of mt D]) (auto simp: hev_event_def[of ev])
  qed
  obtain m' where "kv_partition_event_loop (entry_push ?k ev m) mt' evs = Some m'"
    "\<forall>k. found m' k = found (entry_push ?k ev m) k @ filter (\<lambda>ev. kv_key (inp (ev_id ev)) = k) evs"
    "fst ` set m' = fst ` set (entry_push ?k ev m) \<union> (\<lambda>ev. kv_key (inp (ev_id ev))) ` set evs"
    using Cons.IH[OF inv, of "entry_push ?k ev m"] Cons.prems(3) by auto
  then show ?case unfolding next_loop by auto
qed simp

lemma kv_partition_event_set:
  assumes "iteration_order ord" "wf_events evs inp outp"
  shows "\<exists>parts. kv_partition_event ord evs = Some parts \<and>
     set parts = (\<lambda>k. filter (\<lambda>ev. kv_key (inp (ev_id ev)) = k) evs) ` (\<lambda>ev. kv_key (inp (ev_id ev))) ` set evs"
proof -
  obtain m where m: "kv_partition_event_loop [] (\<lambda>_. None) evs = Some m"
    "\<forall>k. found m k = filter (\<lambda>ev. kv_key (inp (ev_id ev)) = k) evs"
    "fst ` set m = (\<lambda>ev. kv_key (inp (ev_id ev))) ` set evs"
    using partition_event_loop_spec[of "{}" evs "\<lambda>_. None" inp outp "[]"] assms(2)
    by (auto simp: wf_events_def whist_calls_first)
  have "set (ord (map fst m)) = fst ` set m"
    using assms(1) unfolding iteration_order_def by (metis list.set_map set_mset_mset)
  then show ?thesis using m by (simp add: kv_partition_event_def map_values_def)
qed

lemma whist_key_part: "whist H \<Longrightarrow> whist (key_part key k H)"
  unfolding whist_def
  by (auto simp: before_filter split: hev.splits dest!: bspec)

lemma kv_event_part:
  assumes "wf_events evs inp outp"
  shows "wf_events (filter (\<lambda>ev. kv_key (inp (ev_id ev)) = k) evs) inp outp"
    and "map hev_event (filter (\<lambda>ev. kv_key (inp (ev_id ev)) = k) evs) =
           key_part (\<lambda>i. kv_key (inp i)) k (map hev_event evs)"
proof -
  show eq: "map hev_event (filter (\<lambda>ev. kv_key (inp (ev_id ev)) = k) evs) =
           key_part (\<lambda>i. kv_key (inp i)) k (map hev_event evs)"
    by (simp add: filter_map o_def)
  show "wf_events (filter (\<lambda>ev. kv_key (inp (ev_id ev)) = k) evs) inp outp"
    using assms unfolding wf_events_def eq by (auto intro: whist_key_part)
qed

lemma kv_events_local:
  assumes wf: "wf_events evs inp outp"
    and parts: "set parts = (\<lambda>k. filter (\<lambda>ev. kv_key (inp (ev_id ev)) = k) evs) ` (\<lambda>ev. kv_key (inp (ev_id ev))) ` set evs"
  shows "(\<forall>part\<in>set parts. linearizable (model_step (kv_model ord) inp outp) '''' (map hev_event part)) \<longleftrightarrow>
     linearizable (\<lambda>\<sigma> i. kv_object \<sigma> (inp i) (outp i)) (\<lambda>_. '''') (map hev_event evs)"
proof -
  let ?key = "\<lambda>i. kv_key (inp i)" and ?H = "map hev_event evs" and ?stp = "\<lambda>s i. kv_step s (inp i) (outp i)"
  have w: "whist ?H" using wf by (simp add: wf_events_def)
  have ms: "model_step (kv_model ord) inp outp = ?stp" by (simp add: model_step_def fun_eq_iff)
  have empty: "linearizable ?stp '''' (key_part ?key k ?H)" if "k \<notin> (\<lambda>ev. ?key (ev_id ev)) ` set evs" for k
  proof -
    have "key_part ?key k ?H = []" using that by (auto simp: filter_empty_conv)
    then show ?thesis by (simp only: lin_Nil)
  qed
  have "linearizable (\<lambda>\<sigma> i. kv_object \<sigma> (inp i) (outp i)) (\<lambda>_. '''') ?H \<longleftrightarrow>
      (\<forall>k. linearizable ?stp '''' (key_part ?key k ?H))"
    unfolding kv_object_keyed by (rule lin_local[OF w])
  also have "\<dots> \<longleftrightarrow> (\<forall>k\<in>(\<lambda>ev. ?key (ev_id ev)) ` set evs. linearizable ?stp '''' (key_part ?key k ?H))"
    using empty by blast
  finally show ?thesis unfolding parts ms ball_simps kv_event_part(2)[OF wf] by simp
qed

end
