(* ===== verification/FileSys.thy ===== *)
theory FileSys
  imports Prelude
begin

text \<open>
  What the key-value engines use of the file system and of the standard library's buffered files.
  A directory maps names to inodes or to subdirectories; an inode holds bytes and outlives its
  name as long as a handle is open, which is how a removed log file stays readable. Files are opened
  for reading, or for appending with creation, and writes to the latter go to the end of the file.
  A handle for reading is modelled by its inode and position; the buffer of a \<^verbatim>\<open>BufReader\<close> is
  transparent because log files only grow. The buffer of a \<^verbatim>\<open>BufWriter\<close> is explicit, since bytes in it
  are not visible to readers.
\<close>

subsection \<open>Directories and inodes\<close>

datatype dent = FileEnt nat | DirEnt

record fs =
  dents :: "(string \<times> dent) list"
  inodes :: "nat \<Rightarrow> byte list"
  next_ino :: nat

datatype io_error = NotFound | IsADirectory | BrokenPipe

definition fs_empty :: fs where
  "fs_empty = \<lparr>dents = [], inodes = (\<lambda>_. []), next_ino = 0\<rparr>"

definition fs_open_read :: "string \<Rightarrow> fs \<Rightarrow> io_error + nat" where
  "fs_open_read name d =
     (case map_of (dents d) name of
        None \<Rightarrow> Inl NotFound
      | Some DirEnt \<Rightarrow> Inl IsADirectory
      | Some (FileEnt i) \<Rightarrow> Inr i)"

definition fs_open_append :: "string \<Rightarrow> fs \<Rightarrow> io_error + (nat \<times> fs)" where
  "fs_open_append name d =
     (case map_of (dents d) name of
        Some DirEnt \<Rightarrow> Inl IsADirectory
      | Some (FileEnt i) \<Rightarrow> Inr (i, d)
      | None \<Rightarrow> Inr (next_ino d, d\<lparr>dents := (name, FileEnt (next_ino d)) # dents d,
                                 inodes := (inodes d)(next_ino d := []), next_ino := Suc (next_ino d)\<rparr>))"

definition fs_remove_file :: "string \<Rightarrow> fs \<Rightarrow> io_error + fs" where
  "fs_remove_file name d =
     (case map_of (dents d) name of
        None \<Rightarrow> Inl NotFound
      | Some DirEnt \<Rightarrow> Inl IsADirectory
      | Some (FileEnt i) \<Rightarrow> Inr (d\<lparr>dents := filter (\<lambda>(n, _). n \<noteq> name) (dents d)\<rparr>))"

definition fs_append :: "nat \<Rightarrow> byte list \<Rightarrow> fs \<Rightarrow> fs" where
  "fs_append i bytes d = d\<lparr>inodes := (inodes d)(i := inodes d i @ bytes)\<rparr>"

definition fs_read :: "nat \<Rightarrow> nat \<Rightarrow> nat \<Rightarrow> fs \<Rightarrow> byte list" where
  "fs_read i pos n d = take n (drop pos (inodes d i))"

definition fs_wf :: "fs \<Rightarrow> bool" where
  "fs_wf d \<longleftrightarrow> distinct (map fst (dents d)) \<and>
     (\<forall>n i. (n, FileEnt i) \<in> set (dents d) \<longrightarrow> i < next_ino d) \<and>
     (\<forall>n m i. (n, FileEnt i) \<in> set (dents d) \<longrightarrow> (m, FileEnt i) \<in> set (dents d) \<longrightarrow> n = m)"

lemma fs_wf_empty [simp]: "fs_wf fs_empty"
  by (simp add: fs_wf_def fs_empty_def)

lemma dent_iff: "fs_wf d \<Longrightarrow> map_of (dents d) n = Some e \<longleftrightarrow> (n, e) \<in> set (dents d)"
  by (simp add: fs_wf_def map_of_eq_Some_iff)

lemma fs_append_simps [simp]:
  "dents (fs_append i b d) = dents d" "next_ino (fs_append i b d) = next_ino d"
  "inodes (fs_append i b d) j = (if j = i then inodes d i @ b else inodes d j)"
  by (simp_all add: fs_append_def)

lemma fs_append_Nil [simp]: "fs_append i [] d = d"
  by (simp add: fs_append_def)

lemma fs_wf_append [simp]: "fs_wf (fs_append i b d) = fs_wf d"
  by (simp add: fs_wf_def)

lemma open_append_new:
  assumes "fs_wf d" "map_of (dents d) name = None"
  shows "\<exists>d'. fs_open_append name d = Inr (next_ino d, d') \<and> fs_wf d' \<and>
           set (dents d') = insert (name, FileEnt (next_ino d)) (set (dents d)) \<and>
           inodes d' = (inodes d)(next_ino d := []) \<and> next_ino d' = Suc (next_ino d)"
proof -
  let ?d = "d\<lparr>dents := (name, FileEnt (next_ino d)) # dents d, inodes := (inodes d)(next_ino d := []),
      next_ino := Suc (next_ino d)\<rparr>"
  have n: "name \<notin> fst ` set (dents d)" using assms(2) by (simp add: map_of_eq_None_iff)
  have "fs_wf ?d" using assms(1) n unfolding fs_wf_def by (auto intro: less_SucI)
  then show ?thesis using assms(2) by (simp add: fs_open_append_def)
qed

lemma open_read_ent: "fs_wf d \<Longrightarrow> (name, FileEnt i) \<in> set (dents d) \<Longrightarrow> fs_open_read name d = Inr i"
  by (simp add: fs_open_read_def dent_iff[symmetric])

lemma remove_file_ent:
  assumes "fs_wf d" "(name, FileEnt i) \<in> set (dents d)"
  shows "\<exists>d'. fs_remove_file name d = Inr d' \<and> fs_wf d' \<and>
           set (dents d') = {p \<in> set (dents d). fst p \<noteq> name} \<and> inodes d' = inodes d \<and> next_ino d' = next_ino d"
proof -
  let ?d = "d\<lparr>dents := filter (\<lambda>(n, _). n \<noteq> name) (dents d)\<rparr>"
  have "distinct (map fst (filter (\<lambda>(n, _). n \<noteq> name) (dents d)))"
    using assms(1) by (simp add: fs_wf_def distinct_map_filter)
  then have "fs_wf ?d" using assms(1) unfolding fs_wf_def by auto
  then show ?thesis using assms by (auto simp: fs_remove_file_def dent_iff[symmetric])
qed

subsection \<open>Buffered handles\<close>

record reader =
  r_ino :: nat
  r_pos :: nat

record writer =
  w_ino :: nat
  w_pos :: nat
  w_buf :: "byte list"

definition buf_capacity :: nat where
  "buf_capacity = 8192"

end
