(* ===== verification/KvLog.thy ===== *)
theory KvLog
  imports FileSys "HOL-Library.Char_ord" "HOL-Library.List_Lexorder" "HOL-Library.Multiset"
begin

text \<open>
  The log files of the key-value engines (\<^verbatim>\<open>courses/rust/projects/project-2/src/kv.rs\<close>; projects 3 to 5
  carry the same functions): commands and their positions, the buffered handles that count positions,
  the names of log files, and the replay of a log into the index.

  Serialization is the work of the \<^verbatim>\<open>serde_json\<close> crate, so it is a parameter: the record \<open>kv_env\<close> holds the
  encoder, the decoder of one value, and the decoder of a stream of values, which yields each command with
  the offset after it and whether it ended in an error. \<open>serde_ok\<close> states what the engines rely on.
\<close>

subsection \<open>Commands\<close>

datatype command = CSet (cmd_key: string) (cmd_value: string) | CRemove (cmd_key: string)

record command_pos =
  cp_gen :: nat
  cp_pos :: nat
  cp_len :: nat

definition mk_pos :: "nat \<Rightarrow> nat \<Rightarrow> nat \<Rightarrow> command_pos" where
  "mk_pos gen start stop = \<lparr>cp_gen = gen, cp_pos = start, cp_len = stop - start\<rparr>"

lemma mk_pos_sel [simp]: "cp_gen (mk_pos g a b) = g" "cp_pos (mk_pos g a b) = a" "cp_len (mk_pos g a b) = b - a"
  by (simp_all add: mk_pos_def)

type_synonym kv_index = "(string \<times> command_pos) list"

record kv_env =
  serialize :: "command \<Rightarrow> byte list"
  from_reader :: "byte list \<Rightarrow> command option"
  stream :: "byte list \<Rightarrow> (command \<times> nat) list \<times> bool"
  key_order :: "nat list \<Rightarrow> nat list"

datatype kvs_error = Io io_error | Serde | KeyNotFound | UnexpectedCommandType | Utf8 | Sled | StringError string

fun items :: "kv_env \<Rightarrow> nat \<Rightarrow> command list \<Rightarrow> (command \<times> nat) list" where
  "items E p [] = []"
| "items E p (c # cs) = (c, p + length (serialize E c)) # items E (p + length (serialize E c)) cs"

abbreviation encode :: "kv_env \<Rightarrow> command list \<Rightarrow> byte list" where
  "encode E cs \<equiv> concat (map (serialize E) cs)"

definition serde_ok :: "kv_env \<Rightarrow> bool" where
  "serde_ok E \<longleftrightarrow> (\<forall>c. from_reader E (serialize E c) = Some c) \<and>
     (\<forall>cs. stream E (encode E cs) = (items E 0 cs, False)) \<and>
     (\<forall>ks. mset (key_order E ks) = mset ks)"

lemma serde_okD:
  assumes "serde_ok E"
  shows "from_reader E (serialize E c) = Some c" "stream E (encode E cs) = (items E 0 cs, False)"
    "set (key_order E ks) = set ks" "distinct (key_order E ks) = distinct ks"
proof -
  have m: "mset (key_order E ks) = mset ks" using assms by (simp add: serde_ok_def)
  show "set (key_order E ks) = set ks" "distinct (key_order E ks) = distinct ks"
    using mset_eq_setD[OF m] mset_eq_imp_distinct_iff[OF m] by auto
qed (use assms in \<open>simp_all add: serde_ok_def\<close>)

subsection \<open>Handles that count positions\<close>

definition reader_new :: "nat \<Rightarrow> reader" where
  "reader_new i = \<lparr>r_ino = i, r_pos = 0\<rparr>"

definition reader_seek :: "nat \<Rightarrow> reader \<Rightarrow> reader" where
  "reader_seek p r = r\<lparr>r_pos := p\<rparr>"

text \<open>Reading up to \<open>n\<close> bytes, as \<^verbatim>\<open>take(n)\<close> limits it.\<close>

definition reader_read :: "nat \<Rightarrow> reader \<Rightarrow> fs \<Rightarrow> byte list \<times> reader" where
  "reader_read n r d =
     (let bytes = fs_read (r_ino r) (r_pos r) n d
      in (bytes, r\<lparr>r_pos := r_pos r + length bytes\<rparr>))"

definition writer_new :: "nat \<Rightarrow> writer" where
  "writer_new i = \<lparr>w_ino = i, w_pos = 0, w_buf = []\<rparr>"

definition writer_write :: "byte list \<Rightarrow> writer \<Rightarrow> fs \<Rightarrow> writer \<times> fs" where
  "writer_write bytes w d =
     (let (buf, d1) = (if length (w_buf w) + length bytes > buf_capacity
                       then ([], fs_append (w_ino w) (w_buf w) d) else (w_buf w, d));
          (buf2, d2) = (if length bytes \<ge> buf_capacity
                        then (buf, fs_append (w_ino w) bytes d1) else (buf @ bytes, d1))
      in (w\<lparr>w_buf := buf2, w_pos := w_pos w + length bytes\<rparr>, d2))"

definition writer_flush :: "writer \<Rightarrow> fs \<Rightarrow> writer \<times> fs" where
  "writer_flush w d = (w\<lparr>w_buf := []\<rparr>, fs_append (w_ino w) (w_buf w) d)"

lemma buf_full: "\<not> buf_capacity < length (w_buf w) + length bytes \<Longrightarrow> buf_capacity \<le> length bytes \<Longrightarrow> w_buf w = []"
  by (cases "w_buf w") auto

lemma writer_write_flush:
  assumes "writer_write bytes w d = (w1, d1)" "writer_flush w1 d1 = (w2, d2)"
  shows "w2 = w\<lparr>w_buf := [], w_pos := w_pos w + length bytes\<rparr>" "d2 = fs_append (w_ino w) (w_buf w @ bytes) d"
  using assms
  by (auto simp: writer_write_def writer_flush_def Let_def fs_append_def dest: buf_full split: if_splits)

lemma writer_write_all:
  assumes "writer_write bytes w d = (w1, d1)"
  shows "w_ino w1 = w_ino w" "w_pos w1 = w_pos w + length bytes"
    "inodes d1 (w_ino w) @ w_buf w1 = inodes d (w_ino w) @ w_buf w @ bytes"
    "j \<noteq> w_ino w \<Longrightarrow> inodes d1 j = inodes d j" "dents d1 = dents d" "next_ino d1 = next_ino d" "fs_wf d1 = fs_wf d"
  using assms
  by (auto simp: writer_write_def Let_def dest: buf_full split: if_splits)

subsection \<open>Names of log files\<close>

definition log_path :: "nat \<Rightarrow> string" where
  "log_path gen = show_nat gen @ ''.log''"

definition parse_u64 :: "string \<Rightarrow> nat option" where
  "parse_u64 s =
     (case s of
        [] \<Rightarrow> None
      | c # cs \<Rightarrow> if c = CHR ''+'' then (if cs = [] then None else parse_digits 0 cs) else parse_digits 0 s)"

function trim_rev_log :: "string \<Rightarrow> string" where
  "trim_rev_log s = (if take 4 s = ''gol.'' then trim_rev_log (drop 4 s) else s)"
  by auto
termination
proof (relation "measure length")
  fix s :: string assume "take 4 s = ''gol.''"
  then show "(drop 4 s, s) \<in> measure length" by (cases s) auto
qed simp

declare trim_rev_log.simps [simp del]

text \<open>\<^verbatim>\<open>path.extension() == Some("log")\<close> asks for a stem before the last dot.\<close>

definition has_log_ext :: "string \<Rightarrow> bool" where
  "has_log_ext n \<longleftrightarrow> take 4 (rev n) = ''gol.'' \<and> 4 < length n"

definition gen_of_name :: "string \<Rightarrow> nat option" where
  "gen_of_name n = (if has_log_ext n then parse_u64 (rev (trim_rev_log (rev n))) else None)"

fun gen_of_dent :: "string \<times> dent \<Rightarrow> nat option" where
  "gen_of_dent (n, FileEnt i) = gen_of_name n"
| "gen_of_dent (n, DirEnt) = None"

definition sorted_gen_list :: "fs \<Rightarrow> nat list" where
  "sorted_gen_list d = sort (List.map_filter gen_of_dent (dents d))"

lemma log_path_name: "gen < 2 ^ 64 \<Longrightarrow> gen_of_name (log_path gen) = Some gen"
proof -
  assume g: "gen < 2 ^ 64"
  obtain c cs where s: "show_nat gen = c # cs" using show_nat_not_Nil by (cases "show_nat gen") auto
  have c: "c \<noteq> CHR ''+''" "last (show_nat gen) \<noteq> CHR ''g''"
    using show_nat_digits[of c gen] show_nat_digits[OF last_in_set[OF show_nat_not_Nil], of gen] s by auto
  have "trim_rev_log (rev (show_nat gen)) = rev (show_nat gen)"
  proof -
    have "hd (rev (show_nat gen)) \<noteq> CHR ''g''" using c(2) show_nat_not_Nil by (simp add: hd_rev)
    then have "take 4 (rev (show_nat gen)) \<noteq> ''gol.''" by (cases "rev (show_nat gen)") auto
    then show ?thesis by (subst trim_rev_log.simps) simp
  qed
  moreover have "trim_rev_log (rev (log_path gen)) = trim_rev_log (rev (show_nat gen))"
    by (subst trim_rev_log.simps) (simp add: log_path_def)
  ultimately have "rev (trim_rev_log (rev (log_path gen))) = show_nat gen" by simp
  moreover have "has_log_ext (log_path gen)" using s by (simp add: has_log_ext_def log_path_def)
  ultimately show ?thesis using s c(1) parse_show[OF g] by (simp add: gen_of_name_def parse_u64_def)
qed

lemma log_path_inj: "g < 2 ^ 64 \<Longrightarrow> g' < 2 ^ 64 \<Longrightarrow> log_path g = log_path g' \<Longrightarrow> g = g'"
  using log_path_name by (metis option.inject)

subsection \<open>Replaying a log\<close>

fun load_loop :: "nat \<Rightarrow> (command \<times> nat) list \<Rightarrow> nat \<Rightarrow> kv_index \<Rightarrow> nat \<Rightarrow> kv_index \<times> nat" where
  "load_loop gen [] pos idx uncompacted = (idx, uncompacted)"
| "load_loop gen ((cmd, new_pos) # rest) pos idx uncompacted =
     (case cmd of
        CSet key v \<Rightarrow>
          load_loop gen rest new_pos (bt_insert key (mk_pos gen pos new_pos) idx)
            (uncompacted + (case map_of idx key of Some old_cmd \<Rightarrow> cp_len old_cmd | None \<Rightarrow> 0))
      | CRemove key \<Rightarrow>
          load_loop gen rest new_pos (bt_remove key idx)
            (uncompacted + (case map_of idx key of Some old_cmd \<Rightarrow> cp_len old_cmd | None \<Rightarrow> 0) + (new_pos - pos)))"

definition load :: "kv_env \<Rightarrow> nat \<Rightarrow> reader \<Rightarrow> kv_index \<Rightarrow> fs \<Rightarrow> (kvs_error, nat) outcome \<times> kv_index \<times> reader" where
  "load E gen rd idx d =
     (let rd0 = reader_seek 0 rd;
          (bytes, rd1) = reader_read (length (inodes d (r_ino rd))) rd0 d;
          (cmds, failed) = stream E bytes;
          (idx', uncompacted) = load_loop gen cmds 0 idx 0
      in (if failed then Err Serde else Ok uncompacted, idx', rd1))"

text \<open>What one command does to the index, and the index of a sequence of logs.\<close>

definition cmd_step :: "kv_env \<Rightarrow> nat \<Rightarrow> nat \<Rightarrow> command \<Rightarrow> kv_index \<times> nat \<Rightarrow> kv_index \<times> nat" where
  "cmd_step E g pos c s =
     (case s of (ix, u) \<Rightarrow>
        (case c of
           CSet k v \<Rightarrow> (bt_insert k (mk_pos g pos (pos + length (serialize E c))) ix, u + old_of cp_len ix k)
         | CRemove k \<Rightarrow> (bt_remove k ix, u + old_of cp_len ix k + length (serialize E c))))"

definition replay :: "kv_env \<Rightarrow> (nat \<times> command list) list \<Rightarrow> kv_index \<times> nat" where
  "replay E L = foldl (\<lambda>s (g, cs). load_loop g (items E 0 cs) 0 (fst s) (snd s)) ([], 0) L"

lemma items_snoc: "items E p (cs @ [c]) = items E p cs @ [(c, p + length (encode E cs) + length (serialize E c))]"
  by (induction cs arbitrary: p) (auto simp: add.assoc)

lemma load_loop_snoc:
  "load_loop g (items E p (cs @ [c])) p ix u =
     cmd_step E g (p + length (encode E cs)) c (load_loop g (items E p cs) p ix u)"
proof (induction cs arbitrary: p ix u)
  case Nil
  show ?case by (cases c) (auto simp: cmd_step_def)
next
  case (Cons d cs)
  show ?case by (cases d) (simp_all add: Cons.IH add.assoc)
qed

lemma load_loop_add: "load_loop g cs p ix (u + w) = (fst (load_loop g cs p ix u), snd (load_loop g cs p ix u) + w)"
proof (induction g cs p ix u rule: load_loop.induct)
  case (2 gen cmd new_pos rest pos idx u)
  then show ?case by (cases cmd) (simp_all add: add.commute add.left_commute add.assoc)
qed simp

lemma replay_Nil [simp]: "replay E [] = ([], 0)"
  by (simp add: replay_def)

lemma replay_snoc: "replay E (L @ [(g, cs)]) = load_loop g (items E 0 cs) 0 (fst (replay E L)) (snd (replay E L))"
  by (simp add: replay_def)

lemma replay_snoc_Nil [simp]: "replay E (L @ [(g, [])]) = replay E L"
  by (simp add: replay_snoc)

lemma replay_snoc_cmd:
  "replay E (L @ [(g, cs @ [c])]) = cmd_step E g (length (encode E cs)) c (replay E (L @ [(g, cs)]))"
  using load_loop_snoc[of g E 0 cs c "fst (replay E L)" "snd (replay E L)"] by (simp add: replay_snoc)

subsection \<open>What the index of a log means\<close>

fun apply_cmd :: "command \<Rightarrow> (string \<Rightarrow> string option) \<Rightarrow> string \<Rightarrow> string option" where
  "apply_cmd (CSet k v) m = m(k \<mapsto> v)"
| "apply_cmd (CRemove k) m = m(k := None)"

definition contents :: "(nat \<times> command list) list \<Rightarrow> string \<Rightarrow> string option" where
  "contents L = fold apply_cmd (concat (map snd L)) (\<lambda>_. None)"

definition total_bytes :: "kv_env \<Rightarrow> (nat \<times> command list) list \<Rightarrow> nat" where
  "total_bytes E L = sum_list (map (\<lambda>(_, cs). length (encode E cs)) L)"

text \<open>A position points at the bytes of the command that gives the key its value.\<close>

definition points_at :: "kv_env \<Rightarrow> (nat \<times> command list) list \<Rightarrow> command_pos \<Rightarrow> command \<Rightarrow> bool" where
  "points_at E L cp c \<longleftrightarrow> (\<exists>cs. (cp_gen cp, cs) \<in> set L \<and>
     cp_pos cp + cp_len cp \<le> length (encode E cs) \<and>
     take (cp_len cp) (drop (cp_pos cp) (encode E cs)) = serialize E c)"

definition index_ok :: "kv_env \<Rightarrow> (nat \<times> command list) list \<Rightarrow> kv_index \<Rightarrow> bool" where
  "index_ok E L ix \<longleftrightarrow> bt_ok ix \<and>
     (\<forall>k. case map_of ix k of
        None \<Rightarrow> contents L k = None
      | Some cp \<Rightarrow> (\<exists>v. points_at E L cp (CSet k v) \<and> contents L k = Some v))"

lemma contents_snoc_Nil [simp]: "contents (L @ [(g, [])]) = contents L"
  by (simp add: contents_def)

lemma contents_snoc_cmd: "contents (L @ [(g, cs @ [c])]) = apply_cmd c (contents (L @ [(g, cs)]))"
  by (simp add: contents_def)

lemma points_at_mono:
  assumes "points_at E (L @ [(g, cs)]) cp c" "g \<notin> fst ` set L"
  shows "points_at E (L @ [(g, cs @ ds)]) cp c"
proof -
  obtain es where es: "(cp_gen cp, es) \<in> set (L @ [(g, cs)])" "cp_pos cp + cp_len cp \<le> length (encode E es)"
    "take (cp_len cp) (drop (cp_pos cp) (encode E es)) = serialize E c"
    using assms(1) by (auto simp: points_at_def)
  show ?thesis
  proof (cases "(cp_gen cp, es) \<in> set L")
    case True
    then show ?thesis using es unfolding points_at_def by auto
  next
    case False
    then have "cp_gen cp = g" "es = cs" using es(1) by auto
    then show ?thesis using es(2,3) unfolding points_at_def by (intro exI[of _ "cs @ ds"]) auto
  qed
qed

lemma points_at_new:
  "points_at E (L @ [(g, cs @ [c])]) (mk_pos g (length (encode E cs)) (length (encode E cs) + length (serialize E c))) c"
  unfolding points_at_def by (intro exI[of _ "cs @ [c]"]) simp

lemma points_at_append: "points_at E L cp c \<Longrightarrow> points_at E (L @ M) cp c"
  by (auto simp: points_at_def)

lemma index_ok_step:
  assumes ok: "index_ok E (L @ [(g, cs)]) ix" and g: "g \<notin> fst ` set L"
  shows "index_ok E (L @ [(g, cs @ [c])]) (fst (cmd_step E g (length (encode E cs)) c (ix, u)))"
proof -
  let ?L = "L @ [(g, cs @ [c])]" and ?ix = "fst (cmd_step E g (length (encode E cs)) c (ix, u))"
  have bt: "bt_ok ?ix" using ok by (cases c) (auto simp: cmd_step_def index_ok_def)
  have "case map_of ?ix k of None \<Rightarrow> contents ?L k = None
      | Some cp \<Rightarrow> (\<exists>v. points_at E ?L cp (CSet k v) \<and> contents ?L k = Some v)" for k
  proof (cases "k = cmd_key c")
    case True
    then show ?thesis
      using points_at_new[of E L g cs c] by (cases c) (auto simp: cmd_step_def contents_snoc_cmd)
  next
    case False
    then have "map_of ?ix k = map_of ix k" "contents ?L k = contents (L @ [(g, cs)]) k"
      by (cases c; simp add: cmd_step_def contents_snoc_cmd)+
    moreover have "case map_of ix k of None \<Rightarrow> contents (L @ [(g, cs)]) k = None
      | Some cp \<Rightarrow> (\<exists>v. points_at E (L @ [(g, cs)]) cp (CSet k v) \<and> contents (L @ [(g, cs)]) k = Some v)"
      using ok by (simp add: index_ok_def)
    ultimately show ?thesis using points_at_mono[OF _ g, of E cs _ _ "[c]"] by (auto split: option.splits)
  qed
  with bt show ?thesis by (auto simp: index_ok_def)
qed

lemma index_ok_new: "index_ok E L ix \<Longrightarrow> index_ok E (L @ [(g, [])]) ix"
  unfolding index_ok_def contents_snoc_Nil
  by (fastforce intro: points_at_append split: option.splits)

lemma replay_index_ok: "distinct (map fst L) \<Longrightarrow> index_ok E L (fst (replay E L))"
proof (induction L rule: rev_induct)
  case Nil
  show ?case by (simp add: index_ok_def contents_def)
next
  case (snoc p L)
  obtain g cs where p: "p = (g, cs)" by fastforce
  have g: "g \<notin> fst ` set L" and IH: "index_ok E L (fst (replay E L))" using snoc p by auto
  have "index_ok E (L @ [(g, cs)]) (fst (replay E (L @ [(g, cs)])))"
  proof (induction cs rule: rev_induct)
    case Nil
    show ?case using index_ok_new[OF IH] by simp
  next
    case (snoc c cs)
    then show ?case
      using index_ok_step[OF snoc.IH g, of c "snd (replay E (L @ [(g, cs)]))"] by (simp add: replay_snoc_cmd)
  qed
  then show ?case by (simp add: p)
qed

text \<open>Every byte of the logs is either live or counted as stale.\<close>

lemma cmd_step_bytes:
  "bt_ok ix \<Longrightarrow> snd (cmd_step E g p c (ix, u)) + bt_sum cp_len (fst (cmd_step E g p c (ix, u))) =
     u + bt_sum cp_len ix + length (serialize E c)"
  using bt_sum_insert[of ix cp_len "cmd_key c" "mk_pos g p (p + length (serialize E c))"]
    bt_sum_remove[of ix cp_len "cmd_key c"]
  by (cases c) (auto simp: cmd_step_def)

lemma replay_bytes:
  "distinct (map fst L) \<Longrightarrow> snd (replay E L) + bt_sum cp_len (fst (replay E L)) = total_bytes E L"
proof (induction L rule: rev_induct)
  case (snoc p L)
  obtain g cs where p: "p = (g, cs)" by fastforce
  have "snd (replay E (L @ [(g, cs)])) + bt_sum cp_len (fst (replay E (L @ [(g, cs)]))) = total_bytes E (L @ [(g, cs)])"
    using snoc.prems unfolding p
  proof (induction cs rule: rev_induct)
    case Nil
    then show ?case using snoc by (simp add: total_bytes_def)
  next
    case (snoc c cs)
    have "bt_ok (fst (replay E (L @ [(g, cs)])))"
      using replay_index_ok[of "L @ [(g, cs)]" E] snoc.prems by (simp add: index_ok_def)
    from cmd_step_bytes[OF this, of E g "length (encode E cs)" c "snd (replay E (L @ [(g, cs)]))"]
    show ?case using snoc by (simp add: replay_snoc_cmd total_bytes_def)
  qed
  then show ?case by (simp add: p)
qed (simp add: total_bytes_def)

subsection \<open>A directory of logs\<close>

text \<open>
  A directory whose log files are the logs \<open>L\<close>, under their canonical names, the log of generation \<open>g\<close> in
  inode \<open>ino g\<close>. Other files may be present as long as no name is mistaken for a log.
\<close>

definition log_dir :: "kv_env \<Rightarrow> fs \<Rightarrow> (nat \<times> command list) list \<Rightarrow> (nat \<Rightarrow> nat) \<Rightarrow> bool" where
  "log_dir E d L ino \<longleftrightarrow> fs_wf d \<and> distinct (map fst L) \<and>
     (\<forall>(g, cs)\<in>set L. g < 2 ^ 64 \<and> (log_path g, FileEnt (ino g)) \<in> set (dents d) \<and> inodes d (ino g) = encode E cs) \<and>
     (\<forall>n i g. (n, FileEnt i) \<in> set (dents d) \<longrightarrow> gen_of_name n = Some g \<longrightarrow> n = log_path g \<and> g \<in> fst ` set L) \<and>
     (\<forall>g. (log_path g, DirEnt) \<notin> set (dents d))"

lemma log_dir_empty: "log_dir E fs_empty [] ino"
  by (simp add: log_dir_def) (simp add: fs_empty_def)

lemma log_dirD:
  assumes "log_dir E d L ino"
  shows "fs_wf d" "distinct (map fst L)"
    "(g, cs) \<in> set L \<Longrightarrow> g < 2 ^ 64 \<and> (log_path g, FileEnt (ino g)) \<in> set (dents d) \<and> inodes d (ino g) = encode E cs"
    "(n, FileEnt i) \<in> set (dents d) \<Longrightarrow> gen_of_name n = Some g \<Longrightarrow> n = log_path g \<and> g \<in> fst ` set L"
    "(log_path g, DirEnt) \<notin> set (dents d)"
  using assms unfolding log_dir_def by auto

lemma log_dir_no_file:
  assumes "log_dir E d L ino" "g \<notin> fst ` set L" "g < 2 ^ 64"
  shows "map_of (dents d) (log_path g) = None"
proof (rule ccontr)
  assume "map_of (dents d) (log_path g) \<noteq> None"
  then obtain e where "map_of (dents d) (log_path g) = Some e" by auto
  then have "(log_path g, e) \<in> set (dents d)" by (rule map_of_SomeD)
  then show False
    using log_dirD(4)[OF assms(1), of "log_path g" _ g] log_dirD(5)[OF assms(1), of g] log_path_name[OF assms(3)] assms(2)
    by (cases e) auto
qed

lemma log_dir_inj:
  assumes "log_dir E d L ino" "(g, cs) \<in> set L" "(g', cs') \<in> set L" "g \<noteq> g'"
  shows "ino g \<noteq> ino g'"
proof
  assume eq: "ino g = ino g'"
  note l = log_dirD(3)[OF assms(1) assms(2)] log_dirD(3)[OF assms(1) assms(3)]
  then have "log_path g = log_path g'"
    using log_dirD(1)[OF assms(1)] eq unfolding fs_wf_def by metis
  then show False using log_path_inj l assms(4) by blast
qed

lemma log_dir_create:
  assumes l: "log_dir E d L ino" and g: "g \<notin> fst ` set L" "g < 2 ^ 64"
    and L': "set L' = insert (g, []) (set L)" "distinct (map fst L')"
  shows "\<exists>d'. fs_open_append (log_path g) d = Inr (next_ino d, d') \<and> fs_open_read (log_path g) d' = Inr (next_ino d) \<and>
           log_dir E d' L' (ino(g := next_ino d)) \<and> inodes d' = (inodes d)(next_ino d := []) \<and>
           next_ino d' = Suc (next_ino d)"
proof -
  obtain d' where d': "fs_open_append (log_path g) d = Inr (next_ino d, d')" "fs_wf d'"
    "set (dents d') = insert (log_path g, FileEnt (next_ino d)) (set (dents d))"
    "inodes d' = (inodes d)(next_ino d := [])" "next_ino d' = Suc (next_ino d)"
    using open_append_new[OF log_dirD(1)[OF l] log_dir_no_file[OF l g]] by blast
  have fresh: "ino h \<noteq> next_ino d" if "(h, cs) \<in> set L" for h cs
    using log_dirD(3)[OF l that] log_dirD(1)[OF l] unfolding fs_wf_def by (metis less_irrefl)
  have new: "gen_of_name (log_path g) = Some g" by (rule log_path_name[OF g(2)])
  have "log_dir E d' L' (ino(g := next_ino d))"
    unfolding log_dir_def
  proof (intro conjI allI impI)
    show "\<forall>(h, cs)\<in>set L'. h < 2 ^ 64 \<and> (log_path h, FileEnt ((ino(g := next_ino d)) h)) \<in> set (dents d') \<and>
        inodes d' ((ino(g := next_ino d)) h) = encode E cs"
      unfolding L'(1) using log_dirD(3)[OF l] g fresh by (force simp: d')
    show "(log_path h, DirEnt) \<notin> set (dents d')" for h using log_dirD(5)[OF l] by (simp add: d')
    show "n = log_path h" "h \<in> fst ` set L'" if "(n, FileEnt i) \<in> set (dents d')" "gen_of_name n = Some h" for n i h
      using that log_dirD(4)[OF l, of n i h] new by (auto simp: d' L'(1))
  qed (use d' L' in auto)
  moreover have "fs_open_read (log_path g) d' = Inr (next_ino d)"
    by (rule open_read_ent[OF d'(2)]) (simp add: d')
  ultimately show ?thesis using d' by blast
qed

lemma log_dir_file:
  assumes l: "log_dir E d L ino" and g: "(g, cs) \<in> set L"
    and L': "set L' = insert (g, cs') (set L - {(g, cs)})" "distinct (map fst L')"
    and d': "dents d' = dents d" "next_ino d' = next_ino d" "inodes d' (ino g) = encode E cs'"
      "\<And>h ds. (h, ds) \<in> set L \<Longrightarrow> h \<noteq> g \<Longrightarrow> inodes d' (ino h) = inodes d (ino h)"
  shows "log_dir E d' L' ino"
proof -
  have uniq: "h \<noteq> g" if "(h, ds) \<in> set L - {(g, cs)}" for h ds
  proof
    assume "h = g"
    then have "(g, ds) \<in> set L" "ds \<noteq> cs" using that by auto
    then show False using eq_key_imp_eq_value[OF log_dirD(2)[OF l] g] by blast
  qed
  have keys: "fst ` set L' = fst ` set L" 
  proof -
    have "fst ` set L' = insert g (fst ` (set L - {(g, cs)}))" by (simp add: L'(1))
    also have "\<dots> = fst ` insert (g, cs) (set L - {(g, cs)})" by (simp only: image_insert fst_conv)
    also have "insert (g, cs) (set L - {(g, cs)}) = set L" using g by blast
    finally show ?thesis .
  qed
  have wf: "fs_wf d'" using log_dirD(1)[OF l] by (simp add: fs_wf_def d')
  have files: "\<forall>(h, ds)\<in>set L'. h < 2 ^ 64 \<and> (log_path h, FileEnt (ino h)) \<in> set (dents d') \<and>
      inodes d' (ino h) = encode E ds"
  proof (intro ballI)
    fix p assume p: "p \<in> set L'"
    show "case p of (h, ds) \<Rightarrow> h < 2 ^ 64 \<and> (log_path h, FileEnt (ino h)) \<in> set (dents d') \<and> inodes d' (ino h) = encode E ds"
    proof (cases "p = (g, cs')")
      case True
      then show ?thesis using log_dirD(3)[OF l g] d'(1,3) by simp
    next
      case False
      obtain h ds where hd: "p = (h, ds)" by (cases p)
      have hl: "(h, ds) \<in> set L - {(g, cs)}" using p False by (auto simp: L'(1) hd)
      then have "(h, ds) \<in> set L" by simp
      then show ?thesis using log_dirD(3)[OF l, of h ds] d'(1) d'(4)[of h ds] uniq[OF hl] by (simp add: hd)
    qed
  qed
  show ?thesis unfolding log_dir_def keys d'(1)
    using wf files L'(2) log_dirD(4,5)[OF l] unfolding d'(1) by blast
qed

lemma log_dir_remove:
  assumes l: "log_dir E d L ino" and g: "(g, cs) \<in> set L"
  shows "\<exists>d'. fs_remove_file (log_path g) d = Inr d' \<and> inodes d' = inodes d \<and>
     log_dir E d' (filter (\<lambda>p. fst p \<noteq> g) L) ino"
proof -
  obtain d' where d': "fs_remove_file (log_path g) d = Inr d'" "fs_wf d'"
    "set (dents d') = {p \<in> set (dents d). fst p \<noteq> log_path g}" "inodes d' = inodes d"
    using remove_file_ent[OF log_dirD(1)[OF l]] log_dirD(3)[OF l g] by blast
  have gb: "g < 2 ^ 64" using log_dirD(3)[OF l g] by simp
  have "log_dir E d' (filter (\<lambda>p. fst p \<noteq> g) L) ino" unfolding log_dir_def
  proof (intro conjI allI impI)
    show "distinct (map fst (filter (\<lambda>p. fst p \<noteq> g) L))"
      using log_dirD(2)[OF l] by (rule distinct_map_filter)
    show "\<forall>(h, ds)\<in>set (filter (\<lambda>p. fst p \<noteq> g) L). h < 2 ^ 64 \<and>
        (log_path h, FileEnt (ino h)) \<in> set (dents d') \<and> inodes d' (ino h) = encode E ds"
      using log_dirD(3)[OF l] log_path_inj[OF _ gb] by (fastforce simp: d')
    show "n = log_path h" "h \<in> fst ` set (filter (\<lambda>p. fst p \<noteq> g) L)"
      if "(n, FileEnt i) \<in> set (dents d')" "gen_of_name n = Some h" for n i h
      using that log_dirD(4)[OF l, of n i h] by (auto simp: d' image_iff)
    show "(log_path h, DirEnt) \<notin> set (dents d')" for h using log_dirD(5)[OF l] by (simp add: d')
  qed (rule d')
  with d' show ?thesis by blast
qed

lemma log_dir_gens:
  assumes l: "log_dir E d L ino" and s: "sorted_wrt (<) (map fst L)"
  shows "sorted_gen_list d = map fst L"
proof -
  let ?gs = "List.map_filter gen_of_dent (dents d)"
  have mf: "?gs = map (\<lambda>x. the (gen_of_dent x)) (filter (\<lambda>x. gen_of_dent x \<noteq> None) (dents d))"
    by (simp add: List.map_filter_def o_def)
  have dd: "distinct (map fst (dents d))" using log_dirD(1)[OF l] by (simp add: fs_wf_def)
  have ent: "\<exists>i. p = (log_path g, FileEnt i) \<and> g \<in> fst ` set L" if pd: "p \<in> set (dents d)" and pg: "gen_of_dent p = Some g" for p g
  proof -
    obtain n i where p: "p = (n, FileEnt i)" "gen_of_name n = Some g"
      using pg by (cases p rule: gen_of_dent.cases) auto
    then show ?thesis using log_dirD(4)[OF l, of n i g] pd by simp
  qed
  have "inj_on (\<lambda>x. the (gen_of_dent x)) {x \<in> set (dents d). gen_of_dent x \<noteq> None}"
  proof (rule inj_onI, clarify)
    fix a b a' b' g g' assume m: "(a, b) \<in> set (dents d)" "(a', b') \<in> set (dents d)"
      and gs: "gen_of_dent (a, b) = Some g" "gen_of_dent (a', b') = Some g'"
      and eq: "the (gen_of_dent (a, b)) = the (gen_of_dent (a', b'))"
    have "a = a'" using ent[OF m(1) gs(1)] ent[OF m(2) gs(2)] gs eq by auto
    then show "a = a' \<and> b = b'" using m dd by (auto dest: eq_key_imp_eq_value)
  qed
  then have dist: "distinct ?gs"
    using dd unfolding mf by (simp add: distinct_map)
  have "set ?gs = fst ` set L"
  proof
    show "set ?gs \<subseteq> fst ` set L" unfolding mf using ent by fastforce
    show "fst ` set L \<subseteq> set ?gs"
    proof clarify
      fix g cs assume "(g, cs) \<in> set L"
      then have "(log_path g, FileEnt (ino g)) \<in> set (dents d)" "gen_of_name (log_path g) = Some g"
        using log_dirD(3)[OF l] log_path_name by auto
      then show "fst (g, cs) \<in> set ?gs" unfolding mf by (force simp: image_iff)
    qed
  qed
  moreover have "sorted (map fst L)" "distinct (map fst L)" using s by (simp_all add: strict_sorted_iff)
  ultimately show ?thesis unfolding sorted_gen_list_def
    using dist sorted_distinct_set_unique[of "sort ?gs" "map fst L"] by simp
qed

subsection \<open>The log a compaction writes\<close>

fun laid :: "kv_env \<Rightarrow> nat \<Rightarrow> nat \<Rightarrow> command list \<Rightarrow> kv_index" where
  "laid E g p [] = []"
| "laid E g p (c # cs) = (cmd_key c, mk_pos g p (p + length (serialize E c))) # laid E g (p + length (serialize E c)) cs"

definition live_cmds :: "(string \<Rightarrow> string option) \<Rightarrow> kv_index \<Rightarrow> command list" where
  "live_cmds m ix = map (\<lambda>(k, _). CSet k (the (m k))) ix"

lemma live_cmds_simps [simp]: "live_cmds m [] = []" "live_cmds m ((k, cp) # ix) = CSet k (the (m k)) # live_cmds m ix"
  by (simp_all add: live_cmds_def)

lemma bt_insert_last: "\<forall>k'\<in>fst ` set m. k' < k \<Longrightarrow> bt_insert k v m = m @ [(k, v)]"
  by (induction k v m rule: bt_insert.induct) auto

lemma load_loop_laid:
  "sorted_wrt (<) (map fst ix @ map fst es) \<Longrightarrow>
   load_loop g (items E p (live_cmds m es)) p ix u = (ix @ laid E g p (live_cmds m es), u)"
proof (induction es arbitrary: ix p)
  case (Cons e es)
  obtain k cp where e: "e = (k, cp)" by fastforce
  have lt: "\<forall>k'\<in>fst ` set ix. k' < k" using Cons.prems by (auto simp: sorted_wrt_append e)
  then have "map_of ix k = None" by (auto simp: map_of_eq_None_iff)
  moreover have "sorted_wrt (<) (map fst (ix @ [(k, cp')]) @ map fst es)" for cp'
    using Cons.prems by (simp add: e)
  ultimately show ?case using Cons.IH lt by (simp add: e bt_insert_last)
qed simp

lemma fold_live: "fold apply_cmd (live_cmds m ix) f = (\<lambda>k. if k \<in> fst ` set ix then Some (the (m k)) else f k)"
proof (induction ix arbitrary: f)
  case (Cons e ix)
  then show ?case by (cases e) (simp add: fun_eq_iff)
qed simp

lemma index_ok_dom: "index_ok E L ix \<Longrightarrow> k \<in> fst ` set ix \<longleftrightarrow> contents L k \<noteq> None"
proof -
  assume "index_ok E L ix"
  then have "case map_of ix k of None \<Rightarrow> contents L k = None
      | Some cp \<Rightarrow> (\<exists>v. points_at E L cp (CSet k v) \<and> contents L k = Some v)" by (simp add: index_ok_def)
  then show ?thesis using map_of_eq_None_iff[of ix k] by (auto split: option.splits)
qed

lemma compacted_contents:
  assumes "index_ok E L ix"
  shows "contents [(g, live_cmds (contents L) ix), (h, [])] = contents L"
  using index_ok_dom[OF assms] by (auto simp: contents_def[of "[_, _]"] fold_live fun_eq_iff)

lemma compacted_replay:
  assumes "bt_ok ix"
  shows "replay E [(g, live_cmds m ix), (h, [])] = (laid E g 0 (live_cmds m ix), 0)"
  using load_loop_laid[of "[]" ix g E 0 m 0] assms by (simp add: replay_def bt_ok_def)

end
