(* ===== verification/KvsEngine.thy ===== *)
theory KvsEngine
  imports KvLog
begin

text \<open>
  The storage-engine interface of project 3 (\<^verbatim>\<open>courses/rust/projects/project-3/src/engines/mod.rs\<close>): the trait
  \<^verbatim>\<open>KvsEngine\<close> as a record of its methods, the requests a client can make (\<^verbatim>\<open>src/common.rs\<close>), and the
  contract of an engine as a locale: every engine is a map from keys to values, with the two documented
  outcomes of \<^verbatim>\<open>remove\<close>. The parameter \<open>n\<close> of the invariant is the number of further calls the engine has
  room for; engines whose resources cannot run out ignore it. The predicate \<open>ok\<close> tells the values the engine
  accepts. The in-memory store of project 1 (\<^verbatim>\<open>project-1/src/kv.rs\<close>) is the map itself.
\<close>

subsection \<open>The store of project 1\<close>

type_synonym mem_store = "string \<Rightarrow> string option"

definition mem_new :: mem_store where
  "mem_new = (\<lambda>_. None)"

definition mem_set :: "string \<Rightarrow> string \<Rightarrow> mem_store \<Rightarrow> mem_store" where
  "mem_set key v m = m(key \<mapsto> v)"

definition mem_get :: "string \<Rightarrow> mem_store \<Rightarrow> string option" where
  "mem_get key m = m key"

definition mem_remove :: "string \<Rightarrow> mem_store \<Rightarrow> mem_store" where
  "mem_remove key m = m(key := None)"

subsection \<open>The trait and the requests\<close>

record 's engine =
  eng_set :: "string \<Rightarrow> string \<Rightarrow> 's \<Rightarrow> (kvs_error, unit) outcome \<times> 's"
  eng_get :: "string \<Rightarrow> 's \<Rightarrow> (kvs_error, string option) outcome \<times> 's"
  eng_remove :: "string \<Rightarrow> 's \<Rightarrow> (kvs_error, unit) outcome \<times> 's"

datatype request = ReqGet string | ReqSet string string | ReqRemove string

datatype get_response = GetOk "string option" | GetErr string
datatype set_response = SetOk | SetErr string
datatype remove_response = RemoveOk | RemoveErr string

datatype response = RespGet get_response | RespSet set_response | RespRemove remove_response

subsection \<open>The contract\<close>

fun map_after :: "request \<Rightarrow> mem_store \<Rightarrow> mem_store" where
  "map_after (ReqGet k) m = m"
| "map_after (ReqSet k v) m = mem_set k v m"
| "map_after (ReqRemove k) m = mem_remove k m"

lemmas mem_defs [simp] = mem_new_def mem_set_def mem_get_def mem_remove_def

fun request_ok :: "(string \<Rightarrow> bool) \<Rightarrow> request \<Rightarrow> bool" where
  "request_ok ok (ReqSet k v) = ok v"
| "request_ok ok _ = True"

lemma request_ok_all [simp]: "request_ok (\<lambda>_. True) = (\<lambda>_. True)"
proof
  show "request_ok (\<lambda>_. True) r = True" for r by (cases r) auto
qed

lemma list_all_True [simp]: "list_all (\<lambda>_. True) xs"
  by (induction xs) auto

locale kvs_engine =
  fixes eng :: "'s engine"
    and inv :: "nat \<Rightarrow> 's \<Rightarrow> bool"
    and abs :: "'s \<Rightarrow> string \<Rightarrow> string option"
    and ok :: "string \<Rightarrow> bool"
  assumes inv_less: "inv (Suc n) s \<Longrightarrow> inv n s"
    and set_law: "inv (Suc n) s \<Longrightarrow> ok v \<Longrightarrow> \<exists>s'. eng_set eng k v s = (Ok (), s') \<and> inv n s' \<and> abs s' = (abs s)(k \<mapsto> v)"
    and get_law: "inv n s \<Longrightarrow> \<exists>s'. eng_get eng k s = (Ok (abs s k), s') \<and> inv n s' \<and> abs s' = abs s"
    and remove_law: "inv (Suc n) s \<Longrightarrow> \<exists>s'.
      eng_remove eng k s = (if abs s k = None then Err KeyNotFound else Ok (), s') \<and> inv n s' \<and> abs s' = (abs s)(k := None)"

end
