(* ===== verification/KvStore.thy ===== *)
theory KvStore
  imports KvsEngine
begin

text \<open>
  The single-threaded engine (\<^verbatim>\<open>courses/rust/projects/project-3/src/engines/kvs.rs\<close>, the same code as
  \<^verbatim>\<open>project-2/src/kv.rs\<close>): \<^verbatim>\<open>KvStore\<close> with its directory, and \<^verbatim>\<open>open\<close>, \<^verbatim>\<open>set\<close>, \<^verbatim>\<open>get\<close>, \<^verbatim>\<open>remove\<close>,
  \<^verbatim>\<open>compact\<close>. The state of the directory is part of the store's state. An addition to a generation
  number that overflows panics, as in a build with overflow checks. The state paired with
  a panic has no meaning.
\<close>

subsection \<open>The model\<close>

definition COMPACTION_THRESHOLD :: nat where
  "COMPACTION_THRESHOLD = 1024 * 1024"

record kvs =
  disk :: fs
  readers :: "(nat \<times> reader) list"
  kv_writer :: writer
  current_gen :: nat
  index :: kv_index
  uncompacted :: nat

definition new_log_file ::
  "nat \<Rightarrow> (nat \<times> reader) list \<Rightarrow> fs \<Rightarrow> (kvs_error, writer) outcome \<times> (nat \<times> reader) list \<times> fs" where
  "new_log_file gen rs d =
     (case fs_open_append (log_path gen) d of
        Inl e \<Rightarrow> (Err (Io e), rs, d)
      | Inr (i, d1) \<Rightarrow>
          (case fs_open_read (log_path gen) d1 of
             Inl e \<Rightarrow> (Err (Io e), rs, d1)
           | Inr j \<Rightarrow> (Ok (writer_new i), AList.update gen (reader_new j) rs, d1)))"

definition kvs_new_log_file :: "nat \<Rightarrow> kvs \<Rightarrow> (kvs_error, writer) outcome \<times> kvs" where
  "kvs_new_log_file gen st =
     (case new_log_file gen (readers st) (disk st) of (r, rs, d) \<Rightarrow> (r, st\<lparr>readers := rs, disk := d\<rparr>))"

fun open_loop ::
  "kv_env \<Rightarrow> fs \<Rightarrow> nat list \<Rightarrow> (nat \<times> reader) list \<Rightarrow> kv_index \<Rightarrow> nat \<Rightarrow>
   (kvs_error, (nat \<times> reader) list \<times> kv_index \<times> nat) outcome" where
  "open_loop E d [] rs ix u = Ok (rs, ix, u)"
| "open_loop E d (gen # gens) rs ix u =
     (case fs_open_read (log_path gen) d of
        Inl e \<Rightarrow> Err (Io e)
      | Inr i \<Rightarrow>
          (case load E gen (reader_new i) ix d of
             (Ok n, ix', rd) \<Rightarrow> open_loop E d gens (AList.update gen rd rs) ix' (u + n)
           | (Err e, _) \<Rightarrow> Err e
           | (Panic, _) \<Rightarrow> Panic))"

definition kv_open :: "kv_env \<Rightarrow> fs \<Rightarrow> (kvs_error, kvs) outcome" where
  "kv_open E d =
     (let gen_list = sorted_gen_list d in
      case open_loop E d gen_list [] [] 0 of
        Err e \<Rightarrow> Err e
      | Panic \<Rightarrow> Panic
      | Ok (rs, ix, u) \<Rightarrow>
          (let lst = (if gen_list = [] then 0 else last gen_list) in
           if lst + 1 \<ge> 2 ^ 64 then Panic
           else (case new_log_file (lst + 1) rs d of
                   (Ok w, rs', d') \<Rightarrow> Ok \<lparr>disk = d', readers = rs', kv_writer = w, current_gen = lst + 1, index = ix, uncompacted = u\<rparr>
                 | (Err e, _) \<Rightarrow> Err e
                 | (Panic, _) \<Rightarrow> Panic)))"

fun compact_loop ::
  "nat \<Rightarrow> kv_index \<Rightarrow> kv_index \<Rightarrow> nat \<Rightarrow> writer \<Rightarrow> kvs \<Rightarrow> (kvs_error, writer) outcome \<times> kvs" where
  "compact_loop compaction_gen visited [] new_pos cw st = (Ok cw, st\<lparr>index := visited\<rparr>)"
| "compact_loop compaction_gen visited ((k, cp) # rest) new_pos cw st =
     (case map_of (readers st) (cp_gen cp) of
        None \<Rightarrow> (Panic, st)
      | Some rd \<Rightarrow>
          (let rd1 = (if r_pos rd \<noteq> cp_pos cp then reader_seek (cp_pos cp) rd else rd);
               (bytes, rd2) = reader_read (cp_len cp) rd1 (disk st);
               (cw1, d1) = writer_write bytes cw (disk st);
               stop = new_pos + length bytes
           in compact_loop compaction_gen (visited @ [(k, mk_pos compaction_gen new_pos stop)]) rest stop cw1
                (st\<lparr>disk := d1, readers := AList.update (cp_gen cp) rd2 (readers st)\<rparr>)))"

fun remove_stale :: "nat list \<Rightarrow> kvs \<Rightarrow> (kvs_error, unit) outcome \<times> kvs" where
  "remove_stale [] st = (Ok (), st)"
| "remove_stale (gen # gens) st =
     (let st1 = st\<lparr>readers := AList.delete gen (readers st)\<rparr> in
      case fs_remove_file (log_path gen) (disk st1) of
        Inl e \<Rightarrow> (Err (Io e), st1)
      | Inr d \<Rightarrow> remove_stale gens (st1\<lparr>disk := d\<rparr>))"

definition compact :: "kv_env \<Rightarrow> kvs \<Rightarrow> (kvs_error, unit) outcome \<times> kvs" where
  "compact E st =
     (if current_gen st + 2 \<ge> 2 ^ 64 then (Panic, st)
      else let compaction_gen = current_gen st + 1;
               st1 = st\<lparr>current_gen := current_gen st + 2\<rparr>
           in attempt (kvs_new_log_file (current_gen st1) st1) (\<lambda>w st2.
              let st3 = st2\<lparr>kv_writer := w\<rparr> in
              attempt (kvs_new_log_file compaction_gen st3) (\<lambda>cw st4.
              attempt (compact_loop compaction_gen [] (index st4) 0 cw st4) (\<lambda>cw2 st5.
              let (_, d) = writer_flush cw2 (disk st5);
                  st6 = st5\<lparr>disk := d\<rparr>;
                  stale_gens = filter (\<lambda>gen. gen < compaction_gen) (key_order E (map fst (readers st6)))
              in attempt (remove_stale stale_gens st6) (\<lambda>_ st7. (Ok (), st7\<lparr>uncompacted := 0\<rparr>))))))"

definition kv_set :: "kv_env \<Rightarrow> string \<Rightarrow> string \<Rightarrow> kvs \<Rightarrow> (kvs_error, unit) outcome \<times> kvs" where
  "kv_set E key v st =
     (let cmd = CSet key v;
          pos = w_pos (kv_writer st);
          (w1, d1) = writer_write (serialize E cmd) (kv_writer st) (disk st);
          (w2, d2) = writer_flush w1 d1;
          st1 = st\<lparr>disk := d2, kv_writer := w2,
                   index := bt_insert key (mk_pos (current_gen st) pos (w_pos w2)) (index st),
                   uncompacted := uncompacted st +
                     (case map_of (index st) key of Some old_cmd \<Rightarrow> cp_len old_cmd | None \<Rightarrow> 0)\<rparr>
      in if uncompacted st1 > COMPACTION_THRESHOLD then attempt (compact E st1) (\<lambda>_ st2. (Ok (), st2))
         else (Ok (), st1))"

definition kv_get :: "kv_env \<Rightarrow> string \<Rightarrow> kvs \<Rightarrow> (kvs_error, string option) outcome \<times> kvs" where
  "kv_get E key st =
     (case map_of (index st) key of
        None \<Rightarrow> (Ok None, st)
      | Some cmd_pos \<Rightarrow>
          (case map_of (readers st) (cp_gen cmd_pos) of
             None \<Rightarrow> (Panic, st)
           | Some rd \<Rightarrow>
               (let (bytes, rd1) = reader_read (cp_len cmd_pos) (reader_seek (cp_pos cmd_pos) rd) (disk st);
                    st1 = st\<lparr>readers := AList.update (cp_gen cmd_pos) rd1 (readers st)\<rparr>
                in case from_reader E bytes of
                     None \<Rightarrow> (Err Serde, st1)
                   | Some (CSet k v) \<Rightarrow> (Ok (Some v), st1)
                   | Some (CRemove k) \<Rightarrow> (Err UnexpectedCommandType, st1))))"

definition kv_remove :: "kv_env \<Rightarrow> string \<Rightarrow> kvs \<Rightarrow> (kvs_error, unit) outcome \<times> kvs" where
  "kv_remove E key st =
     (case map_of (index st) key of
        None \<Rightarrow> (Err KeyNotFound, st)
      | Some old_cmd \<Rightarrow>
          (let (w1, d1) = writer_write (serialize E (CRemove key)) (kv_writer st) (disk st);
               (w2, d2) = writer_flush w1 d1
           in (Ok (), st\<lparr>disk := d2, kv_writer := w2, index := bt_remove key (index st),
                         uncompacted := uncompacted st + cp_len old_cmd\<rparr>)))"

subsection \<open>The invariant\<close>

text \<open>
  \<open>kv_view E L ino st\<close>: the directory holds the logs \<open>L\<close>, oldest first; the last one is the log being written
  and everything written is flushed; there is one reader per log; the index is the one a replay of the logs
  would give, and no more bytes are counted as stale than that replay counts.
\<close>

definition kv_view :: "kv_env \<Rightarrow> (nat \<times> command list) list \<Rightarrow> (nat \<Rightarrow> nat) \<Rightarrow> kvs \<Rightarrow> bool" where
  "kv_view E L ino st \<longleftrightarrow> log_dir E (disk st) L ino \<and> sorted_wrt (<) (map fst L) \<and>
     L \<noteq> [] \<and> fst (last L) = current_gen st \<and>
     kv_writer st = \<lparr>w_ino = ino (current_gen st), w_pos = length (encode E (snd (last L))), w_buf = []\<rparr> \<and>
     distinct (map fst (readers st)) \<and>
     (\<forall>g. map_option r_ino (map_of (readers st) g) = (if g \<in> fst ` set L then Some (ino g) else None)) \<and>
     index st = fst (replay E L) \<and> uncompacted st \<le> snd (replay E L)"

definition kv_inv :: "kv_env \<Rightarrow> nat \<Rightarrow> kvs \<Rightarrow> bool" where
  "kv_inv E n st \<longleftrightarrow> serde_ok E \<and> current_gen st + 2 * n < 2 ^ 64 \<and> (\<exists>L ino. kv_view E L ino st)"

text \<open>What the store maps a key to: the value its index leads to on disk.\<close>

definition kv_abs :: "kv_env \<Rightarrow> kvs \<Rightarrow> string \<Rightarrow> string option" where
  "kv_abs E st key =
     (case map_of (index st) key of
        None \<Rightarrow> None
      | Some cp \<Rightarrow>
          (case map_of (readers st) (cp_gen cp) of
             None \<Rightarrow> None
           | Some rd \<Rightarrow>
               (case from_reader E (fs_read (r_ino rd) (cp_pos cp) (cp_len cp) (disk st)) of
                  Some (CSet k v) \<Rightarrow> Some v
                | _ \<Rightarrow> None)))"

lemma kv_view_reader:
  assumes "kv_view E L ino st" "(g, cs) \<in> set L"
  shows "\<exists>rd. map_of (readers st) g = Some rd \<and> r_ino rd = ino g \<and> inodes (disk st) (r_ino rd) = encode E cs"
proof -
  have "map_option r_ino (map_of (readers st) g) = Some (ino g)"
    using assms unfolding kv_view_def by (metis fst_conv image_eqI)
  moreover have "inodes (disk st) (ino g) = encode E cs"
    using assms log_dirD(3) unfolding kv_view_def by blast
  ultimately show ?thesis by auto
qed

lemma kv_view_index: "kv_view E L ino st \<Longrightarrow> index_ok E L (index st)"
  using replay_index_ok[of L E] by (auto simp: kv_view_def log_dir_def)

lemma kv_view_entry:
  assumes v: "kv_view E L ino st" and sd: "serde_ok E" and k: "map_of (index st) k = Some cp"
  shows "\<exists>rd val. map_of (readers st) (cp_gen cp) = Some rd \<and> r_ino rd = ino (cp_gen cp) \<and> cp_gen cp \<in> fst ` set L \<and>
     fs_read (r_ino rd) (cp_pos cp) (cp_len cp) (disk st) = serialize E (CSet k val) \<and> contents L k = Some val"
proof -
  obtain val cs where "(cp_gen cp, cs) \<in> set L" "take (cp_len cp) (drop (cp_pos cp) (encode E cs)) = serialize E (CSet k val)"
    "contents L k = Some val"
    using kv_view_index[OF v] k unfolding index_ok_def points_at_def by (force split: option.splits)
  then show ?thesis using kv_view_reader[OF v] by (force simp: fs_read_def)
qed

lemma kv_view_abs:
  assumes "kv_view E L ino st" "serde_ok E"
  shows "kv_abs E st = contents L"
proof
  fix k
  show "kv_abs E st k = contents L k"
  proof (cases "map_of (index st) k")
    case None
    then show ?thesis using kv_view_index[OF assms(1)] unfolding index_ok_def kv_abs_def
      by (auto split: option.splits dest: spec[of _ k])
  next
    case (Some cp)
    from kv_view_entry[OF assms this] show ?thesis
      by (auto simp: kv_abs_def Some serde_okD(1)[OF assms(2)])
  qed
qed

lemma kv_abs_None:
  assumes "kv_view E L ino st" "serde_ok E"
  shows "kv_abs E st k = None \<longleftrightarrow> map_of (index st) k = None"
proof (cases "map_of (index st) k")
  case None
  then show ?thesis by (simp add: kv_abs_def)
next
  case (Some cp)
  from kv_view_entry[OF assms this] show ?thesis by (auto simp: kv_view_abs[OF assms] Some)
qed

lemma kv_view_same:
  assumes "kv_view E L ino st" "map_of (readers st) g = Some rd" "r_ino rd' = r_ino rd"
  shows "kv_view E L ino (st\<lparr>readers := AList.update g rd' (readers st)\<rparr>)"
proof -
  have "map_option r_ino (map_of (AList.update g rd' (readers st)) h) = map_option r_ino (map_of (readers st) h)" for h
    using assms(2,3) by (simp add: update_conv')
  then show ?thesis using assms(1) by (simp add: kv_view_def distinct_update)
qed

subsection \<open>Reading and appending\<close>

lemma kv_get_view:
  assumes v: "kv_view E L ino st" and sd: "serde_ok E"
  shows "\<exists>st'. kv_get E k st = (Ok (contents L k), st') \<and> kv_view E L ino st' \<and> current_gen st' = current_gen st"
proof (cases "map_of (index st) k")
  case None
  then have "contents L k = None" using kv_abs_None[OF v sd, of k] kv_view_abs[OF v sd] by simp
  then show ?thesis using v None by (simp add: kv_get_def)
next
  case (Some cp)
  obtain rd val where rd: "map_of (readers st) (cp_gen cp) = Some rd"
    "fs_read (r_ino rd) (cp_pos cp) (cp_len cp) (disk st) = serialize E (CSet k val)" "contents L k = Some val"
    using kv_view_entry[OF v sd Some] by blast
  let ?rd = "rd\<lparr>r_pos := cp_pos cp + length (serialize E (CSet k val))\<rparr>"
  have "kv_get E k st = (Ok (Some val), st\<lparr>readers := AList.update (cp_gen cp) ?rd (readers st)\<rparr>)"
    using rd by (simp add: kv_get_def Some Let_def reader_read_def reader_seek_def serde_okD(1)[OF sd])
  then show ?thesis using kv_view_same[OF v rd(1), of ?rd] rd(3) by simp
qed

lemma snoc_of: "L \<noteq> [] \<Longrightarrow> fst (last L) = g \<Longrightarrow> \<exists>M cs. L = M @ [(g, cs)]"
  by (metis append_butlast_last_id prod.collapse)

lemma kv_view_last: "kv_view E L ino st \<Longrightarrow> \<exists>M cs. L = M @ [(current_gen st, cs)]"
  by (rule snoc_of) (simp_all add: kv_view_def)

lemma kv_view_append:
  assumes v: "kv_view E (M @ [(g, cs)]) ino st"
    and d2: "d2 = fs_append (ino g) (serialize E c) (disk st)"
    and w2: "w2 = (kv_writer st)\<lparr>w_pos := w_pos (kv_writer st) + length (serialize E c)\<rparr>"
    and ix: "(ix, u0) = cmd_step E g (w_pos (kv_writer st)) c (index st, snd (replay E (M @ [(g, cs)])))"
    and u: "u \<le> u0"
  shows "kv_view E (M @ [(g, cs @ [c])]) ino (st\<lparr>disk := d2, kv_writer := w2, index := ix, uncompacted := u\<rparr>)"
proof -
  have l: "log_dir E (disk st) (M @ [(g, cs)]) ino" and g: "current_gen st = g"
    and w: "kv_writer st = \<lparr>w_ino = ino g, w_pos = length (encode E cs), w_buf = []\<rparr>"
    and i: "index st = fst (replay E (M @ [(g, cs)]))" using v by (auto simp: kv_view_def)
  have dist: "distinct (map fst (M @ [(g, cs @ [c])]))" using log_dirD(2)[OF l] by simp
  have "log_dir E d2 (M @ [(g, cs @ [c])]) ino"
  proof (rule log_dir_file[OF l _ _ dist])
    show "(g, cs) \<in> set (M @ [(g, cs)])" by simp
    show "set (M @ [(g, cs @ [c])]) = insert (g, cs @ [c]) (set (M @ [(g, cs)]) - {(g, cs)})"
      using log_dirD(2)[OF l] by (auto simp: image_iff)
    show "inodes d2 (ino g) = encode E (cs @ [c])" using log_dirD(3)[OF l, of g cs] by (simp add: d2)
    show "inodes d2 (ino h) = inodes (disk st) (ino h)" if "(h, ds) \<in> set (M @ [(g, cs)])" "h \<noteq> g" for h ds
      using log_dir_inj[OF l that(1), of g cs] that(2) by (simp add: d2)
  qed (simp_all add: d2)
  moreover have "(ix, u0) = replay E (M @ [(g, cs @ [c])])"
    using ix by (simp add: replay_snoc_cmd w i)
  then have "ix = fst (replay E (M @ [(g, cs @ [c])]))" "u \<le> snd (replay E (M @ [(g, cs @ [c])]))"
    using u by (simp_all add: prod_eq_iff)
  ultimately show ?thesis using v by (simp add: kv_view_def w2 w g)
qed

lemma kv_remove_view:
  assumes v: "kv_view E L ino st" and sd: "serde_ok E" and k: "contents L k \<noteq> None"
  shows "\<exists>L' st'. kv_remove E k st = (Ok (), st') \<and> kv_view E L' ino st' \<and> current_gen st' = current_gen st \<and>
     contents L' = (contents L)(k := None)"
proof -
  obtain M cs where L: "L = M @ [(current_gen st, cs)]" using kv_view_last[OF v] by blast
  obtain cp where cp: "map_of (index st) k = Some cp"
    using k kv_abs_None[OF v sd, of k] kv_view_abs[OF v sd] by auto
  have w: "w_buf (kv_writer st) = []" "w_ino (kv_writer st) = ino (current_gen st)" using v by (simp_all add: kv_view_def)
  obtain w1 d1 where w1: "writer_write (serialize E (CRemove k)) (kv_writer st) (disk st) = (w1, d1)" by fastforce
  obtain w2 d2 where w2: "writer_flush w1 d1 = (w2, d2)" by fastforce
  let ?u = "snd (replay E (M @ [(current_gen st, cs)]))"
  have u: "uncompacted st \<le> ?u" using v L by (simp add: kv_view_def)
  have "kv_view E (M @ [(current_gen st, cs @ [CRemove k])]) ino
      (st\<lparr>disk := d2, kv_writer := w2, index := bt_remove k (index st), uncompacted := uncompacted st + cp_len cp\<rparr>)"
  proof (rule kv_view_append)
    show "kv_view E (M @ [(current_gen st, cs)]) ino st" using v L by simp
    show "(bt_remove k (index st), ?u + cp_len cp + length (serialize E (CRemove k))) =
        cmd_step E (current_gen st) (w_pos (kv_writer st)) (CRemove k) (index st, ?u)"
      using cp by (simp add: cmd_step_def)
  qed (use writer_write_flush[OF w1 w2] w u in simp_all)
  moreover have "contents (M @ [(current_gen st, cs @ [CRemove k])]) = (contents L)(k := None)"
    by (simp add: contents_snoc_cmd L)
  ultimately show ?thesis by (fastforce simp: kv_remove_def cp w1 w2)
qed

subsection \<open>Compaction\<close>

definition same_inos :: "(nat \<times> reader) list \<Rightarrow> (nat \<times> reader) list \<Rightarrow> bool" where
  "same_inos rs rs' \<longleftrightarrow> (\<forall>g. map_option r_ino (map_of rs' g) = map_option r_ino (map_of rs g)) \<and>
     (distinct (map fst rs) \<longrightarrow> distinct (map fst rs')) \<and> fst ` set rs' = fst ` set rs"

lemma same_inos_update:
  "map_of rs g = Some rd \<Longrightarrow> r_ino rd' = r_ino rd \<Longrightarrow> same_inos rs (AList.update g rd' rs)"
  by (auto simp: same_inos_def update_conv' distinct_update dom_update insert_absorb dest: map_of_SomeD intro: rev_image_eqI)

lemma same_inos_trans: "same_inos a b \<Longrightarrow> same_inos b c \<Longrightarrow> same_inos a c"
  by (simp add: same_inos_def)

text \<open>An entry the loop can copy: its reader is known and leads to the bytes of the live command.\<close>

definition copyable :: "kv_env \<Rightarrow> (string \<Rightarrow> string option) \<Rightarrow> writer \<Rightarrow> kvs \<Rightarrow> string \<times> command_pos \<Rightarrow> bool" where
  "copyable E m cw st e \<longleftrightarrow> (case e of (k, cp) \<Rightarrow>
     (\<exists>rd. map_of (readers st) (cp_gen cp) = Some rd \<and> r_ino rd \<noteq> w_ino cw \<and>
        fs_read (r_ino rd) (cp_pos cp) (cp_len cp) (disk st) = serialize E (CSet k (the (m k)))))"

lemma copyable_mono:
  assumes "copyable E m cw st e" "same_inos (readers st) (readers st')" "w_ino cw' = w_ino cw"
    "\<And>j. j \<noteq> w_ino cw \<Longrightarrow> inodes (disk st') j = inodes (disk st) j"
  shows "copyable E m cw' st' e"
proof -
  obtain k cp rd where e: "e = (k, cp)" "map_of (readers st) (cp_gen cp) = Some rd" "r_ino rd \<noteq> w_ino cw"
    "fs_read (r_ino rd) (cp_pos cp) (cp_len cp) (disk st) = serialize E (CSet k (the (m k)))"
    using assms(1) by (auto simp: copyable_def split: prod.splits)
  have "map_option r_ino (map_of (readers st') (cp_gen cp)) = Some (r_ino rd)"
    using assms(2) e(2) by (simp add: same_inos_def)
  then show ?thesis using e assms(3) assms(4)[OF e(3)] by (auto simp: copyable_def fs_read_def)
qed

lemma compact_loop_spec:
  assumes "\<forall>e\<in>set es. copyable E m cw st e"
  shows "\<exists>cw' st'. compact_loop cg visited es new_pos cw st = (Ok cw', st') \<and> w_ino cw' = w_ino cw \<and>
     inodes (disk st') (w_ino cw) @ w_buf cw' = inodes (disk st) (w_ino cw) @ w_buf cw @ encode E (live_cmds m es) \<and>
     (\<forall>j. j \<noteq> w_ino cw \<longrightarrow> inodes (disk st') j = inodes (disk st) j) \<and>
     dents (disk st') = dents (disk st) \<and> next_ino (disk st') = next_ino (disk st) \<and>
     same_inos (readers st) (readers st') \<and> index st' = visited @ laid E cg new_pos (live_cmds m es) \<and>
     current_gen st' = current_gen st \<and> kv_writer st' = kv_writer st"
  using assms
proof (induction es arbitrary: visited new_pos cw st)
  case Nil
  then show ?case by (simp add: same_inos_def)
next
  case (Cons e es)
  obtain k cp rd where e: "e = (k, cp)" "map_of (readers st) (cp_gen cp) = Some rd" "r_ino rd \<noteq> w_ino cw"
    "fs_read (r_ino rd) (cp_pos cp) (cp_len cp) (disk st) = serialize E (CSet k (the (m k)))"
    using Cons.prems by (auto simp: copyable_def split: prod.splits)
  define bytes where "bytes = serialize E (CSet k (the (m k)))"
  define rd2 where "rd2 = rd\<lparr>r_pos := cp_pos cp + length bytes\<rparr>"
  obtain cw1 d1 where w: "writer_write bytes cw (disk st) = (cw1, d1)" by fastforce
  define st1 where "st1 = st\<lparr>disk := d1, readers := AList.update (cp_gen cp) rd2 (readers st)\<rparr>"
  note wr = writer_write_all[OF w]
  have si: "same_inos (readers st) (readers st1)"
    using same_inos_update[OF e(2), of rd2] by (simp add: st1_def rd2_def)
  have step: "compact_loop cg visited (e # es) new_pos cw st =
      compact_loop cg (visited @ [(k, mk_pos cg new_pos (new_pos + length bytes))]) es (new_pos + length bytes) cw1 st1"
    using e w by (auto simp: Let_def reader_read_def reader_seek_def bytes_def[symmetric] st1_def rd2_def)
  have "\<forall>e\<in>set es. copyable E m cw1 st1 e"
    using Cons.prems copyable_mono[OF _ si wr(1)] wr(4) by (simp add: st1_def)
  from Cons.IH[OF this, of "visited @ [(k, mk_pos cg new_pos (new_pos + length bytes))]" "new_pos + length bytes"]
  obtain cw' st' where IH:
    "compact_loop cg (visited @ [(k, mk_pos cg new_pos (new_pos + length bytes))]) es (new_pos + length bytes) cw1 st1 = (Ok cw', st')"
    "w_ino cw' = w_ino cw1"
    "inodes (disk st') (w_ino cw1) @ w_buf cw' = inodes (disk st1) (w_ino cw1) @ w_buf cw1 @ encode E (live_cmds m es)"
    "\<forall>j. j \<noteq> w_ino cw1 \<longrightarrow> inodes (disk st') j = inodes (disk st1) j"
    "dents (disk st') = dents (disk st1)" "next_ino (disk st') = next_ino (disk st1)"
    "same_inos (readers st1) (readers st')"
    "index st' = (visited @ [(k, mk_pos cg new_pos (new_pos + length bytes))]) @ laid E cg (new_pos + length bytes) (live_cmds m es)"
    "current_gen st' = current_gen st1" "kv_writer st' = kv_writer st1"
    by blast
  have "inodes (disk st') (w_ino cw) @ w_buf cw' = inodes (disk st) (w_ino cw) @ w_buf cw @ bytes @ encode E (live_cmds m es)"
    using IH(3) wr(1) wr(3) by (simp add: st1_def)
  then show ?case unfolding step
    using IH wr si same_inos_trans[OF si IH(7)] by (simp add: e(1) bytes_def st1_def)
qed

lemma remove_stale_spec:
  assumes "log_dir E (disk st) L ino" "distinct gs" "set gs \<subseteq> fst ` set L" "distinct (map fst (readers st))"
  shows "\<exists>d rs. remove_stale gs st = (Ok (), st\<lparr>disk := d, readers := rs\<rparr>) \<and>
     log_dir E d (filter (\<lambda>p. fst p \<notin> set gs) L) ino \<and> distinct (map fst rs) \<and>
     (\<forall>g. map_of rs g = (if g \<in> set gs then None else map_of (readers st) g))"
  using assms
proof (induction gs arbitrary: st L)
  case Nil
  then show ?case by (intro exI[of _ "disk st"] exI[of _ "readers st"]) simp
next
  case (Cons g gs)
  obtain cs where cs: "(g, cs) \<in> set L" using Cons.prems(3) by auto
  obtain d' where d': "fs_remove_file (log_path g) (disk st) = Inr d'"
    "log_dir E d' (filter (\<lambda>p. fst p \<noteq> g) L) ino" using log_dir_remove[OF Cons.prems(1) cs] by blast
  let ?st = "st\<lparr>readers := AList.delete g (readers st), disk := d'\<rparr>"
  have "log_dir E (disk ?st) (filter (\<lambda>p. fst p \<noteq> g) L) ino" "distinct gs"
    "set gs \<subseteq> fst ` set (filter (\<lambda>p. fst p \<noteq> g) L)" "distinct (map fst (readers ?st))"
    using d'(2) Cons.prems by (auto simp: distinct_delete image_iff) fastforce
  from Cons.IH[OF this] obtain d rs where IH: "remove_stale gs ?st = (Ok (), ?st\<lparr>disk := d, readers := rs\<rparr>)"
    "log_dir E d (filter (\<lambda>p. fst p \<notin> set gs) (filter (\<lambda>p. fst p \<noteq> g) L)) ino" "distinct (map fst rs)"
    "\<forall>h. map_of rs h = (if h \<in> set gs then None else map_of (readers ?st) h)" by blast
  have "filter (\<lambda>p. fst p \<notin> set gs) (filter (\<lambda>p. fst p \<noteq> g) L) = filter (\<lambda>p. fst p \<notin> set (g # gs)) L"
    by (auto intro: filter_cong)
  then show ?case using IH d'(1) by (intro exI[of _ d] exI[of _ rs]) (auto simp: delete_conv')
qed

lemma new_log_file_E:
  assumes l: "log_dir E (disk st) L ino" and g: "g \<notin> fst ` set L" "g < 2 ^ 64"
    and L': "set L' = insert (g, []) (set L)" "distinct (map fst L')"
    and r: "distinct (map fst (readers st))"
      "\<forall>h. map_option r_ino (map_of (readers st) h) = (if h \<in> fst ` set L then Some (ino h) else None)"
  obtains d rs i where "kvs_new_log_file g st = (Ok (writer_new i), st\<lparr>readers := rs, disk := d\<rparr>)"
     "log_dir E d L' (ino(g := i))" "inodes d i = []" "\<forall>h\<in>fst ` set L. ino h \<noteq> i"
     "\<forall>j. j \<noteq> i \<longrightarrow> inodes d j = inodes (disk st) j" "distinct (map fst rs)"
     "\<forall>h. map_option r_ino (map_of rs h) = (if h \<in> fst ` set L' then Some ((ino(g := i)) h) else None)"
proof -
  obtain d where d: "fs_open_append (log_path g) (disk st) = Inr (next_ino (disk st), d)"
    "fs_open_read (log_path g) d = Inr (next_ino (disk st))" "log_dir E d L' (ino(g := next_ino (disk st)))"
    "inodes d = (inodes (disk st))(next_ino (disk st) := [])"
    using log_dir_create[OF l g L'] by blast
  have "ino h \<noteq> next_ino (disk st)" if "h \<in> fst ` set L" for h
    using that log_dirD(3)[OF l] log_dirD(1)[OF l] unfolding fs_wf_def by (metis imageE less_irrefl prod.collapse)
  moreover have "map_option r_ino (map_of (AList.update g (reader_new (next_ino (disk st))) (readers st)) h) =
      (if h \<in> fst ` set L' then Some ((ino(g := next_ino (disk st))) h) else None)" for h
  proof (cases "h = g")
    case False
    then have "map_of (AList.update g (reader_new (next_ino (disk st))) (readers st)) h = map_of (readers st) h"
      "h \<in> fst ` set L' \<longleftrightarrow> h \<in> fst ` set L" by (simp_all add: update_conv' L'(1))
    then show ?thesis using r(2)[rule_format, of h] False by simp
  qed (simp add: update_conv' L'(1) reader_new_def)
  ultimately show thesis using d r(1)
    by (intro that[of "next_ino (disk st)" d "AList.update g (reader_new (next_ino (disk st))) (readers st)"])
      (simp_all add: kvs_new_log_file_def new_log_file_def distinct_update)
qed

lemma sorted_gens_below: "sorted_wrt (<) (map fst (M @ [(g, cs)])) \<Longrightarrow> h \<in> fst ` set (M @ [(g, cs)]) \<Longrightarrow> h \<le> (g::nat)"
  by (auto simp: sorted_wrt_append less_imp_le)

definition old_files_ok :: "kv_env \<Rightarrow> (nat \<times> command list) list \<Rightarrow> (nat \<Rightarrow> nat) \<Rightarrow> kvs \<Rightarrow> bool" where
  "old_files_ok E L ino st \<longleftrightarrow> log_dir E (disk st) L ino \<and> distinct (map fst (readers st)) \<and>
     (\<forall>h. map_option r_ino (map_of (readers st) h) = (if h \<in> fst ` set L then Some (ino h) else None))"

text \<open>The two log files a compaction starts with: the next log to write, then the log to copy into.\<close>

lemma compact_files:
  assumes o: "old_files_ok E L ino st" and le: "\<And>h. h \<in> fst ` set L \<Longrightarrow> h \<le> g" and b: "g + 2 < 2 ^ 64"
  obtains d1 rs1 d2 rs2 i1 i2 where
    "kvs_new_log_file (g + 2) st = (Ok (writer_new i1), st\<lparr>readers := rs1, disk := d1\<rparr>)"
    "kvs_new_log_file (g + 1) (st\<lparr>readers := rs1, disk := d1, kv_writer := writer_new i1\<rparr>) =
       (Ok (writer_new i2), st\<lparr>readers := rs2, disk := d2, kv_writer := writer_new i1\<rparr>)"
    "old_files_ok E (L @ [(g + 1, []), (g + 2, [])]) (ino(g + 2 := i1, g + 1 := i2))
       (st\<lparr>readers := rs2, disk := d2, kv_writer := writer_new i1\<rparr>)"
    "\<forall>h\<in>fst ` set L. inodes d2 (ino h) = inodes (disk st) (ino h) \<and> ino h \<noteq> i2" "i1 \<noteq> i2"
proof -
  let ?L1 = "L @ [(g + 2, [])]" and ?L2 = "L @ [(g + 1, []), (g + 2, [])]"
  have l: "log_dir E (disk st) L ino" and r: "distinct (map fst (readers st))"
    "\<forall>h. map_option r_ino (map_of (readers st) h) = (if h \<in> fst ` set L then Some (ino h) else None)"
    using o by (simp_all add: old_files_ok_def)
  have n2: "g + 2 \<notin> fst ` set L" using le[of "g + 2"] by auto
  have n1: "g + 1 \<notin> fst ` set ?L1" using le[of "g + 1"] by auto
  have dL: "distinct (map fst ?L1)" "distinct (map fst ?L2)" using log_dirD(2)[OF l] n1 n2 by simp_all
  have s1: "set ?L1 = insert (g + 2, []) (set L)" and s2: "set ?L2 = insert (g + 1, []) (set ?L1)" by auto
  have b1: "g + 1 < 2 ^ 64" using b by simp
  obtain d1 rs1 i1 where f1: "kvs_new_log_file (g + 2) st = (Ok (writer_new i1), st\<lparr>readers := rs1, disk := d1\<rparr>)"
    "log_dir E d1 ?L1 (ino(g + 2 := i1))" "inodes d1 i1 = []" "\<forall>h\<in>fst ` set L. ino h \<noteq> i1"
    "\<forall>j. j \<noteq> i1 \<longrightarrow> inodes d1 j = inodes (disk st) j" "distinct (map fst rs1)"
    "\<forall>h. map_option r_ino (map_of rs1 h) = (if h \<in> fst ` set ?L1 then Some ((ino(g + 2 := i1)) h) else None)"
    by (rule new_log_file_E[OF l n2 b s1 dL(1) r])
  let ?st3 = "st\<lparr>readers := rs1, disk := d1, kv_writer := writer_new i1\<rparr>" and ?ino1 = "ino(g + 2 := i1)"
  have l3: "log_dir E (disk ?st3) ?L1 ?ino1" and r3: "distinct (map fst (readers ?st3))"
    "\<forall>h. map_option r_ino (map_of (readers ?st3) h) = (if h \<in> fst ` set ?L1 then Some (?ino1 h) else None)"
    using f1 by simp_all
  obtain d2 rs2 i2 where f2: "kvs_new_log_file (g + 1) ?st3 = (Ok (writer_new i2), ?st3\<lparr>readers := rs2, disk := d2\<rparr>)"
    "log_dir E d2 ?L2 (?ino1(g + 1 := i2))" "inodes d2 i2 = []" "\<forall>h\<in>fst ` set ?L1. ?ino1 h \<noteq> i2"
    "\<forall>j. j \<noteq> i2 \<longrightarrow> inodes d2 j = inodes (disk ?st3) j" "distinct (map fst rs2)"
    "\<forall>h. map_option r_ino (map_of rs2 h) = (if h \<in> fst ` set ?L2 then Some ((?ino1(g + 1 := i2)) h) else None)"
    by (rule new_log_file_E[OF l3 n1 b1 s2 dL(2) r3])
  show thesis
  proof (rule that[OF f1(1)])
    show "kvs_new_log_file (g + 1) ?st3 = (Ok (writer_new i2), st\<lparr>readers := rs2, disk := d2, kv_writer := writer_new i1\<rparr>)"
      using f2(1) by simp
    show "old_files_ok E ?L2 (?ino1(g + 1 := i2)) (st\<lparr>readers := rs2, disk := d2, kv_writer := writer_new i1\<rparr>)"
      using f2(2,6,7) by (simp add: old_files_ok_def)
    show "\<forall>h\<in>fst ` set L. inodes d2 (ino h) = inodes (disk st) (ino h) \<and> ino h \<noteq> i2"
    proof
      fix h assume that: "h \<in> fst ` set L"
      have "h \<noteq> g + 2" using that n2 by blast
      then have "?ino1 h = ino h" "h \<in> fst ` set ?L1" using that by simp_all
      then have "ino h \<noteq> i2" "ino h \<noteq> i1" using f2(4) f1(4) that by metis+
      then show "inodes d2 (ino h) = inodes (disk st) (ino h) \<and> ino h \<noteq> i2" using f2(5) f1(5) by simp
    qed
    show "i1 \<noteq> i2" using f2(4) by auto
  qed
qed

lemma kv_view_copyable:
  assumes v: "kv_view E L ino st" and sd: "serde_ok E"
    and ino2: "\<And>h. h \<in> fst ` set L \<Longrightarrow> ino2 h = ino h"
    and o: "old_files_ok E (L @ N) ino2 st4"
    and same: "\<And>h. h \<in> fst ` set L \<Longrightarrow> inodes (disk st4) (ino h) = inodes (disk st) (ino h) \<and> ino h \<noteq> w_ino cw"
  shows "\<forall>e\<in>set (index st). copyable E (contents L) cw st4 e"
proof (intro ballI)
  fix e assume e: "e \<in> set (index st)"
  obtain k cp where kc: "e = (k, cp)" by fastforce
  have "bt_ok (index st)" using kv_view_index[OF v] by (simp add: index_ok_def)
  then have "map_of (index st) k = Some cp" using e bt_ok_distinct kc by fastforce
  from kv_view_entry[OF v sd this] obtain rd :: reader and val where
    rd: "r_ino rd = ino (cp_gen cp)" "cp_gen cp \<in> fst ` set L" "contents L k = Some val"
      "fs_read (r_ino rd) (cp_pos cp) (cp_len cp) (disk st) = serialize E (CSet k val)"
    by blast
  have "map_option r_ino (map_of (readers st4) (cp_gen cp)) = Some (ino (cp_gen cp))"
    using o rd(2) ino2[OF rd(2)] by (simp add: old_files_ok_def image_Un)
  then obtain rd4 where "map_of (readers st4) (cp_gen cp) = Some rd4" "r_ino rd4 = ino (cp_gen cp)" by auto
  then show "copyable E (contents L) cw st4 e"
    using rd same[OF rd(2)] by (auto simp: copyable_def kc fs_read_def)
qed

lemma compacted_dir:
  assumes o: "old_files_ok E (L @ [(g1, []), (g2, [])]) ino st4" and cw: "w_ino cw = ino g1" "w_buf cw = []"
    and c: "\<forall>e\<in>set (index st4). copyable E m cw st4 e"
  obtains cw2 st5 d6 where "compact_loop g1 [] (index st4) 0 cw st4 = (Ok cw2, st5)"
    "writer_flush cw2 (disk st5) = (cw2\<lparr>w_buf := []\<rparr>, d6)"
    "old_files_ok E (L @ [(g1, live_cmds m (index st4)), (g2, [])]) ino (st5\<lparr>disk := d6\<rparr>)"
    "index st5 = laid E g1 0 (live_cmds m (index st4))" "current_gen st5 = current_gen st4"
    "kv_writer st5 = kv_writer st4" "fst ` set (readers st5) = fst ` set (readers st4)"
proof -
  let ?L2 = "L @ [(g1, []), (g2, [])]" and ?cmds = "live_cmds m (index st4)"
  let ?L3 = "L @ [(g1, ?cmds), (g2, [])]"
  have l: "log_dir E (disk st4) ?L2 ino" and r: "distinct (map fst (readers st4))"
    "\<forall>h. map_option r_ino (map_of (readers st4) h) = (if h \<in> fst ` set ?L2 then Some (ino h) else None)"
    using o by (simp_all add: old_files_ok_def)
  obtain cw2 st5 where lp: "compact_loop g1 [] (index st4) 0 cw st4 = (Ok cw2, st5)" "w_ino cw2 = w_ino cw"
    "inodes (disk st5) (w_ino cw) @ w_buf cw2 = inodes (disk st4) (w_ino cw) @ w_buf cw @ encode E ?cmds"
    "\<forall>j. j \<noteq> w_ino cw \<longrightarrow> inodes (disk st5) j = inodes (disk st4) j"
    "dents (disk st5) = dents (disk st4)" "next_ino (disk st5) = next_ino (disk st4)"
    "same_inos (readers st4) (readers st5)" "index st5 = laid E g1 0 ?cmds"
    "current_gen st5 = current_gen st4" "kv_writer st5 = kv_writer st4"
    using compact_loop_spec[OF c, of g1 "[]" 0] by auto
  define d6 where "d6 = fs_append (w_ino cw2) (w_buf cw2) (disk st5)"
  have g1: "inodes (disk st4) (ino g1) = []" using log_dirD(3)[OF l, of g1 "[]"] by simp
  have dL: "distinct (map fst ?L3)" using log_dirD(2)[OF l] by simp
  have "log_dir E d6 ?L3 ino"
  proof (rule log_dir_file[OF l _ _ dL])
    show "(g1, []) \<in> set ?L2" by simp
    show "set ?L3 = insert (g1, ?cmds) (set ?L2 - {(g1, [])})" using log_dirD(2)[OF l] by (auto simp: image_iff)
    show "inodes d6 (ino g1) = encode E ?cmds" using lp(2,3) cw g1 by (simp add: d6_def)
    show "inodes d6 (ino h) = inodes (disk st4) (ino h)" if "(h, ds) \<in> set ?L2" "h \<noteq> g1" for h ds
      using log_dir_inj[OF l that(1), of g1 "[]"] that(2) lp(2,4) cw by (simp add: d6_def)
  qed (simp_all add: d6_def lp)
  moreover have "distinct (map fst (readers st5))" "fst ` set (readers st5) = fst ` set (readers st4)"
    "\<forall>h. map_option r_ino (map_of (readers st5) h) = (if h \<in> fst ` set ?L3 then Some (ino h) else None)"
    using lp(7) r unfolding same_inos_def by simp_all
  ultimately show thesis using lp
    by (intro that[of cw2 st5 d6]) (simp_all add: old_files_ok_def writer_flush_def d6_def)
qed

lemma old_files_keys:
  assumes "old_files_ok E L ino st"
  shows "fst ` set (readers st) = fst ` set L"
proof -
  have "h \<in> fst ` set (readers st) \<longleftrightarrow> h \<in> fst ` set L" for h
  proof -
    have "h \<notin> fst ` set (readers st) \<longleftrightarrow> map_option r_ino (map_of (readers st) h) = None"
      by (simp add: map_of_eq_None_iff)
    moreover have "map_option r_ino (map_of (readers st) h) = (if h \<in> fst ` set L then Some (ino h) else None)"
      using assms by (simp only: old_files_ok_def)
    ultimately show ?thesis by (cases "h \<in> fst ` set L") simp_all
  qed
  then show ?thesis by blast
qed

lemma stale_files:
  assumes o: "old_files_ok E (L @ N) ino st" and gs: "distinct gs" "set gs = fst ` set L"
  obtains d rs where "remove_stale gs st = (Ok (), st\<lparr>disk := d, readers := rs\<rparr>)"
    "old_files_ok E N ino (st\<lparr>disk := d, readers := rs\<rparr>)"
proof -
  have l: "log_dir E (disk st) (L @ N) ino" and r: "distinct (map fst (readers st))"
    and ri: "\<forall>h. map_option r_ino (map_of (readers st) h) = (if h \<in> fst ` set (L @ N) then Some (ino h) else None)"
    using o by (simp_all add: old_files_ok_def)
  have dj: "fst ` set L \<inter> fst ` set N = {}" using log_dirD(2)[OF l] by auto
  obtain d rs where s: "remove_stale gs st = (Ok (), st\<lparr>disk := d, readers := rs\<rparr>)"
    "log_dir E d (filter (\<lambda>p. fst p \<notin> set gs) (L @ N)) ino" "distinct (map fst rs)"
    "\<forall>g. map_of rs g = (if g \<in> set gs then None else map_of (readers st) g)"
    using remove_stale_spec[OF l gs(1) _ r] gs(2) by auto
  have "filter (\<lambda>p. fst p \<notin> set gs) L = []" "filter (\<lambda>p. fst p \<notin> set gs) N = N"
    using gs(2) dj by (auto simp: filter_empty_conv intro!: filter_True)
  then have "log_dir E d N ino" using s(2) by simp
  moreover have "map_option r_ino (map_of rs h) = (if h \<in> fst ` set N then Some (ino h) else None)" for h
    using s(4) ri[rule_format, of h] gs(2) dj by (auto split: if_splits)
  ultimately show thesis using s by (intro that[of rs d]) (simp_all add: old_files_ok_def)
qed

lemma compact_view:
  assumes v: "kv_view E L ino st" and sd: "serde_ok E" and room: "current_gen st + 2 < 2 ^ 64"
  shows "\<exists>L' ino' st'. compact E st = (Ok (), st') \<and> kv_view E L' ino' st' \<and> current_gen st' = current_gen st + 2 \<and>
     contents L' = contents L \<and> uncompacted st' = 0 \<and> total_bytes E L' = bt_sum cp_len (index st')"
proof -
  define g where "g = current_gen st"
  obtain M cs where L: "L = M @ [(g, cs)]" using kv_view_last[OF v] g_def by blast
  have srt: "sorted_wrt (<) (map fst L)" and ix: "index_ok E L (index st)"
    using v kv_view_index[OF v] by (simp_all add: kv_view_def)
  have le: "h \<le> g" if "h \<in> fst ` set L" for h using sorted_gens_below[of M g cs h] srt that L by simp
  let ?st1 = "st\<lparr>current_gen := g + 2\<rparr>" and ?cmds = "live_cmds (contents L) (index st)"
  have o1: "old_files_ok E L ino ?st1" using v by (simp add: old_files_ok_def kv_view_def)
  have b: "g + 2 < 2 ^ 64" using room by (simp add: g_def)
  obtain d1 rs1 d2 rs2 i1 i2 where f:
    "kvs_new_log_file (g + 2) ?st1 = (Ok (writer_new i1), ?st1\<lparr>readers := rs1, disk := d1\<rparr>)"
    "kvs_new_log_file (g + 1) (?st1\<lparr>readers := rs1, disk := d1, kv_writer := writer_new i1\<rparr>) =
       (Ok (writer_new i2), ?st1\<lparr>readers := rs2, disk := d2, kv_writer := writer_new i1\<rparr>)"
    "old_files_ok E (L @ [(g + 1, []), (g + 2, [])]) (ino(g + 2 := i1, g + 1 := i2))
       (?st1\<lparr>readers := rs2, disk := d2, kv_writer := writer_new i1\<rparr>)"
    "\<forall>h\<in>fst ` set L. inodes d2 (ino h) = inodes (disk ?st1) (ino h) \<and> ino h \<noteq> i2" "i1 \<noteq> i2"
    by (rule compact_files[OF o1 le b])
  define ino2 where "ino2 = ino(g + 2 := i1, g + 1 := i2)"
  define st4 where "st4 = ?st1\<lparr>readers := rs2, disk := d2, kv_writer := writer_new i1\<rparr>"
  have i4: "index st4 = index st" by (simp add: st4_def)
  have o4: "old_files_ok E (L @ [(g + 1, []), (g + 2, [])]) ino2 st4" using f(3) by (simp add: ino2_def st4_def)
  have cp: "\<forall>e\<in>set (index st4). copyable E (contents L) (writer_new i2) st4 e"
    unfolding i4 by (rule kv_view_copyable[OF v sd _ o4])
      (use le f(4) in \<open>fastforce simp: ino2_def st4_def writer_new_def\<close>)+
  have cw: "w_ino (writer_new i2) = ino2 (g + 1)" "w_buf (writer_new i2) = []" by (simp_all add: ino2_def writer_new_def)
  obtain cw2 st5 d6 where c: "compact_loop (g + 1) [] (index st4) 0 (writer_new i2) st4 = (Ok cw2, st5)"
    "writer_flush cw2 (disk st5) = (cw2\<lparr>w_buf := []\<rparr>, d6)"
    "old_files_ok E (L @ [(g + 1, live_cmds (contents L) (index st4)), (g + 2, [])]) ino2 (st5\<lparr>disk := d6\<rparr>)"
    "index st5 = laid E (g + 1) 0 (live_cmds (contents L) (index st4))" "current_gen st5 = current_gen st4"
    "kv_writer st5 = kv_writer st4" "fst ` set (readers st5) = fst ` set (readers st4)"
    by (rule compacted_dir[OF o4 cw cp])
  let ?stale = "filter (\<lambda>h. h < g + 1) (key_order E (map fst (readers st5)))"
  have keys: "fst ` set (readers st5) = fst ` set L \<union> {g + 1, g + 2}"
    using old_files_keys[OF c(3)] by auto
  have stale: "distinct ?stale" "set ?stale = fst ` set L"
    using c(3) le by (auto simp: keys serde_okD(3,4)[OF sd] old_files_ok_def less_Suc_eq_le)
  let ?st6 = "st5\<lparr>disk := d6\<rparr>"
  obtain d7 rs7 where s: "remove_stale ?stale ?st6 = (Ok (), ?st6\<lparr>disk := d7, readers := rs7\<rparr>)"
    "old_files_ok E [(g + 1, live_cmds (contents L) (index st4)), (g + 2, [])] ino2 (?st6\<lparr>disk := d7, readers := rs7\<rparr>)"
    by (rule stale_files[OF c(3) stale])
  let ?st' = "st5\<lparr>disk := d7, readers := rs7, uncompacted := 0\<rparr>" and ?L' = "[(g + 1, ?cmds), (g + 2, [])]"
  have "compact E st = (Ok (), ?st')"
    using f(1,2) b c(1,2) s(1) by (simp add: compact_def g_def Let_def st4_def)
  moreover have "kv_view E ?L' ino2 ?st'"
    using s(2) c(4-6) i4 compacted_replay[of "index st" E "g + 1" "contents L" "g + 2"] ix
    by (simp add: kv_view_def old_files_ok_def index_ok_def st4_def writer_new_def ino2_def)
  moreover have "contents ?L' = contents L" by (rule compacted_contents[OF ix])
  moreover have "total_bytes E ?L' = bt_sum cp_len (index ?st')"
    using replay_bytes[of ?L' E] compacted_replay[of "index st" E "g + 1" "contents L" "g + 2"] ix c(4) i4
    by (simp add: index_ok_def)
  ultimately show ?thesis using c(5) by (fastforce simp: st4_def g_def)
qed

subsection \<open>Setting a key\<close>

lemma kv_set_view:
  assumes v: "kv_view E L ino st" and sd: "serde_ok E" and room: "current_gen st + 2 < 2 ^ 64"
  shows "\<exists>L' ino' st'. kv_set E k val st = (Ok (), st') \<and> kv_view E L' ino' st' \<and> current_gen st' \<le> current_gen st + 2 \<and>
     contents L' = (contents L)(k \<mapsto> val) \<and> uncompacted st' \<le> COMPACTION_THRESHOLD"
proof -
  obtain M cs where L: "L = M @ [(current_gen st, cs)]" using kv_view_last[OF v] by blast
  let ?c = "CSet k val" and ?u = "snd (replay E (M @ [(current_gen st, cs)]))"
  have w: "w_buf (kv_writer st) = []" "w_ino (kv_writer st) = ino (current_gen st)" using v by (simp_all add: kv_view_def)
  obtain w1 d1 where w1: "writer_write (serialize E ?c) (kv_writer st) (disk st) = (w1, d1)" by fastforce
  obtain w2 d2 where w2: "writer_flush w1 d1 = (w2, d2)" by fastforce
  note wf = writer_write_flush[OF w1 w2]
  have u: "uncompacted st \<le> ?u" using v L by (simp add: kv_view_def)
  define st1 where "st1 = st\<lparr>disk := d2, kv_writer := w2,
      index := bt_insert k (mk_pos (current_gen st) (w_pos (kv_writer st)) (w_pos w2)) (index st),
      uncompacted := uncompacted st + old_of cp_len (index st) k\<rparr>"
  have v1: "kv_view E (M @ [(current_gen st, cs @ [?c])]) ino st1" unfolding st1_def
  proof (rule kv_view_append)
    show "kv_view E (M @ [(current_gen st, cs)]) ino st" using v L by simp
    show "(bt_insert k (mk_pos (current_gen st) (w_pos (kv_writer st)) (w_pos w2)) (index st), ?u + old_of cp_len (index st) k) =
        cmd_step E (current_gen st) (w_pos (kv_writer st)) ?c (index st, ?u)"
      by (simp add: cmd_step_def wf)
  qed (use wf w u in simp_all)
  have c1: "contents (M @ [(current_gen st, cs @ [?c])]) = (contents L)(k \<mapsto> val)" by (simp add: contents_snoc_cmd L)
  have g1: "current_gen st1 = current_gen st" by (simp add: st1_def)
  have set: "kv_set E k val st =
      (if uncompacted st1 > COMPACTION_THRESHOLD then attempt (compact E st1) (\<lambda>_ st2. (Ok (), st2)) else (Ok (), st1))"
    by (simp add: kv_set_def w1 w2 st1_def Let_def)
  show ?thesis
  proof (cases "uncompacted st1 > COMPACTION_THRESHOLD")
    case True
    have "current_gen st1 + 2 < 2 ^ 64" using room g1 by simp
    then obtain L' ino' st' where "compact E st1 = (Ok (), st')" "kv_view E L' ino' st'"
      "current_gen st' = current_gen st1 + 2" "contents L' = (contents L)(k \<mapsto> val)" "uncompacted st' = 0"
      using compact_view[OF v1 sd] c1 by auto
    then show ?thesis unfolding set using True g1 by (intro exI[of _ L'] exI[of _ ino'] exI[of _ st']) simp
  next
    case False
    then show ?thesis unfolding set using v1 c1 g1 by fastforce
  qed
qed

subsection \<open>Opening a directory\<close>

definition readers_for :: "(nat \<times> reader) list \<Rightarrow> nat set \<Rightarrow> (nat \<Rightarrow> nat) \<Rightarrow> bool" where
  "readers_for rs G ino \<longleftrightarrow> distinct (map fst rs) \<and>
     (\<forall>h. map_option r_ino (map_of rs h) = (if h \<in> G then Some (ino h) else None))"

lemma readers_for_update:
  assumes "readers_for rs G ino" "r_ino rd = ino g"
  shows "readers_for (AList.update g rd rs) (insert g G) ino"
proof -
  have "map_option r_ino (map_of (AList.update g rd rs) h) = (if h \<in> insert g G then Some (ino h) else None)" for h
    using assms by (cases "h = g") (simp_all add: update_conv' readers_for_def)
  then show ?thesis using assms(1) by (simp add: readers_for_def distinct_update)
qed

lemma open_loop_spec:
  assumes l: "log_dir E d (P @ Q) ino" and sd: "serde_ok E" and r: "readers_for rs (fst ` set P) ino"
  shows "\<exists>rs'. open_loop E d (map fst Q) rs (fst (replay E P)) (snd (replay E P)) =
     Ok (rs', fst (replay E (P @ Q)), snd (replay E (P @ Q))) \<and> readers_for rs' (fst ` set (P @ Q)) ino"
  using l r
proof (induction Q arbitrary: P rs)
  case Nil
  then show ?case by simp
next
  case (Cons q Q)
  obtain g cs where q: "q = (g, cs)" by fastforce
  have f: "(log_path g, FileEnt (ino g)) \<in> set (dents d)" "inodes d (ino g) = encode E cs"
    using log_dirD(3)[OF Cons.prems(1), of g cs] by (simp_all add: q)
  have op: "fs_open_read (log_path g) d = Inr (ino g)" by (rule open_read_ent[OF log_dirD(1)[OF Cons.prems(1)] f(1)])
  let ?rd = "\<lparr>r_ino = ino g, r_pos = length (encode E cs)\<rparr>"
  have "load E g (reader_new (ino g)) (fst (replay E P)) d =
      (Ok (snd (load_loop g (items E 0 cs) 0 (fst (replay E P)) 0)), fst (replay E (P @ [q])), ?rd)"
    using load_loop_add[of g "items E 0 cs" 0 "fst (replay E P)" 0 "snd (replay E P)"]
    by (simp add: load_def reader_new_def reader_seek_def reader_read_def fs_read_def f serde_okD(2)[OF sd]
        split_beta Let_def q replay_snoc)
  moreover have "snd (replay E P) + snd (load_loop g (items E 0 cs) 0 (fst (replay E P)) 0) = snd (replay E (P @ [q]))"
    using load_loop_add[of g "items E 0 cs" 0 "fst (replay E P)" 0 "snd (replay E P)"] by (simp add: q replay_snoc)
  ultimately have step: "open_loop E d (map fst (q # Q)) rs (fst (replay E P)) (snd (replay E P)) =
      open_loop E d (map fst Q) (AList.update g ?rd rs) (fst (replay E (P @ [q]))) (snd (replay E (P @ [q])))"
    using op by (simp add: q)
  have "readers_for (AList.update g ?rd rs) (fst ` set (P @ [q])) ino"
    using readers_for_update[OF Cons.prems(2), of ?rd g] by (simp add: q)
  from Cons.IH[OF _ this] show ?case unfolding step using Cons.prems(1) by simp
qed

lemma kv_open_view:
  assumes l: "log_dir E d L ino" and s: "sorted_wrt (<) (map fst L)" and sd: "serde_ok E"
    and g: "g = (if L = [] then 0 else fst (last L)) + 1" and b: "g < 2 ^ 64"
  shows "\<exists>ino' st. kv_open E d = Ok st \<and> kv_view E (L @ [(g, [])]) ino' st \<and> current_gen st = g \<and>
     uncompacted st = snd (replay E L)"
proof -
  have gl: "sorted_gen_list d = map fst L" by (rule log_dir_gens[OF l s])
  have lst: "(if map fst L = [] then 0 else last (map fst L)) + 1 = g" using g by (simp add: last_map)
  have le: "h < g" if "h \<in> fst ` set L" for h
  proof -
    have "L \<noteq> []" using that by auto
    then obtain M cs where "L = M @ [(fst (last L), cs)]" using snoc_of[OF _ refl] by blast
    then have "h \<le> fst (last L)" using sorted_gens_below[of M "fst (last L)" cs h] s that by simp
    then show ?thesis using g \<open>L \<noteq> []\<close> by simp
  qed
  obtain rs where rs: "open_loop E d (map fst L) [] [] 0 = Ok (rs, fst (replay E L), snd (replay E L))"
    "readers_for rs (fst ` set L) ino"
    using open_loop_spec[of E d "[]" L ino "[]"] l sd by (auto simp: readers_for_def)
  define st0 where "st0 = \<lparr>disk = d, readers = rs, kv_writer = writer_new 0, current_gen = g,
     index = fst (replay E L), uncompacted = snd (replay E L)\<rparr>"
  have l0: "log_dir E (disk st0) L ino" and r0: "distinct (map fst (readers st0))"
    "\<forall>h. map_option r_ino (map_of (readers st0) h) = (if h \<in> fst ` set L then Some (ino h) else None)"
    using l rs(2) by (simp_all add: st0_def readers_for_def)
  have n: "g \<notin> fst ` set L" using le by blast
  have s': "set (L @ [(g, [])]) = insert (g, []) (set L)" and d': "distinct (map fst (L @ [(g, [])]))"
    using log_dirD(2)[OF l] n by auto
  obtain d1 rs1 i where f: "kvs_new_log_file g st0 = (Ok (writer_new i), st0\<lparr>readers := rs1, disk := d1\<rparr>)"
    "log_dir E d1 (L @ [(g, [])]) (ino(g := i))" "inodes d1 i = []" "\<forall>h\<in>fst ` set L. ino h \<noteq> i"
    "\<forall>j. j \<noteq> i \<longrightarrow> inodes d1 j = inodes (disk st0) j" "distinct (map fst rs1)"
    "\<forall>h. map_option r_ino (map_of rs1 h) = (if h \<in> fst ` set (L @ [(g, [])]) then Some ((ino(g := i)) h) else None)"
    by (rule new_log_file_E[OF l0 n b s' d' r0])
  have srt: "sorted_wrt (<) (map fst (L @ [(g, [])]))"
    using s le by (simp add: sorted_wrt_append)
  let ?st = "st0\<lparr>readers := rs1, disk := d1, kv_writer := writer_new i\<rparr>"
  have "new_log_file g rs d = (Ok (writer_new i), rs1, d1)"
    using f(1) by (simp add: kvs_new_log_file_def st0_def split: prod.splits)
  then have "kv_open E d = Ok ?st"
    unfolding kv_open_def Let_def gl lst rs(1) using b by (simp add: st0_def split_beta)
  moreover have "kv_view E (L @ [(g, [])]) (ino(g := i)) ?st"
    using f(2,6,7) srt by (simp add: kv_view_def st0_def writer_new_def)
  ultimately show ?thesis by (intro exI[of _ "ino(g := i)"] exI[of _ ?st]) (simp add: st0_def)
qed

subsection \<open>The store is a map\<close>

lemma kv_inv_set:
  assumes "kv_inv E (Suc n) st"
  shows "\<exists>st'. kv_set E k v st = (Ok (), st') \<and> kv_inv E n st' \<and> kv_abs E st' = (kv_abs E st)(k \<mapsto> v) \<and>
     uncompacted st' \<le> COMPACTION_THRESHOLD"
proof -
  obtain L ino where v: "kv_view E L ino st" and sd: "serde_ok E" and b: "current_gen st + 2 * Suc n < 2 ^ 64"
    using assms by (auto simp: kv_inv_def)
  have "current_gen st + 2 < 2 ^ 64" using b by simp
  from kv_set_view[OF v sd this, of k "v"] obtain L' ino' st' where
    st': "kv_set E k v st = (Ok (), st')" "kv_view E L' ino' st'" "current_gen st' \<le> current_gen st + 2"
      "contents L' = (contents L)(k \<mapsto> v)" "uncompacted st' \<le> COMPACTION_THRESHOLD" by auto
  have "kv_inv E n st'" using st'(2,3) sd b by (auto simp: kv_inv_def)
  then show ?thesis using st' kv_view_abs[OF v sd] kv_view_abs[OF st'(2) sd] by simp
qed

lemma kv_inv_get:
  assumes "kv_inv E n st"
  shows "\<exists>st'. kv_get E k st = (Ok (kv_abs E st k), st') \<and> kv_inv E n st' \<and> kv_abs E st' = kv_abs E st"
proof -
  obtain L ino where v: "kv_view E L ino st" and sd: "serde_ok E" and b: "current_gen st + 2 * n < 2 ^ 64"
    using assms by (auto simp: kv_inv_def)
  from kv_get_view[OF v sd, of k] obtain st' where
    st': "kv_get E k st = (Ok (contents L k), st')" "kv_view E L ino st'" "current_gen st' = current_gen st" by auto
  have "kv_inv E n st'" using st'(2,3) sd b by (auto simp: kv_inv_def)
  then show ?thesis using st' kv_view_abs[OF v sd] kv_view_abs[OF st'(2) sd] by simp
qed

lemma kv_inv_remove:
  assumes "kv_inv E (Suc n) st"
  shows "\<exists>st'. kv_remove E k st = (if kv_abs E st k = None then Err KeyNotFound else Ok (), st') \<and>
     kv_inv E n st' \<and> kv_abs E st' = (kv_abs E st)(k := None)"
proof -
  obtain L ino where v: "kv_view E L ino st" and sd: "serde_ok E" and b: "current_gen st + 2 * Suc n < 2 ^ 64"
    using assms by (auto simp: kv_inv_def)
  have abs: "kv_abs E st = contents L" by (rule kv_view_abs[OF v sd])
  show ?thesis
  proof (cases "kv_abs E st k")
    case None
    then have "kv_remove E k st = (Err KeyNotFound, st)"
      using kv_abs_None[OF v sd] by (simp add: kv_remove_def)
    moreover have "kv_inv E n st" using assms b by (auto simp: kv_inv_def)
    ultimately show ?thesis using None by (auto simp: fun_upd_idem)
  next
    case (Some w)
    then have "contents L k \<noteq> None" using abs by simp
    from kv_remove_view[OF v sd this] obtain L' st' where
      st': "kv_remove E k st = (Ok (), st')" "kv_view E L' ino st'" "current_gen st' = current_gen st"
        "contents L' = (contents L)(k := None)" by auto
    have "kv_inv E n st'" using st'(2,3) sd b by (auto simp: kv_inv_def)
    then show ?thesis using st' abs kv_view_abs[OF st'(2) sd] Some by simp
  qed
qed

lemma kv_inv_reopen:
  assumes "kv_inv E (Suc n) st"
  shows "\<exists>st'. kv_open E (disk st) = Ok st' \<and> kv_inv E n st' \<and> kv_abs E st' = kv_abs E st"
proof -
  obtain L ino where v: "kv_view E L ino st" and sd: "serde_ok E" and b: "current_gen st + 2 * Suc n < 2 ^ 64"
    using assms by (auto simp: kv_inv_def)
  have l: "log_dir E (disk st) L ino" "sorted_wrt (<) (map fst L)" "L \<noteq> []" "fst (last L) = current_gen st"
    using v by (simp_all add: kv_view_def)
  have g: "current_gen st + 1 = (if L = [] then 0 else fst (last L)) + 1" "current_gen st + 1 < 2 ^ 64" using l b by auto
  from kv_open_view[OF l(1,2) sd g] obtain ino' st' where
    st': "kv_open E (disk st) = Ok st'" "kv_view E (L @ [(current_gen st + 1, [])]) ino' st'" "current_gen st' = current_gen st + 1"
    by auto
  have "kv_inv E n st'" using st'(2,3) sd b by (auto simp: kv_inv_def)
  then show ?thesis using st' kv_view_abs[OF v sd] kv_view_abs[OF st'(2) sd] by simp
qed

lemma kv_open_empty:
  assumes "serde_ok E" "2 * n + 1 < 2 ^ 64"
  shows "\<exists>st. kv_open E fs_empty = Ok st \<and> kv_inv E n st \<and> kv_abs E st = (\<lambda>_. None)"
proof -
  obtain ino' st where st: "kv_open E fs_empty = Ok st" "kv_view E ([] @ [(1, [])]) ino' st" "current_gen st = 1"
    using kv_open_view[of E fs_empty "[]" undefined 1] log_dir_empty assms(1) by auto
  have "kv_abs E st = contents ([] @ [(1, [])])" by (rule kv_view_abs[OF st(2) assms(1)])
  then show ?thesis using st assms by (auto simp: kv_inv_def contents_def)
qed

definition kv_engine :: "kv_env \<Rightarrow> kvs engine" where
  "kv_engine E = \<lparr>eng_set = kv_set E, eng_get = kv_get E, eng_remove = kv_remove E\<rparr>"

lemma kv_engine_simps [simp]:
  "eng_set (kv_engine E) = kv_set E" "eng_get (kv_engine E) = kv_get E" "eng_remove (kv_engine E) = kv_remove E"
  by (simp_all add: kv_engine_def)

interpretation kve: kvs_engine "kv_engine E" "kv_inv E" "kv_abs E" "\<lambda>_. True" for E
proof unfold_locales
  show "kv_inv E n st" if "kv_inv E (Suc n) st" for n st using that by (auto simp: kv_inv_def)
  show "\<exists>st'. eng_set (kv_engine E) k v st = (Ok (), st') \<and> kv_inv E n st' \<and> kv_abs E st' = (kv_abs E st)(k \<mapsto> v)"
    if "kv_inv E (Suc n) st" for n st k v using kv_inv_set[OF that, of k v] by auto
  show "\<exists>st'. eng_get (kv_engine E) k st = (Ok (kv_abs E st k), st') \<and> kv_inv E n st' \<and> kv_abs E st' = kv_abs E st"
    if "kv_inv E n st" for n st k using kv_inv_get[OF that, of k] by simp
  show "\<exists>st'. eng_remove (kv_engine E) k st = (if kv_abs E st k = None then Err KeyNotFound else Ok (), st') \<and>
      kv_inv E n st' \<and> kv_abs E st' = (kv_abs E st)(k := None)"
    if "kv_inv E (Suc n) st" for n st k using kv_inv_remove[OF that, of k] by simp
qed

subsection \<open>Bytes on disk\<close>

definition log_bytes :: "kvs \<Rightarrow> nat" where
  "log_bytes st = sum_list (map (\<lambda>(_, rd). length (inodes (disk st) (r_ino rd))) (readers st))"

definition live_bytes :: "kvs \<Rightarrow> nat" where
  "live_bytes st = bt_sum cp_len (index st)"

lemma sum_list_by_key:
  assumes "distinct (map fst xs)"
  shows "sum_list (map (\<lambda>(k, v). f k v) xs) = (\<Sum>k\<in>fst ` set xs. f k (the (map_of xs k)))"
  using assms
proof (induction xs)
  case (Cons x xs)
  obtain k v where x: "x = (k, v)" by fastforce
  have "k \<notin> fst ` set xs" using Cons.prems x by simp
  then have "(\<Sum>h\<in>fst ` set xs. f h (the (map_of (x # xs) h))) = (\<Sum>h\<in>fst ` set xs. f h (the (map_of xs h)))"
    by (intro sum.cong) (auto simp: x)
  then show ?case using Cons \<open>k \<notin> fst ` set xs\<close> by (simp add: x)
qed simp

lemma log_bytes_view:
  assumes v: "kv_view E L ino st"
  shows "log_bytes st = total_bytes E L"
proof -
  have o: "old_files_ok E L ino st" using v by (simp add: kv_view_def old_files_ok_def)
  have l: "log_dir E (disk st) L ino" and d: "distinct (map fst (readers st))" using o by (simp_all add: old_files_ok_def)
  have "length (inodes (disk st) (r_ino (the (map_of (readers st) g)))) = length (encode E (the (map_of L g)))"
    if g: "g \<in> fst ` set L" for g
  proof -
    obtain cs where cs: "(g, cs) \<in> set L" using g by auto
    obtain rd where "map_of (readers st) g = Some rd" "inodes (disk st) (r_ino rd) = encode E cs"
      using kv_view_reader[OF v cs] by blast
    moreover have "map_of L g = Some cs" using cs log_dirD(2)[OF l] by simp
    ultimately show ?thesis by simp
  qed
  then show ?thesis unfolding log_bytes_def total_bytes_def
    using sum_list_by_key[OF d, of "\<lambda>_ rd. length (inodes (disk st) (r_ino rd))"]
      sum_list_by_key[OF log_dirD(2)[OF l], of "\<lambda>_ cs. length (encode E cs)"] old_files_keys[OF o]
    by (simp add: split_beta)
qed

lemma kv_inv_bytes: "kv_inv E n st \<Longrightarrow> uncompacted st + live_bytes st \<le> log_bytes st"
proof -
  assume "kv_inv E n st"
  then obtain L ino where v: "kv_view E L ino st" by (auto simp: kv_inv_def)
  have "distinct (map fst L)" using v log_dirD(2) by (auto simp: kv_view_def)
  from replay_bytes[OF this, of E] log_bytes_view[OF v] v show ?thesis
    by (simp add: kv_view_def live_bytes_def)
qed

lemma kv_inv_compact:
  assumes "kv_inv E (Suc n) st"
  shows "\<exists>st'. compact E st = (Ok (), st') \<and> kv_inv E n st' \<and> kv_abs E st' = kv_abs E st \<and>
     uncompacted st' = 0 \<and> log_bytes st' = live_bytes st'"
proof -
  obtain L ino where v: "kv_view E L ino st" and sd: "serde_ok E" and b: "current_gen st + 2 * Suc n < 2 ^ 64"
    using assms by (auto simp: kv_inv_def)
  have "current_gen st + 2 < 2 ^ 64" using b by simp
  from compact_view[OF v sd this] obtain L' ino' st' where
    st': "compact E st = (Ok (), st')" "kv_view E L' ino' st'" "current_gen st' = current_gen st + 2"
      "contents L' = contents L" "uncompacted st' = 0" "total_bytes E L' = bt_sum cp_len (index st')" by blast
  have "kv_inv E n st'" using st'(2,3) sd b by (auto simp: kv_inv_def)
  then show ?thesis using st' kv_view_abs[OF v sd] kv_view_abs[OF st'(2) sd] log_bytes_view[OF st'(2)]
    by (simp add: live_bytes_def)
qed

lemma kv_remove_bytes:
  assumes "kv_inv E n st" "kv_remove E k st = (Ok (), st')"
  shows "uncompacted st' + live_bytes st' = uncompacted st + live_bytes st \<and>
     log_bytes st' = log_bytes st + length (serialize E (CRemove k))"
proof -
  obtain L ino where v: "kv_view E L ino st" using assms(1) by (auto simp: kv_inv_def)
  obtain cp where cp: "map_of (index st) k = Some cp"
    using assms(2) by (auto simp: kv_remove_def split: option.splits)
  obtain w1 d1 where w1: "writer_write (serialize E (CRemove k)) (kv_writer st) (disk st) = (w1, d1)" by fastforce
  obtain w2 d2 where w2: "writer_flush w1 d1 = (w2, d2)" by fastforce
  have st': "st' = st\<lparr>disk := d2, kv_writer := w2, index := bt_remove k (index st), uncompacted := uncompacted st + cp_len cp\<rparr>"
    using assms(2) cp w1 w2 by (simp add: kv_remove_def)
  have "bt_ok (index st)" using kv_view_index[OF v] by (simp add: index_ok_def)
  from bt_sum_remove[OF this, of cp_len k] have 1: "uncompacted st' + live_bytes st' = uncompacted st + live_bytes st"
    by (simp add: st' cp live_bytes_def)
  obtain M cs where L: "L = M @ [(current_gen st, cs)]" using kv_view_last[OF v] by blast
  have w: "w_buf (kv_writer st) = []" "w_ino (kv_writer st) = ino (current_gen st)" using v by (simp_all add: kv_view_def)
  let ?u = "snd (replay E (M @ [(current_gen st, cs)]))"
  have u: "uncompacted st \<le> ?u" using v L by (simp add: kv_view_def)
  have "kv_view E (M @ [(current_gen st, cs @ [CRemove k])]) ino st'" unfolding st'
  proof (rule kv_view_append)
    show "kv_view E (M @ [(current_gen st, cs)]) ino st" using v L by simp
    show "(bt_remove k (index st), ?u + cp_len cp + length (serialize E (CRemove k))) =
        cmd_step E (current_gen st) (w_pos (kv_writer st)) (CRemove k) (index st, ?u)"
      using cp by (simp add: cmd_step_def)
  qed (use writer_write_flush[OF w1 w2] w u in simp_all)
  from log_bytes_view[OF this] log_bytes_view[OF v] 1 show ?thesis by (simp add: L total_bytes_def)
qed

lemma open_loop_error:
  assumes "\<forall>g\<in>set gens. \<exists>i. fs_open_read (log_path g) d = Inr i"
    and "\<exists>g\<in>set gens. \<exists>i. fs_open_read (log_path g) d = Inr i \<and> snd (stream E (inodes d i))"
  shows "open_loop E d gens rs ix u = Err Serde"
  using assms
proof (induction gens arbitrary: rs ix u)
  case (Cons g gens)
  obtain i where i: "fs_open_read (log_path g) d = Inr i" using Cons.prems(1) by auto
  obtain its failed where st: "stream E (inodes d i) = (its, failed)" by fastforce
  obtain ix' n where lp: "load_loop g its 0 ix 0 = (ix', n)" by fastforce
  have "load E g (reader_new i) ix d = (if failed then Err Serde else Ok n, ix', (reader_new i)\<lparr>r_pos := length (inodes d i)\<rparr>)"
    using st lp by (simp add: load_def reader_new_def reader_seek_def reader_read_def fs_read_def Let_def)
  then show ?case using i st Cons by (cases failed) auto
qed simp

end
