(* ===== verification/KvsServer.thy ===== *)
theory KvsServer
  imports KvStore
begin

text \<open>
  Server, client and command lines of project 3 and the command line of project 2
  (\<^verbatim>\<open>courses/rust/projects/project-3/src/server.rs\<close>, \<^verbatim>\<open>client.rs\<close>, \<^verbatim>\<open>error.rs\<close>, \<^verbatim>\<open>bin/kvs-server.rs\<close>,
  \<^verbatim>\<open>bin/kvs-client.rs\<close>, \<^verbatim>\<open>project-2/src/bin/kvs.rs\<close>). A connection is what the socket delivers: the requests
  its stream decodes to, whether the stream ends in a decoding error, and which responses can still be
  written. The text of a wrapped error is the parameter \<open>cause\<close>.
\<close>

subsection \<open>Errors as text\<close>

definition show_error :: "(kvs_error \<Rightarrow> string) \<Rightarrow> kvs_error \<Rightarrow> string" where
  "show_error cause e =
     (case e of
        Io i \<Rightarrow> ''IO error: '' @ cause e
      | Serde \<Rightarrow> ''serde_json error: '' @ cause e
      | KeyNotFound \<Rightarrow> ''Key not found''
      | UnexpectedCommandType \<Rightarrow> ''Unexpected command type''
      | Utf8 \<Rightarrow> ''UTF-8 error: '' @ cause e
      | Sled \<Rightarrow> ''sled error: '' @ cause e
      | StringError msg \<Rightarrow> msg)"

subsection \<open>The server\<close>

record conn =
  requests :: "request list"
  bad_end :: bool
  can_write :: "nat \<Rightarrow> bool"

text \<open>One request: call the engine, turn its result into a response. A panic of the engine ends the thread.\<close>

definition handle ::
  "(kvs_error \<Rightarrow> string) \<Rightarrow> 's engine \<Rightarrow> request \<Rightarrow> 's \<Rightarrow> (kvs_error, response) outcome \<times> 's" where
  "handle cause eng req s =
     (case req of
        ReqGet key \<Rightarrow>
          (case eng_get eng key s of
             (Ok v, s') \<Rightarrow> (Ok (RespGet (GetOk v)), s')
           | (Err e, s') \<Rightarrow> (Ok (RespGet (GetErr (show_error cause e))), s')
           | (Panic, s') \<Rightarrow> (Panic, s'))
      | ReqSet key v \<Rightarrow>
          (case eng_set eng key v s of
             (Ok _, s') \<Rightarrow> (Ok (RespSet SetOk), s')
           | (Err e, s') \<Rightarrow> (Ok (RespSet (SetErr (show_error cause e))), s')
           | (Panic, s') \<Rightarrow> (Panic, s'))
      | ReqRemove key \<Rightarrow>
          (case eng_remove eng key s of
             (Ok _, s') \<Rightarrow> (Ok (RespRemove RemoveOk), s')
           | (Err e, s') \<Rightarrow> (Ok (RespRemove (RemoveErr (show_error cause e))), s')
           | (Panic, s') \<Rightarrow> (Panic, s')))"

fun serve_loop ::
  "(kvs_error \<Rightarrow> string) \<Rightarrow> 's engine \<Rightarrow> (nat \<Rightarrow> bool) \<Rightarrow> bool \<Rightarrow> nat \<Rightarrow> request list \<Rightarrow> 's \<Rightarrow>
   (kvs_error, unit) outcome \<times> response list \<times> 's" where
  "serve_loop cause eng wr bad i [] s = ((if bad then Err Serde else Ok ()), [], s)"
| "serve_loop cause eng wr bad i (req # reqs) s =
     (case handle cause eng req s of
        (Ok resp, s') \<Rightarrow>
          (if wr i
           then (case serve_loop cause eng wr bad (Suc i) reqs s' of (r, resps, s'') \<Rightarrow> (r, resp # resps, s''))
           else (Err (Io BrokenPipe), [], s'))
      | (Err e, s') \<Rightarrow> (Err e, [], s')
      | (Panic, s') \<Rightarrow> (Panic, [], s'))"

definition serve ::
  "(kvs_error \<Rightarrow> string) \<Rightarrow> 's engine \<Rightarrow> conn \<Rightarrow> 's \<Rightarrow> (kvs_error, unit) outcome \<times> response list \<times> 's" where
  "serve cause eng c s = serve_loop cause eng (can_write c) (bad_end c) 0 (requests c) s"

text \<open>Incoming connections one after the other; \<^const>\<open>None\<close> is a connection that failed before it was served.\<close>

fun run_server ::
  "(kvs_error \<Rightarrow> string) \<Rightarrow> 's engine \<Rightarrow> conn option list \<Rightarrow> 's \<Rightarrow> (kvs_error, unit) outcome \<times> response list list \<times> 's" where
  "run_server cause eng [] s = (Ok (), [], s)"
| "run_server cause eng (None # cs) s = run_server cause eng cs s"
| "run_server cause eng (Some c # cs) s =
     (case serve cause eng c s of
        (Panic, resps, s') \<Rightarrow> (Panic, [resps], s')
      | (_, resps, s') \<Rightarrow> (case run_server cause eng cs s' of (r, out, s'') \<Rightarrow> (r, resps # out, s'')))"

subsection \<open>The client\<close>

text \<open>A call of the client: the response the connection yields for the request, if any.\<close>

definition client_get :: "(request \<Rightarrow> response option) \<Rightarrow> string \<Rightarrow> (kvs_error, string option) outcome" where
  "client_get exchange key =
     (case exchange (ReqGet key) of
        Some (RespGet (GetOk v)) \<Rightarrow> Ok v
      | Some (RespGet (GetErr msg)) \<Rightarrow> Err (StringError msg)
      | _ \<Rightarrow> Err Serde)"

definition client_set :: "(request \<Rightarrow> response option) \<Rightarrow> string \<Rightarrow> string \<Rightarrow> (kvs_error, unit) outcome" where
  "client_set exchange key v =
     (case exchange (ReqSet key v) of
        Some (RespSet SetOk) \<Rightarrow> Ok ()
      | Some (RespSet (SetErr msg)) \<Rightarrow> Err (StringError msg)
      | _ \<Rightarrow> Err Serde)"

definition client_remove :: "(request \<Rightarrow> response option) \<Rightarrow> string \<Rightarrow> (kvs_error, unit) outcome" where
  "client_remove exchange key =
     (case exchange (ReqRemove key) of
        Some (RespRemove RemoveOk) \<Rightarrow> Ok ()
      | Some (RespRemove (RemoveErr msg)) \<Rightarrow> Err (StringError msg)
      | _ \<Rightarrow> Err Serde)"

text \<open>The client binary: what it prints on standard output and standard error, and its exit code.\<close>

record cli_result =
  out_lines :: "string list"
  err_lines :: "string list"
  exit_code :: nat

definition cli_finish :: "(kvs_error \<Rightarrow> string) \<Rightarrow> (kvs_error, string list) outcome \<Rightarrow> cli_result" where
  "cli_finish cause r =
     (case r of
        Ok out \<Rightarrow> \<lparr>out_lines = out, err_lines = [], exit_code = 0\<rparr>
      | Err e \<Rightarrow> \<lparr>out_lines = [], err_lines = [show_error cause e], exit_code = 1\<rparr>
      | Panic \<Rightarrow> \<lparr>out_lines = [], err_lines = [], exit_code = 101\<rparr>)"

fun client_run :: "(request \<Rightarrow> response option) \<Rightarrow> request \<Rightarrow> (kvs_error, string list) outcome" where
  "client_run exchange (ReqGet key) =
     (case client_get exchange key of
        Ok (Some v) \<Rightarrow> Ok [v]
      | Ok None \<Rightarrow> Ok [''Key not found'']
      | Err e \<Rightarrow> Err e
      | Panic \<Rightarrow> Panic)"
| "client_run exchange (ReqSet key v) =
     (case client_set exchange key v of Ok _ \<Rightarrow> Ok [] | Err e \<Rightarrow> Err e | Panic \<Rightarrow> Panic)"
| "client_run exchange (ReqRemove key) =
     (case client_remove exchange key of Ok _ \<Rightarrow> Ok [] | Err e \<Rightarrow> Err e | Panic \<Rightarrow> Panic)"

definition client_main :: "(kvs_error \<Rightarrow> string) \<Rightarrow> (request \<Rightarrow> response option) \<Rightarrow> request \<Rightarrow> cli_result" where
  "client_main cause exchange cmd = cli_finish cause (client_run exchange cmd)"

text \<open>A fresh connection to a server in state \<open>s\<close> that carries one request.\<close>

definition one_shot :: "(kvs_error \<Rightarrow> string) \<Rightarrow> 's engine \<Rightarrow> 's \<Rightarrow> request \<Rightarrow> response option" where
  "one_shot cause eng s req =
     (case serve cause eng \<lparr>requests = [req], bad_end = False, can_write = (\<lambda>_. True)\<rparr> s of
        (_, resp # _, _) \<Rightarrow> Some resp
      | (_, [], _) \<Rightarrow> None)"

subsection \<open>The command line of project 2\<close>

text \<open>Every invocation opens the store in the current directory, performs one operation and exits.\<close>

definition kvs_main :: "(kvs_error \<Rightarrow> string) \<Rightarrow> kv_env \<Rightarrow> request \<Rightarrow> fs \<Rightarrow> cli_result \<times> fs" where
  "kvs_main debug E cmd d =
     (let failed = (\<lambda>e. \<lparr>out_lines = [], err_lines = [''Error: '' @ debug e], exit_code = 1\<rparr>);
          panicked = \<lparr>out_lines = [], err_lines = [], exit_code = 101\<rparr>
      in case kv_open E d of
           Err e \<Rightarrow> (failed e, d)
         | Panic \<Rightarrow> (panicked, d)
         | Ok store \<Rightarrow>
             (case cmd of
                ReqSet key v \<Rightarrow>
                  (case kv_set E key v store of
                     (Ok _, st) \<Rightarrow> (\<lparr>out_lines = [], err_lines = [], exit_code = 0\<rparr>, disk st)
                   | (Err e, st) \<Rightarrow> (failed e, disk st)
                   | (Panic, st) \<Rightarrow> (panicked, disk st))
              | ReqGet key \<Rightarrow>
                  (case kv_get E key store of
                     (Ok (Some v), st) \<Rightarrow> (\<lparr>out_lines = [v], err_lines = [], exit_code = 0\<rparr>, disk st)
                   | (Ok None, st) \<Rightarrow> (\<lparr>out_lines = [''Key not found''], err_lines = [], exit_code = 0\<rparr>, disk st)
                   | (Err e, st) \<Rightarrow> (failed e, disk st)
                   | (Panic, st) \<Rightarrow> (panicked, disk st))
              | ReqRemove key \<Rightarrow>
                  (case kv_remove E key store of
                     (Ok _, st) \<Rightarrow> (\<lparr>out_lines = [], err_lines = [], exit_code = 0\<rparr>, disk st)
                   | (Err e, st) \<Rightarrow>
                       (if e = KeyNotFound
                        then (\<lparr>out_lines = [''Key not found''], err_lines = [], exit_code = 1\<rparr>, disk st)
                        else (failed e, disk st))
                   | (Panic, st) \<Rightarrow> (panicked, disk st))))"

fun kvs_session :: "(kvs_error \<Rightarrow> string) \<Rightarrow> kv_env \<Rightarrow> request list \<Rightarrow> fs \<Rightarrow> cli_result list \<times> fs" where
  "kvs_session debug E [] d = ([], d)"
| "kvs_session debug E (cmd # cmds) d =
     (let (r, d1) = kvs_main debug E cmd d; (rs, d2) = kvs_session debug E cmds d1 in (r # rs, d2))"

subsection \<open>The choice of the engine\<close>

datatype engine_kind = EngineKvs | EngineSled

definition DEFAULT_ENGINE :: engine_kind where
  "DEFAULT_ENGINE = EngineKvs"

datatype start = Refused | Started engine_kind

text \<open>
  The file \<^verbatim>\<open>engine\<close> of the working directory, if it exists, holds the name of the engine used before. The
  names are printed and parsed by code the \<^verbatim>\<open>arg_enum\<close> macro generates, the parameters \<open>disp\<close> and \<open>parse\<close>.
\<close>

definition current_engine :: "(string \<Rightarrow> engine_kind option) \<Rightarrow> string option \<Rightarrow> engine_kind option" where
  "current_engine parse file = (case file of None \<Rightarrow> None | Some txt \<Rightarrow> parse txt)"

definition server_run :: "(engine_kind \<Rightarrow> string) \<Rightarrow> engine_kind option \<Rightarrow> start \<times> string option" where
  "server_run disp opt = (let eng = (case opt of Some e \<Rightarrow> e | None \<Rightarrow> DEFAULT_ENGINE) in (Started eng, Some (disp eng)))"

definition server_main ::
  "(engine_kind \<Rightarrow> string) \<Rightarrow> (string \<Rightarrow> engine_kind option) \<Rightarrow> engine_kind option \<Rightarrow> string option \<Rightarrow> start \<times> string option" where
  "server_main disp parse opt file =
     (let curr = current_engine parse file;
          opt1 = (if opt = None then curr else opt)
      in if curr \<noteq> None \<and> opt1 \<noteq> curr then (Refused, file) else server_run disp opt1)"

subsection \<open>What a session returns\<close>

fun spec_resp :: "(string \<Rightarrow> string option) \<Rightarrow> request \<Rightarrow> response" where
  "spec_resp m (ReqGet k) = RespGet (GetOk (m k))"
| "spec_resp m (ReqSet k v) = RespSet SetOk"
| "spec_resp m (ReqRemove k) = RespRemove (if m k = None then RemoveErr ''Key not found'' else RemoveOk)"

fun spec_session :: "(string \<Rightarrow> string option) \<Rightarrow> request list \<Rightarrow> response list" where
  "spec_session m [] = []"
| "spec_session m (r # rs) = spec_resp m r # spec_session (map_after r m) rs"

lemma length_spec_session [simp]: "length (spec_session m rs) = length rs"
  by (induction rs arbitrary: m) auto

fun spec_sessions :: "(string \<Rightarrow> string option) \<Rightarrow> request list list \<Rightarrow> response list list" where
  "spec_sessions m [] = []"
| "spec_sessions m (rs # rss) = spec_session m rs # spec_sessions (fold map_after rs m) rss"

context kvs_engine
begin

lemma inv_drop: "inv (m + n) s \<Longrightarrow> inv n s"
  by (induction m) (auto dest: inv_less)

lemma handle_spec:
  assumes "inv (Suc n) s" "request_ok ok req"
  shows "\<exists>s'. handle cause eng req s = (Ok (spec_resp (abs s) req), s') \<and> inv n s' \<and> abs s' = map_after req (abs s)"
proof (cases req)
  case (ReqGet k)
  then show ?thesis using get_law[OF inv_less[OF assms(1)], of k] by (auto simp: handle_def)
next
  case (ReqSet k v)
  then show ?thesis using set_law[OF assms(1), of v k] assms(2) by (auto simp: handle_def)
next
  case (ReqRemove k)
  then show ?thesis using remove_law[OF assms(1), of k] by (auto simp: handle_def show_error_def)
qed

text \<open>
  Whatever the connection does, the responses that went out are those of the map, and the engine has
  performed the requests that were answered and at most one more.
\<close>

lemma serve_loop_prefix:
  assumes "inv (length reqs + n) s" "list_all (request_ok ok) reqs"
  shows "\<exists>r s' j. serve_loop cause eng wr bad i reqs s = (r, take j (spec_session (abs s) reqs), s') \<and> \<not> is_panic r \<and>
     j \<le> length reqs \<and> inv n s' \<and>
     (abs s' = fold map_after (take j reqs) (abs s) \<or> abs s' = fold map_after (take (Suc j) reqs) (abs s)) \<and>
     ((\<forall>k. wr k) \<longrightarrow> j = length reqs \<and> r = (if bad then Err Serde else Ok ()) \<and> abs s' = fold map_after reqs (abs s))"
  using assms
proof (induction reqs arbitrary: i s)
  case Nil
  then show ?case by (intro exI[of _ "if bad then Err Serde else Ok ()"] exI[of _ s] exI[of _ 0]) auto
next
  case (Cons req reqs)
  have i1: "inv (Suc (length reqs + n)) s" and rq: "request_ok ok req" "list_all (request_ok ok) reqs" using Cons.prems by simp_all
  from handle_spec[OF i1 rq(1), of cause] obtain s1 where
    s1: "handle cause eng req s = (Ok (spec_resp (abs s) req), s1)" "inv (length reqs + n) s1"
      "abs s1 = map_after req (abs s)" by blast
  show ?case
  proof (cases "wr i")
    case True
    from Cons.IH[OF s1(2) rq(2), of "Suc i"] obtain r s' j where
      IH: "serve_loop cause eng wr bad (Suc i) reqs s1 = (r, take j (spec_session (abs s1) reqs), s')" "\<not> is_panic r"
        "j \<le> length reqs" "inv n s'"
        "abs s' = fold map_after (take j reqs) (abs s1) \<or> abs s' = fold map_after (take (Suc j) reqs) (abs s1)"
        "(\<forall>k. wr k) \<longrightarrow> j = length reqs \<and> r = (if bad then Err Serde else Ok ()) \<and> abs s' = fold map_after reqs (abs s1)"
      by blast
    show ?thesis using IH s1 True
      by (intro exI[of _ r] exI[of _ s'] exI[of _ "Suc j"]) auto
  next
    case False
    have "inv n s1" using s1(2) by (rule inv_drop)
    then show ?thesis using s1 False
      by (intro exI[of _ "Err (Io BrokenPipe)"] exI[of _ s1] exI[of _ 0]) auto
  qed
qed

end

fun served :: "conn option list \<Rightarrow> request list list" where
  "served [] = []"
| "served (None # cs) = served cs"
| "served (Some c # cs) = requests c # served cs"

context kvs_engine
begin

lemma serve_spec:
  assumes "inv (length (requests c) + n) s" "list_all (request_ok ok) (requests c)"
  shows "\<exists>r s' j. serve cause eng c s = (r, take j (spec_session (abs s) (requests c)), s') \<and> \<not> is_panic r \<and>
     j \<le> length (requests c) \<and> inv n s' \<and>
     (abs s' = fold map_after (take j (requests c)) (abs s) \<or> abs s' = fold map_after (take (Suc j) (requests c)) (abs s)) \<and>
     ((\<forall>k. can_write c k) \<longrightarrow> j = length (requests c) \<and> r = (if bad_end c then Err Serde else Ok ()) \<and>
        abs s' = fold map_after (requests c) (abs s))"
  unfolding serve_def by (rule serve_loop_prefix[OF assms])

lemma run_server_spec:
  assumes "inv (length (concat (served cs)) + n) s" "list_all (request_ok ok) (concat (served cs))"
  shows "\<exists>out s'. run_server cause eng cs s = (Ok (), out, s') \<and> inv n s' \<and>
     ((\<forall>c. Some c \<in> set cs \<longrightarrow> (\<forall>k. can_write c k)) \<longrightarrow>
        out = spec_sessions (abs s) (served cs) \<and> abs s' = fold map_after (concat (served cs)) (abs s))"
  using assms
proof (induction cs arbitrary: s rule: served.induct)
  case (3 c cs)
  have "inv (length (requests c) + (length (concat (served cs)) + n)) s" using "3.prems" by (simp add: add.assoc)
  moreover have rq: "list_all (request_ok ok) (requests c)" "list_all (request_ok ok) (concat (served cs))"
    using "3.prems" by simp_all
  ultimately have "\<exists>r s' j. serve cause eng c s = (r, take j (spec_session (abs s) (requests c)), s') \<and> \<not> is_panic r \<and>
     inv (length (concat (served cs)) + n) s' \<and>
     ((\<forall>k. can_write c k) \<longrightarrow> j = length (requests c) \<and> abs s' = fold map_after (requests c) (abs s))"
    using serve_spec[of c "length (concat (served cs)) + n" s cause] by blast
  then obtain r s1 j where
    s1: "serve cause eng c s = (r, take j (spec_session (abs s) (requests c)), s1)" "\<not> is_panic r"
      "inv (length (concat (served cs)) + n) s1"
      "(\<forall>k. can_write c k) \<longrightarrow> j = length (requests c) \<and> abs s1 = fold map_after (requests c) (abs s)" by blast
  from "3.IH"[OF s1(3) rq(2)] obtain out s' where
    IH: "run_server cause eng cs s1 = (Ok (), out, s')" "inv n s'"
      "(\<forall>c. Some c \<in> set cs \<longrightarrow> (\<forall>k. can_write c k)) \<longrightarrow>
        out = spec_sessions (abs s1) (served cs) \<and> abs s' = fold map_after (concat (served cs)) (abs s1)" by blast
  have "run_server cause eng (Some c # cs) s = (Ok (), take j (spec_session (abs s) (requests c)) # out, s')"
    using s1(1,2) IH(1) by (cases r) simp_all
  then show ?case using s1(4) IH(2,3) by (auto split: if_splits)
qed auto

end

subsection \<open>A directory between invocations\<close>

definition kv_dir :: "kv_env \<Rightarrow> nat \<Rightarrow> fs \<Rightarrow> (string \<Rightarrow> string option) \<Rightarrow> bool" where
  "kv_dir E n d m \<longleftrightarrow> serde_ok E \<and> (\<exists>L ino. log_dir E d L ino \<and> sorted_wrt (<) (map fst L) \<and> contents L = m \<and>
     (if L = [] then 0 else fst (last L)) + 3 * n < 2 ^ 64)"

lemma kv_dir_empty: "serde_ok E \<Longrightarrow> 3 * n < 2 ^ 64 \<Longrightarrow> kv_dir E n fs_empty (\<lambda>_. None)"
  unfolding kv_dir_def by (intro conjI exI[of _ "[]"] exI) (auto simp: log_dir_empty contents_def)

lemma kv_dir_open:
  assumes "kv_dir E (Suc n) d m"
  shows "\<exists>st L ino. kv_open E d = Ok st \<and> kv_view E L ino st \<and> serde_ok E \<and> contents L = m \<and> current_gen st + 2 + 3 * n < 2 ^ 64"
proof -
  obtain L ino where L: "log_dir E d L ino" "sorted_wrt (<) (map fst L)" "contents L = m" "serde_ok E"
    and b: "(if L = [] then 0 else fst (last L)) + 3 * Suc n < 2 ^ 64" using assms by (auto simp: kv_dir_def)
  define g where "g = (if L = [] then 0 else fst (last L)) + 1"
  have gb: "g < 2 ^ 64" "g + 2 + 3 * n < 2 ^ 64" using b by (simp_all add: g_def)
  from kv_open_view[OF L(1,2,4) g_def gb(1)] obtain ino' st where
    "kv_open E d = Ok st" "kv_view E (L @ [(g, [])]) ino' st" "current_gen st = g" by blast
  then show ?thesis using L gb by (intro exI[of _ st] exI[of _ "L @ [(g, [])]"] exI[of _ ino']) simp
qed

lemma kv_view_dir:
  assumes "kv_view E L ino st" "serde_ok E" "current_gen st + 3 * n < 2 ^ 64"
  shows "kv_dir E n (disk st) (contents L)"
  using assms unfolding kv_dir_def kv_view_def by auto

fun spec_cli :: "(string \<Rightarrow> string option) \<Rightarrow> request \<Rightarrow> cli_result" where
  "spec_cli m (ReqGet k) = \<lparr>out_lines = [case m k of Some v \<Rightarrow> v | None \<Rightarrow> ''Key not found''], err_lines = [], exit_code = 0\<rparr>"
| "spec_cli m (ReqSet k v) = \<lparr>out_lines = [], err_lines = [], exit_code = 0\<rparr>"
| "spec_cli m (ReqRemove k) =
     (if m k = None then \<lparr>out_lines = [''Key not found''], err_lines = [], exit_code = 1\<rparr>
      else \<lparr>out_lines = [], err_lines = [], exit_code = 0\<rparr>)"

fun spec_clis :: "(string \<Rightarrow> string option) \<Rightarrow> request list \<Rightarrow> cli_result list" where
  "spec_clis m [] = []"
| "spec_clis m (r # rs) = spec_cli m r # spec_clis (map_after r m) rs"

lemma kvs_main_spec:
  assumes "kv_dir E (Suc n) d m"
  shows "\<exists>d'. kvs_main debug E cmd d = (spec_cli m cmd, d') \<and> kv_dir E n d' (map_after cmd m)"
proof -
  obtain st L ino where st: "kv_open E d = Ok st" "kv_view E L ino st" "serde_ok E" "contents L = m"
    and b: "current_gen st + 2 + 3 * n < 2 ^ 64" using kv_dir_open[OF assms] by blast
  show ?thesis
  proof (cases cmd)
    case (ReqGet k)
    from kv_get_view[OF st(2,3), of k] obtain st' where
      "kv_get E k st = (Ok (contents L k), st')" "kv_view E L ino st'" "current_gen st' = current_gen st" by blast
    moreover have "kv_dir E n (disk st') m" using kv_view_dir[OF calculation(2) st(3), of n] b calculation(3) st(4) by simp
    ultimately show ?thesis using st ReqGet by (auto simp: kvs_main_def Let_def split: option.splits)
  next
    case (ReqSet k v)
    have "current_gen st + 2 < 2 ^ 64" using b by simp
    from kv_set_view[OF st(2,3) this, of k v] obtain L' ino' st' where
      s: "kv_set E k v st = (Ok (), st')" "kv_view E L' ino' st'" "current_gen st' \<le> current_gen st + 2"
        "contents L' = (contents L)(k \<mapsto> v)" by blast
    have "kv_dir E n (disk st') (m(k \<mapsto> v))" using kv_view_dir[OF s(2) st(3), of n] b s(3,4) st(4) by simp
    then show ?thesis using st s ReqSet by (simp add: kvs_main_def)
  next
    case (ReqRemove k)
    have abs: "kv_abs E st k = m k" using kv_view_abs[OF st(2,3)] st(4) by simp
    show ?thesis
    proof (cases "m k")
      case None
      then have "kv_remove E k st = (Err KeyNotFound, st)"
        using kv_abs_None[OF st(2,3), of k] abs by (simp add: kv_remove_def)
      moreover have "kv_dir E n (disk st) m" using kv_view_dir[OF st(2,3), of n] b st(4) by simp
      ultimately show ?thesis using st ReqRemove None by (simp add: kvs_main_def fun_upd_idem)
    next
      case (Some w)
      then have "contents L k \<noteq> None" using st(4) by simp
      from kv_remove_view[OF st(2,3) this] obtain L' st' where
        s: "kv_remove E k st = (Ok (), st')" "kv_view E L' ino st'" "current_gen st' = current_gen st"
          "contents L' = (contents L)(k := None)" by blast
      have "kv_dir E n (disk st') (m(k := None))" using kv_view_dir[OF s(2) st(3), of n] b s(3,4) st(4) by simp
      then show ?thesis using st s ReqRemove Some by (simp add: kvs_main_def)
    qed
  qed
qed

lemma kvs_session_spec:
  assumes "kv_dir E (length cmds + n) d m"
  shows "\<exists>d'. kvs_session debug E cmds d = (spec_clis m cmds, d') \<and> kv_dir E n d' (fold map_after cmds m)"
  using assms
proof (induction cmds arbitrary: d m)
  case (Cons cmd cmds)
  have "kv_dir E (Suc (length cmds + n)) d m" using Cons.prems by simp
  from kvs_main_spec[OF this, of debug cmd] obtain d1 where
    d1: "kvs_main debug E cmd d = (spec_cli m cmd, d1)" "kv_dir E (length cmds + n) d1 (map_after cmd m)" by blast
  from Cons.IH[OF d1(2)] d1(1) show ?case by auto
qed simp

end
