(* ===== verification/SledEngine.thy ===== *)
theory SledEngine
  imports KvsServer Utf8
begin

text \<open>
  The second engine of project 3 (\<^verbatim>\<open>courses/rust/projects/project-3/src/engines/sled.rs\<close>), a wrapper around the
  embedded database \<^verbatim>\<open>sled\<close>. The database is a parameter: a record of the four calls the wrapper makes, with
  the documented behaviour of a map as the predicate \<open>sled_ok\<close>. A string is the sequence of its UTF-8 bytes, so
  that \<^verbatim>\<open>into_bytes\<close> is a change of type and \<^verbatim>\<open>String::from_utf8\<close> a validity check.
\<close>

subsection \<open>Strings as bytes\<close>

definition from_utf8 :: "byte list \<Rightarrow> (kvs_error, string) outcome" where
  "from_utf8 bs = (if utf8_valid bs then Ok (of_bytes bs) else Err Utf8)"

subsection \<open>The database\<close>

record 't sled_tree =
  tree_set :: "byte list \<Rightarrow> byte list \<Rightarrow> 't \<Rightarrow> (unit + byte list option) \<times> 't"
  tree_get :: "byte list \<Rightarrow> 't \<Rightarrow> unit + byte list option"
  tree_del :: "byte list \<Rightarrow> 't \<Rightarrow> (unit + byte list option) \<times> 't"
  tree_flush :: "'t \<Rightarrow> (unit + unit) \<times> 't"

definition sled_ok :: "'t sled_tree \<Rightarrow> ('t \<Rightarrow> byte list \<Rightarrow> byte list option) \<Rightarrow> bool" where
  "sled_ok T view \<longleftrightarrow>
     (\<forall>k v t. \<exists>t'. tree_set T k v t = (Inr (view t k), t') \<and> view t' = (view t)(k \<mapsto> v)) \<and>
     (\<forall>k t. tree_get T k t = Inr (view t k)) \<and>
     (\<forall>k t. \<exists>t'. tree_del T k t = (Inr (view t k), t') \<and> view t' = (view t)(k := None)) \<and>
     (\<forall>t. \<exists>t'. tree_flush T t = (Inr (), t') \<and> view t' = view t)"

subsection \<open>The engine\<close>

definition sled_flush :: "'t sled_tree \<Rightarrow> 't \<Rightarrow> (kvs_error, unit) outcome \<times> 't" where
  "sled_flush T t = (case tree_flush T t of (Inl _, t') \<Rightarrow> (Err Sled, t') | (Inr _, t') \<Rightarrow> (Ok (), t'))"

definition sled_set :: "'t sled_tree \<Rightarrow> string \<Rightarrow> string \<Rightarrow> 't \<Rightarrow> (kvs_error, unit) outcome \<times> 't" where
  "sled_set T key v t =
     (case tree_set T (into_bytes key) (into_bytes v) t of
        (Inl _, t') \<Rightarrow> (Err Sled, t')
      | (Inr _, t') \<Rightarrow> sled_flush T t')"

definition sled_get :: "'t sled_tree \<Rightarrow> string \<Rightarrow> 't \<Rightarrow> (kvs_error, string option) outcome \<times> 't" where
  "sled_get T key t =
     (case tree_get T (into_bytes key) t of
        Inl _ \<Rightarrow> (Err Sled, t)
      | Inr None \<Rightarrow> (Ok None, t)
      | Inr (Some i_vec) \<Rightarrow> (case from_utf8 i_vec of Ok s \<Rightarrow> (Ok (Some s), t) | Err e \<Rightarrow> (Err e, t) | Panic \<Rightarrow> (Panic, t)))"

definition sled_remove :: "'t sled_tree \<Rightarrow> string \<Rightarrow> 't \<Rightarrow> (kvs_error, unit) outcome \<times> 't" where
  "sled_remove T key t =
     (case tree_del T (into_bytes key) t of
        (Inl _, t') \<Rightarrow> (Err Sled, t')
      | (Inr None, t') \<Rightarrow> (Err KeyNotFound, t')
      | (Inr (Some _), t') \<Rightarrow> sled_flush T t')"

definition sled_engine :: "'t sled_tree \<Rightarrow> 't engine" where
  "sled_engine T = \<lparr>eng_set = sled_set T, eng_get = sled_get T, eng_remove = sled_remove T\<rparr>"

definition sled_inv :: "'t sled_tree \<Rightarrow> ('t \<Rightarrow> byte list \<Rightarrow> byte list option) \<Rightarrow> 't \<Rightarrow> bool" where
  "sled_inv T view t \<longleftrightarrow> sled_ok T view \<and> (\<forall>k v. view t (into_bytes k) = Some v \<longrightarrow> utf8_valid v)"

definition sled_abs :: "('t \<Rightarrow> byte list \<Rightarrow> byte list option) \<Rightarrow> 't \<Rightarrow> string \<Rightarrow> string option" where
  "sled_abs view t k = map_option of_bytes (view t (into_bytes k))"

lemma sled_okD:
  assumes "sled_ok T view"
  obtains t1 t2 t3 where "tree_set T k v t = (Inr (view t k), t1)" "view t1 = (view t)(k \<mapsto> v)"
    "tree_get T k t = Inr (view t k)" "tree_del T k t = (Inr (view t k), t2)" "view t2 = (view t)(k := None)"
    "tree_flush T t = (Inr (), t3)" "view t3 = view t"
  using assms unfolding sled_ok_def by metis

interpretation sled: kvs_engine "sled_engine T" "\<lambda>n. sled_inv T view" "sled_abs view" "\<lambda>v. utf8_valid (into_bytes v)"
  for T :: "'t sled_tree" and view
proof
  fix s :: 't and k v assume i: "sled_inv T view s" and u: "utf8_valid (into_bytes v)"
  then have ok: "sled_ok T view" by (simp add: sled_inv_def)
  obtain t1 where t1: "tree_set T (into_bytes k) (into_bytes v) s = (Inr (view s (into_bytes k)), t1)"
      "view t1 = (view s)(into_bytes k \<mapsto> into_bytes v)" using sled_okD[OF ok] by metis
  obtain t2 where t2: "tree_flush T t1 = (Inr (), t2)" "view t2 = view t1" using sled_okD[OF ok] by metis
  show "\<exists>s'. eng_set (sled_engine T) k v s = (Ok (), s') \<and> sled_inv T view s' \<and> sled_abs view s' = (sled_abs view s)(k \<mapsto> v)"
    using i u t1 t2 by (auto simp: sled_engine_def sled_set_def sled_flush_def sled_inv_def sled_abs_def)
next
  fix s :: 't and k assume i: "sled_inv T view s"
  then have "tree_get T (into_bytes k) s = Inr (view s (into_bytes k))" by (auto simp: sled_inv_def sled_ok_def)
  then show "\<exists>s'. eng_get (sled_engine T) k s = (Ok (sled_abs view s k), s') \<and> sled_inv T view s' \<and> sled_abs view s' = sled_abs view s"
    using i by (auto simp: sled_engine_def sled_get_def from_utf8_def sled_inv_def sled_abs_def split: option.splits)
next
  fix s :: 't and k assume i: "sled_inv T view s"
  then have ok: "sled_ok T view" by (simp add: sled_inv_def)
  obtain t1 where t1: "tree_del T (into_bytes k) s = (Inr (view s (into_bytes k)), t1)" "view t1 = (view s)(into_bytes k := None)"
    using sled_okD[OF ok] by metis
  obtain t2 where t2: "tree_flush T t1 = (Inr (), t2)" "view t2 = view t1" using sled_okD[OF ok] by metis
  show "\<exists>s'. eng_remove (sled_engine T) k s = (if sled_abs view s k = None then Err KeyNotFound else Ok (), s') \<and>
      sled_inv T view s' \<and> sled_abs view s' = (sled_abs view s)(k := None)"
    using i t1 t2
    by (cases "view s (into_bytes k)") (auto simp: sled_engine_def sled_remove_def sled_flush_def sled_inv_def sled_abs_def)
qed auto

text \<open>A map with the calls of the database meets the documented behaviour.\<close>

definition map_tree :: "(byte list \<Rightarrow> byte list option) sled_tree" where
  "map_tree =
     \<lparr>tree_set = (\<lambda>k v t. (Inr (t k), t(k \<mapsto> v))), tree_get = (\<lambda>k t. Inr (t k)),
      tree_del = (\<lambda>k t. (Inr (t k), t(k := None))), tree_flush = (\<lambda>t. (Inr (), t))\<rparr>"

lemma map_tree_ok: "sled_ok map_tree (\<lambda>t. t)"
  by (auto simp: sled_ok_def map_tree_def)

end
