(* ===== verification/Codec.thy ===== *)
theory Codec
  imports KvLog
begin

text \<open>
  An encoding of commands with the properties the engines ask of \<^verbatim>\<open>serde_json\<close>: it instantiates
  \<^typ>\<open>kv_env\<close> and shows that \<^const>\<open>serde_ok\<close> can hold. A string is the sequence of its characters, each
  marked by a 1, closed by a 0; a command starts with a byte that tells its kind.
\<close>

definition byte_of :: "char \<Rightarrow> byte" where
  "byte_of c = word_of_nat (of_char c)"

definition char_of_byte :: "byte \<Rightarrow> char" where
  "char_of_byte b = char_of (unat b)"

lemma char_byte [simp]: "char_of_byte (byte_of c) = c"
proof -
  have "of_char c < (256::nat)" by simp
  then have "unat (word_of_nat (of_char c) :: byte) = of_char c" by (simp add: unat_of_nat)
  then show ?thesis by (simp add: char_of_byte_def byte_of_def)
qed

fun put_string :: "string \<Rightarrow> byte list" where
  "put_string [] = [0]"
| "put_string (c # cs) = 1 # byte_of c # put_string cs"

fun take_string :: "byte list \<Rightarrow> (string \<times> byte list) option" where
  "take_string [] = None"
| "take_string [b] = (if b = 0 then Some ([], []) else None)"
| "take_string (b # c # bs) =
     (if b = 0 then Some ([], c # bs)
      else map_option (\<lambda>(s, r). (char_of_byte c # s, r)) (take_string bs))"

lemma take_put [simp]: "take_string (put_string s @ r) = Some (s, r)"
proof (induction s)
  case Nil
  show ?case by (cases r) auto
qed simp

fun put_command :: "command \<Rightarrow> byte list" where
  "put_command (CSet k v) = 0 # put_string k @ put_string v"
| "put_command (CRemove k) = 1 # put_string k"

definition take_command :: "byte list \<Rightarrow> (command \<times> byte list) option" where
  "take_command bs =
     (case bs of
        [] \<Rightarrow> None
      | b # r \<Rightarrow>
          (if b = 0
           then do { (k, r1) \<leftarrow> take_string r; (v, r2) \<leftarrow> take_string r1; Some (CSet k v, r2) }
           else do { (k, r1) \<leftarrow> take_string r; Some (CRemove k, r1) }))"

lemma take_put_command [simp]: "take_command (put_command c @ r) = Some (c, r)"
proof (cases c)
  case (CRemove k)
  then show ?thesis by (simp add: take_command_def)
qed (simp add: take_command_def)

fun take_commands :: "nat \<Rightarrow> nat \<Rightarrow> byte list \<Rightarrow> (command \<times> nat) list \<times> bool" where
  "take_commands 0 p bs = ([], bs \<noteq> [])"
| "take_commands (Suc n) p bs =
     (if bs = [] then ([], False)
      else case take_command bs of
             None \<Rightarrow> ([], True)
           | Some (c, r) \<Rightarrow>
               (let p' = p + (length bs - length r);
                    (cs, e) = take_commands n p' r
                in ((c, p') # cs, e)))"

definition plain_env :: kv_env where
  "plain_env = \<lparr>serialize = put_command,
     from_reader = (\<lambda>bs. case take_command bs of Some (c, []) \<Rightarrow> Some c | _ \<Rightarrow> None),
     stream = (\<lambda>bs. take_commands (length bs) 0 bs), key_order = (\<lambda>ks. ks)\<rparr>"

lemma plain_env_simps [simp]:
  "serialize plain_env = put_command" "key_order plain_env = (\<lambda>ks. ks)"
  "stream plain_env bs = take_commands (length bs) 0 bs"
  "from_reader plain_env bs = (case take_command bs of Some (c, []) \<Rightarrow> Some c | _ \<Rightarrow> None)"
  by (simp_all add: plain_env_def)

lemma put_command_not_Nil [simp]: "put_command c \<noteq> []"
  by (cases c) auto

lemma take_commands_items:
  "length (encode plain_env cs) \<le> n \<Longrightarrow> take_commands n p (encode plain_env cs) = (items plain_env p cs, False)"
proof (induction cs arbitrary: n p)
  case Nil
  then show ?case by (cases n) auto
next
  case (Cons c cs)
  obtain m where m: "n = Suc m" using Cons.prems put_command_not_Nil[of c] by (cases n) (auto simp: Suc_le_eq)
  have "length (encode plain_env cs) \<le> m" using Cons.prems m by (cases "put_command c") auto
  then show ?case using Cons.IH by (simp add: m Let_def)
qed

lemma plain_serde: "serde_ok plain_env"
proof -
  have "take_command (put_command c) = Some (c, [])" for c using take_put_command[of c "[]"] by simp
  moreover have "take_commands (length (encode plain_env cs)) 0 (encode plain_env cs) = (items plain_env 0 cs, False)" for cs
    using take_commands_items[of cs "length (encode plain_env cs)" 0] by simp
  ultimately show ?thesis by (simp add: serde_ok_def)
qed

end
