(* ===== verification/KvProps.thy ===== *)
theory KvProps
  imports SledEngine Codec
begin

text \<open>
  The properties of the log-structured store of projects 2 and 3, of the server around it and of the two command
  lines. The hypothesis \<^const>\<open>kv_inv\<close> holds of every store that \<^const>\<open>kv_open\<close> returns (for as many further
  calls as generation numbers allow) and every operation keeps it.
\<close>

section \<open>The log-structured store\<close>

lemma fresh_store:
  "\<exists>st. kv_open plain_env fs_empty = Ok st \<and> kv_inv plain_env 9 st \<and> kv_abs plain_env st = (\<lambda>_. None)"
  by (rule kv_open_empty) (simp_all add: plain_serde)

lemma store_with_key:
  "\<exists>st. kv_inv plain_env 8 st \<and> kv_abs plain_env st = [''k'' \<mapsto> ''v'']"
proof -
  obtain st where "kv_inv plain_env (Suc 8) st" "kv_abs plain_env st = (\<lambda>_. None)" using fresh_store by auto
  from kv_inv_set[OF this(1), of "''k''" "''v''"] this(2) show ?thesis by auto
qed

text \<open>C2. The store is a map: \<^verbatim>\<open>set\<close> binds the key, \<^verbatim>\<open>get\<close> returns the binding and changes nothing a later call can see,
  \<^verbatim>\<open>remove\<close> deletes the binding and reports \<^verbatim>\<open>KeyNotFound\<close> exactly when there was none. This includes the calls of
  \<^verbatim>\<open>set\<close> that trigger a compaction; no call panics and none fails.\<close>

theorem kv_store_is_map:
  assumes "kv_inv E (Suc n) st"
  shows "(\<exists>st'. kv_set E k v st = (Ok (), st') \<and> kv_inv E n st' \<and> kv_abs E st' = (kv_abs E st)(k \<mapsto> v)) \<and>
    (\<exists>st'. kv_get E k st = (Ok (kv_abs E st k), st') \<and> kv_inv E (Suc n) st' \<and> kv_abs E st' = kv_abs E st) \<and>
    (\<exists>st'. kv_remove E k st = (if kv_abs E st k = None then Err KeyNotFound else Ok (), st') \<and>
       kv_inv E n st' \<and> kv_abs E st' = (kv_abs E st)(k := None))"
  using kv_inv_set[OF assms, of k v] kv_inv_get[OF assms, of k] kv_inv_remove[OF assms, of k] by blast

theorem kv_store_is_map_witness:
  "\<exists>st st'. kv_open plain_env fs_empty = Ok st \<and> kv_remove plain_env ''k'' st = (Err KeyNotFound, st')"
proof -
  obtain st where "kv_open plain_env fs_empty = Ok st" "kv_inv plain_env (Suc 8) st" "kv_abs plain_env st = (\<lambda>_. None)"
    using fresh_store by auto
  with kv_store_is_map[OF this(2), of "''k''" "''v''"] show ?thesis by auto
qed

text \<open>C4. What was written is still there after a restart: opening the directory a store leaves behind succeeds and
  gives a store with the same bindings, whatever sequence of calls and compactions produced the log files.\<close>

theorem kv_reopen:
  assumes "kv_inv E (Suc n) st"
  shows "\<exists>st'. kv_open E (disk st) = Ok st' \<and> kv_inv E n st' \<and> kv_abs E st' = kv_abs E st"
  by (rule kv_inv_reopen[OF assms])

theorem kv_reopen_witness:
  "\<exists>(st :: kvs) st'. kv_open plain_env (disk st) = Ok st' \<and> kv_abs plain_env st' = [''k'' \<mapsto> ''v'']"
proof -
  obtain st where st: "kv_inv plain_env (Suc 7) st" "kv_abs plain_env st = [''k'' \<mapsto> ''v'']" using store_with_key by auto
  from kv_reopen[OF st(1)] obtain st' where "kv_open plain_env (disk st) = Ok st'" "kv_abs plain_env st' = kv_abs plain_env st"
    by (elim exE conjE)
  with st(2) show ?thesis by (intro exI[of _ st] exI[of _ st']) simp
qed

text \<open>C8. Compaction keeps every binding and removes every stale byte: afterwards the log files hold exactly the bytes of
  the commands the index refers to.\<close>

theorem kv_compaction:
  assumes "kv_inv E (Suc n) st"
  shows "\<exists>st'. compact E st = (Ok (), st') \<and> kv_inv E n st' \<and> kv_abs E st' = kv_abs E st \<and>
     uncompacted st' = 0 \<and> log_bytes st' = live_bytes st'"
  by (rule kv_inv_compact[OF assms])

theorem kv_compaction_witness:
  "\<exists>st st'. compact plain_env st = (Ok (), st') \<and> kv_abs plain_env st' = [''k'' \<mapsto> ''v''] \<and> log_bytes st' = live_bytes st'"
proof -
  obtain st where "kv_inv plain_env (Suc 7) st" "kv_abs plain_env st = [''k'' \<mapsto> ''v'']" using store_with_key by auto
  with kv_compaction[OF this(1)] show ?thesis by auto
qed

text \<open>C32. The counter of stale bytes never exceeds the bytes that are really stale, and \<^verbatim>\<open>set\<close> never leaves it above the
  compaction threshold of one mebibyte.\<close>

theorem kv_uncompacted_bound:
  assumes "kv_inv E (Suc n) st" "kv_set E k v st = (r, st')"
  shows "uncompacted st + live_bytes st \<le> log_bytes st \<and> r = Ok () \<and>
     uncompacted st' + live_bytes st' \<le> log_bytes st' \<and> uncompacted st' \<le> COMPACTION_THRESHOLD"
  using kv_inv_set[OF assms(1), of k v] kv_inv_bytes[OF assms(1)] kv_inv_bytes assms(2) by fastforce

theorem kv_uncompacted_bound_witness:
  "\<exists>st r st'. kv_set plain_env ''k'' ''w'' st = (r, st') \<and> kv_abs plain_env st = [''k'' \<mapsto> ''v''] \<and>
     uncompacted st' \<le> COMPACTION_THRESHOLD"
proof -
  obtain st where st: "kv_inv plain_env (Suc 7) st" "kv_abs plain_env st = [''k'' \<mapsto> ''v'']" using store_with_key by auto
  obtain r st' where "kv_set plain_env ''k'' ''w'' st = (r, st')" by fastforce
  with st kv_uncompacted_bound[OF st(1) this] show ?thesis by blast
qed

text \<open>The bytes of a remove command are not counted: a successful \<^verbatim>\<open>remove\<close> lengthens the log by the encoding of the
  command, which no index entry refers to, and the counter of stale bytes grows only by the set command it drops.\<close>

theorem kv_remove_uncounted:
  assumes "kv_inv E n st" "kv_remove E k st = (Ok (), st')"
  shows "uncompacted st' + live_bytes st' = uncompacted st + live_bytes st \<and>
     log_bytes st' = log_bytes st + length (serialize E (CRemove k))"
  by (rule kv_remove_bytes[OF assms])

theorem kv_remove_uncounted_witness:
  "\<exists>st st'. kv_remove plain_env ''k'' st = (Ok (), st') \<and> log_bytes st' = log_bytes st + length (serialize plain_env (CRemove ''k''))"
proof -
  obtain st where st: "kv_inv plain_env (Suc 7) st" "kv_abs plain_env st = [''k'' \<mapsto> ''v'']" using store_with_key by auto
  from kv_inv_remove[OF st(1), of "''k''"] st(2) obtain st' where "kv_remove plain_env ''k'' st = (Ok (), st')" by auto
  with kv_remove_uncounted[OF st(1) this] show ?thesis by blast
qed

text \<open>A log file with a record that does not parse, such as one cut short by a crash, makes the whole store
  impossible to open: \<^verbatim>\<open>open\<close> returns the parse error and no store, also when all other files are intact.\<close>

theorem kv_open_torn_log:
  assumes "\<forall>g\<in>set (sorted_gen_list d). \<exists>i. fs_open_read (log_path g) d = Inr i"
    and "g \<in> set (sorted_gen_list d)" "fs_open_read (log_path g) d = Inr i" "snd (stream E (inodes d i))"
  shows "kv_open E d = Err Serde"
proof -
  have "\<exists>g\<in>set (sorted_gen_list d). \<exists>i. fs_open_read (log_path g) d = Inr i \<and> snd (stream E (inodes d i))"
    using assms(2-4) by blast
  from open_loop_error[OF assms(1) this, of "[]" "[]" 0] show ?thesis by (simp add: kv_open_def Let_def)
qed

definition torn_dir :: fs where
  "torn_dir = \<lparr>dents = [(log_path 1, FileEnt 0)], inodes = (\<lambda>_. [0, 1]), next_ino = 1\<rparr>"

lemma torn_dir_facts:
  "sorted_gen_list torn_dir = [1]" "fs_open_read (log_path 1) torn_dir = Inr 0" "snd (stream plain_env (inodes torn_dir 0))"
  by (simp_all add: torn_dir_def plain_env_def sorted_gen_list_def List.map_filter_def log_path_name fs_open_read_def take_command_def)

theorem kv_open_torn_log_witness: "kv_open plain_env torn_dir = Err Serde"
proof (rule kv_open_torn_log[of _ 1 0])
  show "\<forall>g\<in>set (sorted_gen_list torn_dir). \<exists>i. fs_open_read (log_path g) torn_dir = Inr i"
    using torn_dir_facts(2) unfolding torn_dir_facts(1) by auto
  show "1 \<in> set (sorted_gen_list torn_dir)" unfolding torn_dir_facts(1) by simp
qed (use torn_dir_facts in simp_all)

text \<open>File names of logs round-trip: the name \<^verbatim>\<open>log_path\<close> builds is read back as the same generation by the parsing
  of \<^verbatim>\<open>sorted_gen_list\<close>, for every 64-bit generation.\<close>

theorem log_name_roundtrip:
  assumes "gen < 2 ^ 64"
  shows "gen_of_name (log_path gen) = Some gen"
  by (rule log_path_name[OF assms])

theorem log_name_roundtrip_witness: "gen_of_name (log_path 42) = Some 42"
  using log_name_roundtrip[of 42] by simp

section \<open>Server, client and command lines\<close>

text \<open>C19. The server answers every connection as the map would, in the order of the requests, over any engine state that
  meets the invariant: no connection makes it panic or stop, also not one whose stream ends in garbage, and later
  connections see what earlier ones wrote.\<close>

theorem server_sessions:
  assumes "kv_inv E (length (concat (served cs)) + n) st" "\<forall>c. Some c \<in> set cs \<longrightarrow> (\<forall>k. can_write c k)"
  shows "\<exists>st'. run_server cause (kv_engine E) cs st = (Ok (), spec_sessions (kv_abs E st) (served cs), st') \<and>
     kv_inv E n st' \<and> kv_abs E st' = fold map_after (concat (served cs)) (kv_abs E st)"
  using kve.run_server_spec[OF assms(1), of cause, unfolded request_ok_all, OF list_all_True] assms(2) by auto

definition two_conns :: "conn option list" where
  "two_conns =
     [Some \<lparr>requests = [ReqSet ''k'' ''v''], bad_end = True, can_write = (\<lambda>_. True)\<rparr>, None,
      Some \<lparr>requests = [ReqGet ''k'', ReqRemove ''x''], bad_end = False, can_write = (\<lambda>_. True)\<rparr>]"

theorem server_sessions_witness:
  "\<exists>st st'. kv_open plain_env fs_empty = Ok st \<and>
     run_server (\<lambda>_. '''') (kv_engine plain_env) two_conns st =
       (Ok (), [[RespSet SetOk], [RespGet (GetOk (Some ''v'')), RespRemove (RemoveErr ''Key not found'')]], st')"
proof -
  obtain st where st: "kv_open plain_env fs_empty = Ok st" "kv_inv plain_env (length (concat (served two_conns)) + 6) st"
    "kv_abs plain_env st = (\<lambda>_. None)" using fresh_store by (auto simp: two_conns_def)
  have "\<forall>c. Some c \<in> set two_conns \<longrightarrow> (\<forall>k. can_write c k)" by (auto simp: two_conns_def)
  from server_sessions[OF st(2) this, of "\<lambda>_. ''''"] obtain st' where
    st': "run_server (\<lambda>_. '''') (kv_engine plain_env) two_conns st =
       (Ok (), spec_sessions (kv_abs plain_env st) (served two_conns), st')" by (elim exE conjE)
  have "spec_sessions (kv_abs plain_env st) (served two_conns) =
    [[RespSet SetOk], [RespGet (GetOk (Some ''v'')), RespRemove (RemoveErr ''Key not found'')]]"
    by (simp add: st(3) two_conns_def)
  from st'[unfolded this] st(1) show ?thesis by (intro exI conjI)
qed

text \<open>C28. The two engines cannot be told apart by clients: started with the same bindings, the server over the
  log-structured store and the server over \<^verbatim>\<open>sled\<close> give the same responses to every sequence of connections and end
  with the same bindings.\<close>

theorem engines_agree:
  assumes "kv_inv E (length (concat (served cs)) + n) st" "sled_inv T view t" "kv_abs E st = sled_abs view t"
    and "\<forall>c. Some c \<in> set cs \<longrightarrow> (\<forall>k. can_write c k)"
    and "list_all (request_ok (\<lambda>v. utf8_valid (into_bytes v))) (concat (served cs))"
  shows "\<exists>out st' t'. run_server cause (kv_engine E) cs st = (Ok (), out, st') \<and>
     run_server cause (sled_engine T) cs t = (Ok (), out, t') \<and> kv_abs E st' = sled_abs view t'"
  using kve.run_server_spec[OF assms(1), of cause, unfolded request_ok_all, OF list_all_True]
    sled.run_server_spec[OF assms(2,5), of cause] assms(3,4) by auto

theorem engines_agree_witness:
  "\<exists>st out st' t'. kv_open plain_env fs_empty = Ok st \<and>
     run_server (\<lambda>_. '''') (kv_engine plain_env) two_conns st = (Ok (), out, st') \<and>
     run_server (\<lambda>_. '''') (sled_engine map_tree) two_conns (\<lambda>_. None) = (Ok (), out, t')"
proof -
  obtain st where st: "kv_open plain_env fs_empty = Ok st" "kv_inv plain_env (length (concat (served two_conns)) + 6) st"
    "kv_abs plain_env st = (\<lambda>_. None)" using fresh_store by (auto simp: two_conns_def)
  have i: "sled_inv map_tree (\<lambda>t. t) (\<lambda>_. None)" by (simp add: sled_inv_def map_tree_ok)
  have w: "\<forall>c. Some c \<in> set two_conns \<longrightarrow> (\<forall>k. can_write c k)" by (auto simp: two_conns_def)
  have a: "kv_abs plain_env st = sled_abs (\<lambda>t. t) (\<lambda>_. None)" by (simp add: st(3) sled_abs_def fun_eq_iff)
  have u: "list_all (request_ok (\<lambda>v. utf8_valid (into_bytes v))) (concat (served two_conns))"
    by (simp add: two_conns_def into_bytes_def)
  from engines_agree[OF st(2) i a w u, of "\<lambda>_. ''''"] st(1) show ?thesis by blast
qed

text \<open>A client that stops reading cannot corrupt anything: whichever response fails to be written, the responses that
  went out are a prefix of the right ones, the engine has performed the answered requests and at most one more, and
  its invariant holds.\<close>

theorem serve_prefix:
  assumes "kv_inv E (length (requests c) + n) st"
  shows "\<exists>r st' j. serve cause (kv_engine E) c st = (r, take j (spec_session (kv_abs E st) (requests c)), st') \<and>
     \<not> is_panic r \<and> j \<le> length (requests c) \<and> kv_inv E n st' \<and>
     (kv_abs E st' = fold map_after (take j (requests c)) (kv_abs E st) \<or>
      kv_abs E st' = fold map_after (take (Suc j) (requests c)) (kv_abs E st))"
  using kve.serve_spec[OF assms, of cause, unfolded request_ok_all, OF list_all_True] by blast

theorem serve_prefix_witness:
  "\<exists>st r st' j. kv_open plain_env fs_empty = Ok st \<and>
     serve (\<lambda>_. '''') (kv_engine plain_env) \<lparr>requests = [ReqSet ''k'' ''v'', ReqGet ''k''], bad_end = False, can_write = (\<lambda>i. i = 0)\<rparr> st =
       (r, take j [RespSet SetOk, RespGet (GetOk (Some ''v''))], st')"
proof -
  let ?c = "\<lparr>requests = [ReqSet ''k'' ''v'', ReqGet ''k''], bad_end = False, can_write = (\<lambda>i. i = 0)\<rparr>"
  obtain st where st: "kv_open plain_env fs_empty = Ok st" "kv_inv plain_env (length (requests ?c) + 7) st"
    "kv_abs plain_env st = (\<lambda>_. None)" using fresh_store by (auto simp: eval_nat_numeral)
  from serve_prefix[OF st(2), of "\<lambda>_. ''''"] st(1,3) show ?thesis by fastforce
qed

text \<open>One invocation of the client against a serving engine prints what the specification of the tool says: the value
  or \<^verbatim>\<open>Key not found\<close> for \<^verbatim>\<open>get\<close>, nothing for \<^verbatim>\<open>set\<close>, and an error with exit code 1 for \<^verbatim>\<open>rm\<close> of a missing key.\<close>

theorem client_server:
  assumes "kv_inv E (Suc n) st"
  shows "client_main cause' (one_shot cause (kv_engine E) st) cmd =
     (case cmd of
        ReqRemove k \<Rightarrow>
          (if kv_abs E st k = None then \<lparr>out_lines = [], err_lines = [''Key not found''], exit_code = 1\<rparr>
           else \<lparr>out_lines = [], err_lines = [], exit_code = 0\<rparr>)
      | _ \<Rightarrow> spec_cli (kv_abs E st) cmd)"
proof -
  let ?c = "\<lparr>requests = [cmd], bad_end = False, can_write = (\<lambda>_. True)\<rparr>"
  have "kv_inv E (length (requests ?c) + n) st" using assms by simp
  from kve.serve_spec[OF this, of cause, unfolded request_ok_all, OF list_all_True]
  have "one_shot cause (kv_engine E) st cmd = Some (spec_resp (kv_abs E st) cmd)"
    by (auto simp: one_shot_def)
  then show ?thesis
    by (cases cmd) (auto simp: client_main_def cli_finish_def client_get_def client_set_def client_remove_def
        show_error_def split: option.splits)
qed

theorem client_server_witness:
  "\<exists>st. kv_open plain_env fs_empty = Ok st \<and>
     client_main (\<lambda>_. '''') (one_shot (\<lambda>_. '''') (kv_engine plain_env) st) (ReqRemove ''k'') =
       \<lparr>out_lines = [], err_lines = [''Key not found''], exit_code = 1\<rparr>"
proof -
  obtain st where st: "kv_open plain_env fs_empty = Ok st" "kv_inv plain_env (Suc 8) st" "kv_abs plain_env st = (\<lambda>_. None)"
    using fresh_store by auto
  with client_server[OF st(2), of "\<lambda>_. ''''" "\<lambda>_. ''''" "ReqRemove ''k''"] show ?thesis by auto
qed

text \<open>C30. The command line of project 2 persists: a sequence of separate invocations in one directory, each of which opens
  the store, performs one operation and exits, prints and returns what one map over the whole sequence would.\<close>

theorem cli_session:
  assumes "kv_dir E (length cmds + n) d m"
  shows "\<exists>d'. kvs_session debug E cmds d = (spec_clis m cmds, d') \<and> kv_dir E n d' (fold map_after cmds m)"
  by (rule kvs_session_spec[OF assms])

theorem cli_session_witness:
  "\<exists>d'. kvs_session (\<lambda>_. '''') plain_env [ReqSet ''k'' ''v'', ReqGet ''k'', ReqRemove ''x''] fs_empty =
     ([\<lparr>out_lines = [], err_lines = [], exit_code = 0\<rparr>, \<lparr>out_lines = [''v''], err_lines = [], exit_code = 0\<rparr>,
       \<lparr>out_lines = [''Key not found''], err_lines = [], exit_code = 1\<rparr>], d')"
proof -
  let ?cmds = "[ReqSet ''k'' ''v'', ReqGet ''k'', ReqRemove ''x'']"
  have "kv_dir plain_env (length ?cmds + 0) fs_empty (\<lambda>_. None)" by (rule kv_dir_empty) (simp_all add: plain_serde)
  from cli_session[OF this, of "\<lambda>_. ''''"] obtain d' where
    d': "kvs_session (\<lambda>_. '''') plain_env ?cmds fs_empty = (spec_clis (\<lambda>_. None) ?cmds, d')" by (elim exE conjE)
  have "spec_clis (\<lambda>_. None) ?cmds =
    [\<lparr>out_lines = [], err_lines = [], exit_code = 0\<rparr>, \<lparr>out_lines = [''v''], err_lines = [], exit_code = 0\<rparr>,
     \<lparr>out_lines = [''Key not found''], err_lines = [], exit_code = 1\<rparr>]" by simp
  from d'[unfolded this] show ?thesis by (rule exI)
qed

text \<open>A data directory keeps its engine: once a server has started in it, later starts with no option or with the same
  option run the same engine, and a start with the other engine is refused and leaves the directory alone.\<close>

theorem engine_sticky:
  assumes "\<forall>e. parse (disp e) = Some e" "server_main disp parse opt file = (Started e, file')"
  shows "server_main disp parse opt' file' =
     (if opt' = None \<or> opt' = Some e then (Started e, file') else (Refused, file'))"
  using assms by (auto simp: server_main_def server_run_def current_engine_def Let_def split: option.splits if_splits)

theorem engine_sticky_witness:
  "server_main (case_engine_kind ''kvs'' ''sled'') (\<lambda>s. if s = ''kvs'' then Some EngineKvs else if s = ''sled'' then Some EngineSled else None)
     (Some EngineKvs) (Some ''sled'') = (Refused, Some ''sled'')"
  using engine_sticky[of "\<lambda>s. if s = ''kvs'' then Some EngineKvs else if s = ''sled'' then Some EngineSled else None"
      "case_engine_kind ''kvs'' ''sled''" "Some EngineSled" None EngineSled "Some ''sled''" "Some EngineKvs"]
  by (simp add: server_main_def server_run_def current_engine_def split: engine_kind.split)

end
