(* ===== verification/GoStd.thy ===== *)
theory GoStd
  imports Utf8 "HOL-Library.Char_ord" "HOL-Library.List_Lexorder"
begin

text \<open>
  What the Go sources under \<^verbatim>\<open>tidb\<close> use of the Go standard library: \<^verbatim>\<open>strings.Split\<close> and \<^verbatim>\<open>TrimSpace\<close>, \<^verbatim>\<open>strconv\<close>,
  \<^verbatim>\<open>path.Join\<close>, the 32-bit FNV-1a hash, the JSON form of a key-value pair, and the default mode of
  \<^verbatim>\<open>encoding/csv\<close>. A Go string is its sequence of bytes.
\<close>

subsection \<open>Splitting and joining\<close>

fun split_on :: "char \<Rightarrow> string \<Rightarrow> string list" where
  "split_on c [] = [[]]"
| "split_on c (x # xs) =
     (if x = c then [] # split_on c xs else (case split_on c xs of [] \<Rightarrow> [[x]] | l # ls \<Rightarrow> (x # l) # ls))"

fun sep_join :: "char \<Rightarrow> string list \<Rightarrow> string" where
  "sep_join c [] = []"
| "sep_join c [x] = x"
| "sep_join c (x # y # r) = x @ c # sep_join c (y # r)"

lemma split_on_not_Nil [simp]: "split_on c s \<noteq> []"
  by (induction s) (auto split: list.splits)

lemma split_on_plain: "c \<notin> set s \<Longrightarrow> split_on c s = [s]"
  by (induction s) auto

lemma split_on_Cons: "c \<notin> set s \<Longrightarrow> split_on c (s @ c # t) = s # split_on c t"
  by (induction s) auto

lemma split_on_append: "split_on c (s @ c # t) = split_on c s @ split_on c t"
  by (induction s) (auto split: list.splits)

lemma split_sep_join: "xs \<noteq> [] \<Longrightarrow> \<forall>x\<in>set xs. c \<notin> set x \<Longrightarrow> split_on c (sep_join c xs) = xs"
  by (induction c xs rule: sep_join.induct) (auto simp: split_on_plain split_on_Cons)

lemma sep_join_inj:
  assumes "\<forall>x\<in>set xs. c \<notin> set x" "\<forall>x\<in>set ys. c \<notin> set x" "length xs = length ys" "sep_join c xs = sep_join c ys"
  shows "xs = ys"
proof (cases "xs = []")
  case False
  then have "ys \<noteq> []" using assms(3) by auto
  then show ?thesis using split_sep_join[OF False assms(1)] split_sep_join[of ys c] assms(2,4) by metis
qed (use assms(3) in simp)

lemma sep_join_snoc: "xs \<noteq> [] \<Longrightarrow> sep_join c (xs @ [x]) = sep_join c xs @ c # x"
  by (induction c xs rule: sep_join.induct) auto

subsection \<open>Trimming white space\<close>

definition go_spaces :: "string list" where
  "go_spaces = map (map char_of)
     [[9], [10], [11], [12], [13], [32 :: nat], [194, 133], [194, 160], [225, 154, 128],
      [226, 128, 128], [226, 128, 129], [226, 128, 130], [226, 128, 131], [226, 128, 132], [226, 128, 133], [226, 128, 134],
      [226, 128, 135], [226, 128, 136], [226, 128, 137], [226, 128, 138], [226, 128, 168], [226, 128, 169], [226, 128, 175],
      [226, 129, 159], [227, 128, 128]]"

function trim_left :: "string list \<Rightarrow> string \<Rightarrow> string" where
  "trim_left ps s =
     (case find (\<lambda>p. p \<noteq> [] \<and> take (length p) s = p) ps of None \<Rightarrow> s | Some p \<Rightarrow> trim_left ps (drop (length p) s))"
  by auto
termination
proof (relation "measure (length \<circ> snd)")
  fix ps :: "string list" and s p assume "find (\<lambda>p. p \<noteq> [] \<and> take (length p) s = p) ps = Some p"
  then have "p \<noteq> []" "take (length p) s = p" by (auto simp: find_Some_iff)
  then have "p \<noteq> []" "s \<noteq> []" by auto
  then show "((ps, drop (length p) s), ps, s) \<in> measure (length \<circ> snd)" by simp
qed simp

declare trim_left.simps [simp del]

definition trim_space :: "string \<Rightarrow> string" where
  "trim_space s = rev (trim_left (map rev go_spaces) (rev (trim_left go_spaces s)))"

text \<open>Printable ASCII characters other than the blank are in no white-space sequence.\<close>

definition visible :: "char \<Rightarrow> bool" where
  "visible c \<longleftrightarrow> 33 \<le> (of_char c :: nat) \<and> (of_char c :: nat) < 127"

lemma go_spaces_visible: "p \<in> set go_spaces \<Longrightarrow> p \<noteq> [] \<and> \<not> visible (hd p) \<and> \<not> visible (last p)"
  by (auto simp: go_spaces_def visible_def)

lemma trim_left_visible: "\<forall>p\<in>set ps. p \<noteq> [] \<longrightarrow> \<not> visible (hd p) \<Longrightarrow> s = [] \<or> visible (hd s) \<Longrightarrow> trim_left ps s = s"
proof -
  assume ps: "\<forall>p\<in>set ps. p \<noteq> [] \<longrightarrow> \<not> visible (hd p)" and s: "s = [] \<or> visible (hd s)"
  have "\<not> (p \<noteq> [] \<and> take (length p) s = p)" if p: "p \<in> set ps" for p
    using ps p s by (cases p; cases s) auto
  then have "find (\<lambda>p. p \<noteq> [] \<and> take (length p) s = p) ps = None" by (auto simp: find_None_iff)
  then show ?thesis by (subst trim_left.simps) simp
qed

lemma trim_space_visible: "s = [] \<or> visible (hd s) \<and> visible (last s) \<Longrightarrow> trim_space s = s"
proof -
  assume s: "s = [] \<or> visible (hd s) \<and> visible (last s)"
  have "trim_left go_spaces s = s" using s go_spaces_visible by (intro trim_left_visible) auto
  moreover have "trim_left (map rev go_spaces) (rev s) = rev s"
    using s go_spaces_visible by (intro trim_left_visible) (auto simp: hd_rev)
  ultimately show ?thesis by (simp add: trim_space_def)
qed

subsection \<open>Numbers\<close>

definition parse_uint :: "string \<Rightarrow> nat option" where
  "parse_uint s = (if s = [] then None else parse_digits 0 s)"

definition atoi :: "string \<Rightarrow> int option" where
  "atoi s =
     (case s of
        [] \<Rightarrow> None
      | c # cs \<Rightarrow>
          let body = (if c = CHR ''-'' \<or> c = CHR ''+'' then cs else s)
          in case parse_uint body of
               None \<Rightarrow> None
             | Some n \<Rightarrow>
                 (if c = CHR ''-'' then (if n \<le> 2 ^ 63 then Some (- int n) else None)
                  else (if n < 2 ^ 63 then Some (int n) else None)))"

definition itoa :: "int \<Rightarrow> string" where
  "itoa i = (if i < 0 then CHR ''-'' # show_nat (nat (- i)) else show_nat (nat i))"

lemma parse_uint_show: "n < 2 ^ 64 \<Longrightarrow> parse_uint (show_nat n) = Some n"
  by (simp add: parse_uint_def show_nat_not_Nil parse_show)

lemma atoi_itoa: "- (2 ^ 63) \<le> i \<Longrightarrow> i < 2 ^ 63 \<Longrightarrow> atoi (itoa i) = Some i"
proof -
  assume i: "- (2 ^ 63) \<le> i" "i < 2 ^ 63"
  show ?thesis
  proof (cases "i < 0")
    case True
    then show ?thesis using i by (simp add: atoi_def itoa_def parse_uint_show)
  next
    case False
    obtain c cs where s: "show_nat (nat i) = c # cs" using show_nat_not_Nil by (cases "show_nat (nat i)") auto
    then have "c \<noteq> CHR ''-''" "c \<noteq> CHR ''+''" using show_nat_digits[of c "nat i"] by auto
    moreover have "parse_uint (c # cs) = Some (nat i)" using parse_uint_show[of "nat i"] s i False by simp
    ultimately show ?thesis using False i s by (simp add: atoi_def itoa_def)
  qed
qed

lemma show_nat_visible: "c \<in> set (show_nat n) \<Longrightarrow> visible c"
  using show_nat_digits[of c n] by (simp add: visible_def)

subsection \<open>Paths\<close>

fun clean_elems :: "bool \<Rightarrow> string list \<Rightarrow> string list \<Rightarrow> string list" where
  "clean_elems rooted st [] = rev st"
| "clean_elems rooted st (e # es) =
     (if e = '''' \<or> e = ''.'' then clean_elems rooted st es
      else if e = ''..'' then
        (if st \<noteq> [] \<and> hd st \<noteq> ''..'' then clean_elems rooted (tl st) es
         else if rooted then clean_elems rooted st es
         else clean_elems rooted (e # st) es)
      else clean_elems rooted (e # st) es)"

definition path_clean :: "string \<Rightarrow> string" where
  "path_clean s =
     (if s = '''' then ''.''
      else let rooted = (hd s = CHR ''/''); es = clean_elems rooted [] (split_on (CHR ''/'') s)
           in if rooted then CHR ''/'' # sep_join (CHR ''/'') es else if es = [] then ''.'' else sep_join (CHR ''/'') es)"

definition path_join :: "string \<Rightarrow> string \<Rightarrow> string" where
  "path_join d e =
     (if d = '''' then (if e = '''' then '''' else path_clean e) else path_clean (d @ CHR ''/'' # e))"

definition file_name :: "string \<Rightarrow> bool" where
  "file_name e \<longleftrightarrow> e \<noteq> '''' \<and> e \<noteq> ''.'' \<and> e \<noteq> ''..'' \<and> CHR ''/'' \<notin> set e"

lemma clean_elems_snoc: "file_name e \<Longrightarrow> clean_elems r st (es @ [e]) = clean_elems r st es @ [e]"
  by (induction r st es rule: clean_elems.induct) (auto simp: file_name_def)

lemma path_join_name:
  assumes "file_name e"
  shows "\<exists>p. path_join d e = p @ e \<and> (\<forall>e'. file_name e' \<longrightarrow> path_join d e' = p @ e')"
proof (cases "d = ''''")
  case True
  have "path_join d x = x" if x: "file_name x" for x
    using x by (cases x) (auto simp: True path_join_def path_clean_def file_name_def split_on_plain Let_def)
  then show ?thesis using assms by (intro exI[of _ "[]"]) simp
next
  case False
  define r where "r = (hd d = CHR ''/'')"
  define es where "es = clean_elems r [] (split_on (CHR ''/'') d)"
  let ?p = "(if r then ''/'' else '''') @ (if es = [] then '''' else sep_join (CHR ''/'') es @ ''/'')"
  have "path_join d x = ?p @ x" if x: "file_name x" for x
  proof -
    have "split_on (CHR ''/'') (d @ CHR ''/'' # x) = split_on (CHR ''/'') d @ [x]"
      using x by (simp add: split_on_append split_on_plain file_name_def)
    then have "clean_elems r [] (split_on (CHR ''/'') (d @ CHR ''/'' # x)) = es @ [x]"
      using clean_elems_snoc[OF x] by (simp add: es_def)
    then show ?thesis using False by (auto simp: path_join_def path_clean_def r_def[symmetric] Let_def sep_join_snoc)
  qed
  then show ?thesis using assms by blast
qed

lemma path_join_inj: "file_name a \<Longrightarrow> file_name b \<Longrightarrow> path_join d a = path_join d b \<longleftrightarrow> a = b"
  using path_join_name[of a d] by auto

subsection \<open>The FNV-1a hash\<close>

unbundle bit_operations_syntax

definition fnv32a :: "string \<Rightarrow> 32 word" where
  "fnv32a s = fold (\<lambda>c h. (h XOR word_of_nat (of_char c)) * 16777619) s 2166136261"

subsection \<open>JSON\<close>

text \<open>The length of the first UTF-8 sequence, 0 if it is not valid.\<close>

fun rune_len :: "byte list \<Rightarrow> nat" where
  "rune_len [] = 0"
| "rune_len (a # bs) =
     (if a < 128 then 1
      else if 194 \<le> a \<and> a < 224 then (case bs of b # r \<Rightarrow> if tail_byte b then 2 else 0 | _ \<Rightarrow> 0)
      else if 224 \<le> a \<and> a < 240 then
        (case bs of b # c # r \<Rightarrow> if tail_byte b \<and> tail_byte c \<and> (a = 224 \<longrightarrow> 160 \<le> b) \<and> (a = 237 \<longrightarrow> b < 160) then 3 else 0
         | _ \<Rightarrow> 0)
      else if 240 \<le> a \<and> a < 245 then
        (case bs of b # c # d # r \<Rightarrow>
           if tail_byte b \<and> tail_byte c \<and> tail_byte d \<and> (a = 240 \<longrightarrow> 144 \<le> b) \<and> (a = 244 \<longrightarrow> b < 144) then 4 else 0
         | _ \<Rightarrow> 0)
      else 0)"

definition hex_digit :: "nat \<Rightarrow> char" where
  "hex_digit n = (if n < 10 then char_of (48 + n) else char_of (87 + n))"

definition json_escape :: "char \<Rightarrow> string" where
  "json_escape c =
     (let n = of_char c :: nat in
      if c = CHR 0x22 \<or> c = CHR 0x5C then [CHR 0x5C, c]
      else if n = 10 then [CHR 0x5C, CHR ''n'']
      else if n = 13 then [CHR 0x5C, CHR ''r'']
      else if n = 9 then [CHR 0x5C, CHR ''t'']
      else if n < 32 \<or> c \<in> {CHR ''<'', CHR ''>'', CHR ''&''} then CHR 0x5C # ''u00'' @ [hex_digit (n div 16), hex_digit (n mod 16)]
      else [c])"

function json_body :: "string \<Rightarrow> string" where
  "json_body s =
     (case s of
        [] \<Rightarrow> []
      | c # cs \<Rightarrow>
          if (of_char c :: nat) < 128 then json_escape c @ json_body cs
          else let n = rune_len (into_bytes s)
               in if n = 0 then CHR 0x5C # ''ufffd'' @ json_body cs
                  else (if take 3 (into_bytes s) = [226, 128, 168] then CHR 0x5C # ''u2028''
                        else if take 3 (into_bytes s) = [226, 128, 169] then CHR 0x5C # ''u2029''
                        else take n s) @ json_body (drop n s))"
  by auto
termination by (relation "measure length") auto

definition json_string :: "string \<Rightarrow> string" where
  "json_string s = CHR 0x22 # json_body s @ [CHR 0x22]"

subsection \<open>Comma-separated values\<close>

datatype csv_error = ErrBareQuote | ErrQuote | ErrFieldCount

text \<open>
  Lines with their line feed; a carriage return before it is dropped, as is one at the end of the input.
\<close>

definition drop_cr :: "string \<Rightarrow> string" where
  "drop_cr l = (if l \<noteq> [] \<and> last l = CHR 0x0D then butlast l else l)"

definition csv_lines :: "string \<Rightarrow> string list" where
  "csv_lines s =
     (let ls = split_on (CHR 0x0A) s
      in map (\<lambda>l. drop_cr l @ [CHR 0x0A]) (butlast ls) @ (if last ls = [] then [] else [drop_cr (last ls)]))"

definition end_of_line :: "string \<Rightarrow> bool" where
  "end_of_line l \<longleftrightarrow> l = [] \<or> l = [CHR 0x0A]"

definition chomp :: "string \<Rightarrow> string" where
  "chomp l = (if l \<noteq> [] \<and> last l = CHR 0x0A then butlast l else l)"

lemma dropWhile_shorter: "c \<in> set l \<Longrightarrow> length (dropWhile P l) - Suc n < length l"
  using length_dropWhile_le[of P l] by (cases l) auto

function csv_fields :: "string \<Rightarrow> string list \<Rightarrow> string list \<Rightarrow> csv_error + (string list \<times> string list)"
  and csv_quoted :: "string \<Rightarrow> string list \<Rightarrow> string \<Rightarrow> string list \<Rightarrow> csv_error + (string list \<times> string list)" where
  "csv_fields l ls acc =
     (if l \<noteq> [] \<and> hd l = CHR 0x22 then csv_quoted (tl l) ls [] acc
      else if CHR '','' \<in> set l then
        (let f = takeWhile (\<lambda>c. c \<noteq> CHR '','') l
         in if CHR 0x22 \<in> set f then Inl ErrBareQuote
            else csv_fields (tl (dropWhile (\<lambda>c. c \<noteq> CHR '','') l)) ls (acc @ [f]))
      else if CHR 0x22 \<in> set l then Inl ErrBareQuote
      else Inr (acc @ [chomp l], ls))"
| "csv_quoted l ls buf acc =
     (if CHR 0x22 \<in> set l then
        (let a = buf @ takeWhile (\<lambda>c. c \<noteq> CHR 0x22) l; r = tl (dropWhile (\<lambda>c. c \<noteq> CHR 0x22) l)
         in if r \<noteq> [] \<and> hd r = CHR 0x22 then csv_quoted (tl r) ls (a @ [CHR 0x22]) acc
            else if r \<noteq> [] \<and> hd r = CHR '','' then csv_fields (tl r) ls (acc @ [a])
            else if end_of_line r then Inr (acc @ [a], ls)
            else Inl ErrQuote)
      else if l \<noteq> [] then
        (case ls of [] \<Rightarrow> csv_quoted [] [] (buf @ l) acc | l' # ls' \<Rightarrow> csv_quoted l' ls' (buf @ l) acc)
      else Inl ErrQuote)"
  by pat_completeness auto

termination
proof (relation "measures [\<lambda>x. case x of Inl (l, ls, _) \<Rightarrow> length ls | Inr (l, ls, _) \<Rightarrow> length ls,
    \<lambda>x. case x of Inl (l, ls, _) \<Rightarrow> length l | Inr (l, ls, _) \<Rightarrow> length l]")
qed (auto simp: Let_def dropWhile_shorter split: list.splits)

declare csv_fields.simps [simp del] csv_quoted.simps [simp del]

lemma csv_rest:
  "csv_fields l ls acc = Inr (row, ls') \<Longrightarrow> length ls' \<le> length ls"
  "csv_quoted l ls buf acc = Inr (row, ls') \<Longrightarrow> length ls' \<le> length ls"
proof (induction l ls acc and l ls buf acc rule: csv_fields_csv_quoted.induct)
  case (1 l ls acc)
  then show ?case by (subst (asm) csv_fields.simps) (auto simp: Let_def split: if_splits)
next
  case (2 l ls buf acc)
  then show ?case by (subst (asm) csv_quoted.simps) (auto simp: Let_def split: if_splits list.splits)
qed

text \<open>\<^verbatim>\<open>Read\<close> skips empty lines; every record must have as many fields as the first one, \<open>n\<close> when it is known.\<close>

fun csv_read :: "nat \<Rightarrow> string list \<Rightarrow> csv_error + (string list \<times> string list) option" where
  "csv_read n [] = Inr None"
| "csv_read n (l # ls) =
     (if end_of_line l then csv_read n ls
      else case csv_fields l ls [] of
             Inl e \<Rightarrow> Inl e
           | Inr (row, ls') \<Rightarrow> (if 0 < n \<and> length row \<noteq> n then Inl ErrFieldCount else Inr (Some (row, ls'))))"

lemma csv_read_rest: "csv_read n ls = Inr (Some (row, ls')) \<Longrightarrow> length ls' < length ls"
  by (induction n ls rule: csv_read.induct) (auto split: if_splits sum.splits dest: csv_rest(1))

end
