(* ===== verification/HashJoin.thy ===== *)
theory HashJoin
  imports GoStd "HOL-Library.Multiset"
begin

text \<open>
  The hash join of \<^verbatim>\<open>tidb/join/join_example.go\<close>. Files are a map from names to contents; a Go panic is
  \<^const>\<open>None\<close>. The hash table is \<^verbatim>\<open>mvmap\<close> of the TiDB sources, a parameter: the record of its three
  operations, with the documented behaviour of a multi-valued map as the predicate \<open>mv_ok\<close>.
\<close>

subsection \<open>The hash table\<close>

record 'h mvmap =
  mv_new :: 'h
  mv_put :: "string \<Rightarrow> byte list \<Rightarrow> 'h \<Rightarrow> 'h"
  mv_get :: "string \<Rightarrow> 'h \<Rightarrow> byte list list"

definition mv_ok :: "'h mvmap \<Rightarrow> ('h \<Rightarrow> bool) \<Rightarrow> bool" where
  "mv_ok M I \<longleftrightarrow> I (mv_new M) \<and> (\<forall>k. mv_get M k (mv_new M) = []) \<and>
     (\<forall>h k v. I h \<longrightarrow> I (mv_put M k v h) \<and>
        (\<forall>k'. mset (mv_get M k' (mv_put M k v h)) = mset (mv_get M k' h) + (if k' = k then {#v#} else {#})))"

text \<open>A row number is stored as the eight bytes of an \<^verbatim>\<open>int64\<close>.\<close>

fun le_put :: "nat \<Rightarrow> nat \<Rightarrow> byte list" where
  "le_put 0 n = []"
| "le_put (Suc k) n = word_of_nat (n mod 256) # le_put k (n div 256)"

fun le_get :: "byte list \<Rightarrow> nat" where
  "le_get [] = 0"
| "le_get (b # bs) = unat b + 256 * le_get bs"

definition read_i64 :: "byte list \<Rightarrow> int option" where
  "read_i64 bs =
     (if length bs < 8 then None
      else let v = le_get (take 8 bs) in Some (if v < 2 ^ 63 then int v else int v - 2 ^ 64))"

lemma length_le_put [simp]: "length (le_put k n) = k"
  by (induction k arbitrary: n) auto

lemma le_get_put: "n < 256 ^ k \<Longrightarrow> le_get (le_put k n) = n"
proof (induction k arbitrary: n)
  case (Suc k)
  have "unat (word_of_nat (n mod 256) :: byte) = n mod 256" by (simp add: unat_of_nat)
  moreover have "n div 256 < 256 ^ k" using Suc.prems by (simp add: less_mult_imp_div_less)
  ultimately show ?case using Suc.IH by simp
qed simp

lemma read_i64_put: "n < 2 ^ 63 \<Longrightarrow> read_i64 (le_put 8 n) = Some (int n)"
  using le_get_put[of n 8] by (simp add: read_i64_def)

subsection \<open>The join\<close>

function read_tbl_loop :: "nat \<Rightarrow> string list \<Rightarrow> string list list \<Rightarrow> string list list option" where
  "read_tbl_loop n ls tbl =
     (case csv_read n ls of
        Inl _ \<Rightarrow> None
      | Inr None \<Rightarrow> Some tbl
      | Inr (Some (row, ls')) \<Rightarrow> read_tbl_loop (if n = 0 then length row else n) ls' (tbl @ [row]))"
  by pat_completeness auto
termination by (relation "measure (\<lambda>(n, ls, tbl). length ls)") (auto dest: csv_read_rest)

declare read_tbl_loop.simps [simp del]

definition readCSVFileIntoTbl :: "(string \<Rightarrow> string option) \<Rightarrow> string \<Rightarrow> string list list option" where
  "readCSVFileIntoTbl files f = (case files f of None \<Rightarrow> None | Some txt \<Rightarrow> read_tbl_loop 0 (csv_lines txt) [])"

definition col :: "string list \<Rightarrow> int \<Rightarrow> string option" where
  "col row off = (if 0 \<le> off \<and> nat off < length row then Some (row ! nat off) else None)"

fun key_loop :: "string list \<Rightarrow> nat \<Rightarrow> int list \<Rightarrow> string \<Rightarrow> string option" where
  "key_loop row j [] key = Some key"
| "key_loop row j (off # offs) key =
     (case col row off of
        None \<Rightarrow> None
      | Some c \<Rightarrow> key_loop row (Suc j) offs ((if j > 0 then key @ ''_'' else key) @ c))"

fun build_loop :: "'h mvmap \<Rightarrow> int list \<Rightarrow> nat \<Rightarrow> string list list \<Rightarrow> 'h \<Rightarrow> 'h option" where
  "build_loop M offset i [] h = Some h"
| "build_loop M offset i (row # rows) h =
     (case key_loop row 0 offset [] of
        None \<Rightarrow> None
      | Some key \<Rightarrow> build_loop M offset (Suc i) rows (mv_put M key (le_put 8 i) h))"

definition buildHashTable :: "'h mvmap \<Rightarrow> string list list \<Rightarrow> int list \<Rightarrow> 'h option" where
  "buildHashTable M data offset = build_loop M offset 0 data (mv_new M)"

definition probe :: "'h mvmap \<Rightarrow> 'h \<Rightarrow> string list \<Rightarrow> int list \<Rightarrow> int list option" where
  "probe M hashtable row offset =
     (case key_loop row 0 offset [] of
        None \<Rightarrow> None
      | Some key \<Rightarrow> those (map read_i64 (mv_get M key hashtable)))"

fun sum_loop :: "string list list \<Rightarrow> int list \<Rightarrow> u64 \<Rightarrow> u64 option" where
  "sum_loop tbl0 [] s = Some s"
| "sum_loop tbl0 (i # ids) s =
     (if 0 \<le> i \<and> nat i < length tbl0 \<and> tbl0 ! nat i \<noteq> []
      then (case parse_uint (tbl0 ! nat i ! 0) of None \<Rightarrow> None | Some v \<Rightarrow> sum_loop tbl0 ids (s + of_nat v))
      else None)"

fun join_loop :: "'h mvmap \<Rightarrow> string list list \<Rightarrow> 'h \<Rightarrow> int list \<Rightarrow> string list list \<Rightarrow> u64 \<Rightarrow> u64 option" where
  "join_loop M tbl0 h offset1 [] s = Some s"
| "join_loop M tbl0 h offset1 (row # rows) s =
     (case probe M h row offset1 of
        None \<Rightarrow> None
      | Some ids \<Rightarrow> (case sum_loop tbl0 ids s of None \<Rightarrow> None | Some s' \<Rightarrow> join_loop M tbl0 h offset1 rows s'))"

definition JoinExample ::
  "'h mvmap \<Rightarrow> (string \<Rightarrow> string option) \<Rightarrow> string \<Rightarrow> string \<Rightarrow> int list \<Rightarrow> int list \<Rightarrow> u64 option" where
  "JoinExample M files f0 f1 offset0 offset1 =
     (case readCSVFileIntoTbl files f0 of
        None \<Rightarrow> None
      | Some tbl0 \<Rightarrow>
          (case readCSVFileIntoTbl files f1 of
             None \<Rightarrow> None
           | Some tbl1 \<Rightarrow>
               (case buildHashTable M tbl0 offset0 of
                  None \<Rightarrow> None
                | Some h \<Rightarrow> join_loop M tbl0 h offset1 tbl1 0)))"

subsection \<open>The specification\<close>

text \<open>The nested-loop join: every pair of rows whose columns agree adds the first column of its left row.\<close>

definition cols :: "string list \<Rightarrow> int list \<Rightarrow> string list option" where
  "cols row offset = those (map (col row) offset)"

definition row_value :: "string list \<Rightarrow> u64" where
  "row_value row = (case parse_uint (row ! 0) of None \<Rightarrow> 0 | Some v \<Rightarrow> of_nat v)"

definition join_spec :: "string list list \<Rightarrow> string list list \<Rightarrow> int list \<Rightarrow> int list \<Rightarrow> u64" where
  "join_spec tbl0 tbl1 offset0 offset1 =
     (\<Sum>r1\<leftarrow>tbl1. \<Sum>r0\<leftarrow>tbl0. if cols r0 offset0 = cols r1 offset1 then row_value r0 else 0)"

definition keyed :: "int list \<Rightarrow> string list \<Rightarrow> bool" where
  "keyed offset row \<longleftrightarrow> (\<forall>off\<in>set offset. \<exists>c. col row off = Some c \<and> CHR ''_'' \<notin> set c)"

definition numbered :: "string list \<Rightarrow> bool" where
  "numbered row \<longleftrightarrow> row \<noteq> [] \<and> parse_uint (row ! 0) \<noteq> None"

text \<open>The pairs of rows whose columns differ although the columns, joined by underscores, are the same text.\<close>

definition has_cols :: "int list \<Rightarrow> string list \<Rightarrow> bool" where
  "has_cols offset row \<longleftrightarrow> (\<forall>off\<in>set offset. 0 \<le> off \<and> nat off < length row)"

definition clashing :: "int list \<Rightarrow> int list \<Rightarrow> string list \<Rightarrow> string list \<Rightarrow> bool" where
  "clashing offset0 offset1 r0 r1 \<longleftrightarrow> cols r0 offset0 \<noteq> cols r1 offset1 \<and>
     map_option (sep_join (CHR ''_'')) (cols r0 offset0) = map_option (sep_join (CHR ''_'')) (cols r1 offset1)"

definition clash_sum :: "string list list \<Rightarrow> string list list \<Rightarrow> int list \<Rightarrow> int list \<Rightarrow> u64" where
  "clash_sum tbl0 tbl1 offset0 offset1 =
     (\<Sum>r1\<leftarrow>tbl1. \<Sum>r0\<leftarrow>tbl0. if clashing offset0 offset1 r0 r1 then row_value r0 else 0)"

lemma key_loop_cols: "key_loop row j offs key = map_option (\<lambda>cs.
    if cs = [] then key else (if j > 0 then key @ ''_'' else key) @ sep_join (CHR ''_'') cs) (cols row offs)"
proof (induction offs arbitrary: j key)
  case (Cons off offs)
  show ?case
  proof (cases "col row off")
    case (Some c)
    then show ?thesis using Cons.IH[of "Suc j"]
      by (cases "cols row offs"; cases "the (cols row offs)") (auto simp: cols_def)
  qed (simp add: cols_def)
qed (simp add: cols_def)

lemma key_loop_join: "key_loop row 0 offs [] = map_option (sep_join (CHR ''_'')) (cols row offs)"
  by (auto simp: key_loop_cols intro!: option.map_cong)

lemma keyed_cols: "keyed offs row \<Longrightarrow> \<exists>cs. cols row offs = Some cs \<and> length cs = length offs \<and> (\<forall>c\<in>set cs. CHR ''_'' \<notin> set c)"
  unfolding keyed_def cols_def by (induction offs) auto

lemma has_cols_key: "has_cols offs row \<Longrightarrow> \<exists>k. key_loop row 0 offs [] = Some k"
  unfolding key_loop_join cols_def by (induction offs) (auto simp: has_cols_def col_def)

lemma keyed_has_cols: "keyed offs row \<Longrightarrow> has_cols offs row"
  by (auto simp: keyed_def has_cols_def col_def split: if_splits)

lemma keyed_no_clash:
  assumes "keyed offs row" "keyed offs' row'" "length offs = length offs'"
  shows "\<not> clashing offs offs' row row'"
  using keyed_cols[OF assms(1)] keyed_cols[OF assms(2)] assms(3) sep_join_inj
  by (auto simp: clashing_def)

fun rows_with :: "int list \<Rightarrow> string \<Rightarrow> nat \<Rightarrow> string list list \<Rightarrow> nat list" where
  "rows_with offs k i [] = []"
| "rows_with offs k i (r # rs) =
     (if key_loop r 0 offs [] = Some k then i # rows_with offs k (Suc i) rs else rows_with offs k (Suc i) rs)"

lemma build_loop_get:
  assumes "mv_ok M I" "I h" "\<forall>r\<in>set rows. has_cols offs r"
  shows "\<exists>h'. build_loop M offs i rows h = Some h' \<and>
     (\<forall>k. mset (mv_get M k h') = mset (mv_get M k h) + mset (map (le_put 8) (rows_with offs k i rows)))"
  using assms(2,3)
proof (induction rows arbitrary: i h)
  case (Cons r rows)
  obtain key where key: "key_loop r 0 offs [] = Some key"
    using has_cols_key[of offs r] Cons.prems(2) by auto
  have i: "I (mv_put M key (le_put 8 i) h)" using assms(1) Cons.prems(1) by (auto simp: mv_ok_def)
  from Cons.IH[OF i, of "Suc i"] Cons.prems(2) obtain h' where
    h': "build_loop M offs (Suc i) rows (mv_put M key (le_put 8 i) h) = Some h'"
      "\<forall>k. mset (mv_get M k h') = mset (mv_get M k (mv_put M key (le_put 8 i) h)) +
         mset (map (le_put 8) (rows_with offs k (Suc i) rows))" by auto
  then show ?case using key assms(1) Cons.prems(1) by (auto simp: mv_ok_def)
qed simp

lemma sum_loop_ok:
  assumes "\<forall>i\<in>set ids. 0 \<le> i \<and> nat i < length tbl0 \<and> numbered (tbl0 ! nat i)"
  shows "sum_loop tbl0 ids s = Some (s + (\<Sum>i\<leftarrow>ids. row_value (tbl0 ! nat i)))"
  using assms
proof (induction ids arbitrary: s)
  case (Cons i ids)
  then obtain v where "parse_uint (tbl0 ! nat i ! 0) = Some v" by (auto simp: numbered_def)
  then show ?case using Cons by (simp add: numbered_def row_value_def add.assoc)
qed simp

lemma rows_with_range: "i \<in> set (rows_with offs k n rs) \<Longrightarrow> n \<le> i \<and> i < n + length rs"
  by (induction offs k n rs rule: rows_with.induct) (auto split: if_splits)

lemma rows_with_sum:
  fixes f :: "string list \<Rightarrow> u64"
  shows "(\<Sum>i\<leftarrow>rows_with offs k (length pre) rs. f ((pre @ rs) ! i)) =
     (\<Sum>r\<leftarrow>rs. if key_loop r 0 offs [] = Some k then f r else 0)"
proof (induction rs arbitrary: pre)
  case (Cons r rs)
  from Cons.IH[of "pre @ [r]"] show ?case by simp
qed simp

lemma those_map_Some: "\<forall>x\<in>set xs. f x = Some (g x) \<Longrightarrow> those (map f xs) = Some (map g xs)"
  by (induction xs) auto

lemma probe_ids:
  assumes "mset (mv_get M k h) = mset (map (le_put 8) is)" "\<forall>i\<in>set is. i < 2 ^ 63"
  shows "\<exists>ids. those (map read_i64 (mv_get M k h)) = Some ids \<and> mset ids = mset (map int is)"
proof -
  let ?g = "\<lambda>v. the (read_i64 v)"
  have "set (mv_get M k h) = le_put 8 ` set is" using arg_cong[OF assms(1), of set_mset] by simp
  then have "\<forall>v\<in>set (mv_get M k h). read_i64 v = Some (?g v)" using read_i64_put assms(2) by fastforce
  then have "those (map read_i64 (mv_get M k h)) = Some (map ?g (mv_get M k h))" by (rule those_map_Some)
  moreover have "mset (map ?g (mv_get M k h)) = mset (map int is)"
  proof -
    have "mset (map ?g (mv_get M k h)) = image_mset ?g (image_mset (le_put 8) (mset is))" using assms(1) by simp
    also have "\<dots> = image_mset int (mset is)"
      unfolding multiset.map_comp o_def using assms(2) by (intro image_mset_cong) (simp add: read_i64_put)
    finally show ?thesis by simp
  qed
  ultimately show ?thesis by blast
qed

lemma join_loop_spec:
  assumes get: "\<forall>k. mset (mv_get M k h) = mset (map (le_put 8) (rows_with offs0 k 0 tbl0))"
    and t0: "\<forall>r\<in>set tbl0. numbered r" "length tbl0 < 2 ^ 63" and t1: "\<forall>r\<in>set tbl1. has_cols offs1 r"
  shows "join_loop M tbl0 h offs1 tbl1 s =
     Some (s + (\<Sum>r1\<leftarrow>tbl1. \<Sum>r0\<leftarrow>tbl0. if key_loop r0 0 offs0 [] = key_loop r1 0 offs1 [] then row_value r0 else 0))"
  using t1
proof (induction tbl1 arbitrary: s)
  case (Cons r1 tbl1)
  obtain key where key: "key_loop r1 0 offs1 [] = Some key" using has_cols_key Cons.prems by fastforce
  let ?is = "rows_with offs0 key 0 tbl0"
  have rng: "i < length tbl0" if i: "i \<in> set ?is" for i using rows_with_range[OF i] by simp
  then have "\<forall>i\<in>set ?is. i < 2 ^ 63" using t0(2) by fastforce
  from probe_ids[OF get[rule_format, of key] this] obtain ids where
    ids: "those (map read_i64 (mv_get M key h)) = Some ids" "mset ids = mset (map int ?is)" by blast
  have sids: "set ids = int ` set ?is" using arg_cong[OF ids(2), of set_mset] by simp
  have "numbered (tbl0 ! i)" if "i \<in> set ?is" for i using t0(1) rng[OF that] by simp
  then have "sum_loop tbl0 ids s = Some (s + (\<Sum>i\<leftarrow>ids. row_value (tbl0 ! nat i)))"
    using rng by (intro sum_loop_ok) (auto simp: sids)
  moreover have "(\<Sum>i\<leftarrow>ids. row_value (tbl0 ! nat i)) =
      (\<Sum>r0\<leftarrow>tbl0. if key_loop r0 0 offs0 [] = Some key then row_value r0 else 0)"
  proof -
    have "(\<Sum>i\<leftarrow>ids. row_value (tbl0 ! nat i)) = sum_mset (image_mset (\<lambda>i. row_value (tbl0 ! nat i)) (mset (map int ?is)))"
      unfolding ids(2)[symmetric] by (simp flip: sum_mset_sum_list)
    also have "\<dots> = (\<Sum>i\<leftarrow>?is. row_value (tbl0 ! i))" by (simp add: multiset.map_comp o_def flip: sum_mset_sum_list)
    also have "\<dots> = (\<Sum>r\<leftarrow>tbl0. if key_loop r 0 offs0 [] = Some key then row_value r else 0)"
      using rows_with_sum[where f = row_value and pre = "[]"] by simp
    finally show ?thesis .
  qed
  ultimately show ?case using Cons key ids(1) by (simp add: probe_def add.assoc)
qed simp

lemma key_sums:
  "(\<Sum>r1\<leftarrow>tbl1. \<Sum>r0\<leftarrow>tbl0. if key_loop r0 0 offs0 [] = key_loop r1 0 offs1 [] then row_value r0 else 0) =
     join_spec tbl0 tbl1 offs0 offs1 + clash_sum tbl0 tbl1 offs0 offs1"
  unfolding join_spec_def clash_sum_def sum_list_addf[symmetric]
  by (intro arg_cong[of _ _ sum_list] map_cong refl) (simp add: clashing_def key_loop_join)

lemma no_clash_sum:
  assumes "\<forall>r\<in>set tbl0. keyed offs0 r" "\<forall>r\<in>set tbl1. keyed offs1 r" "length offs0 = length offs1"
  shows "clash_sum tbl0 tbl1 offs0 offs1 = 0"
proof -
  have "(\<Sum>r0\<leftarrow>tbl0. if clashing offs0 offs1 r0 r1 then row_value r0 else 0) = (\<Sum>r0\<leftarrow>tbl0. 0)" if "r1 \<in> set tbl1" for r1
    using assms that keyed_no_clash by (intro arg_cong[of _ _ sum_list] map_cong) auto
  then have "clash_sum tbl0 tbl1 offs0 offs1 = (\<Sum>r1\<leftarrow>tbl1. 0)"
    unfolding clash_sum_def by (intro arg_cong[of _ _ sum_list] map_cong) auto
  then show ?thesis by simp
qed

lemma join_example_keys:
  assumes "mv_ok M I" "length tbl0 < 2 ^ 63" "\<forall>r\<in>set tbl0. has_cols offs0 r \<and> numbered r" "\<forall>r\<in>set tbl1. has_cols offs1 r"
  shows "\<exists>h. buildHashTable M tbl0 offs0 = Some h \<and>
     join_loop M tbl0 h offs1 tbl1 0 = Some (join_spec tbl0 tbl1 offs0 offs1 + clash_sum tbl0 tbl1 offs0 offs1)"
proof -
  have "I (mv_new M)" "\<forall>k. mv_get M k (mv_new M) = []" using assms(1) by (auto simp: mv_ok_def)
  with build_loop_get[OF assms(1) this(1), of tbl0 offs0 0] assms(3) obtain h where
    "build_loop M offs0 0 tbl0 (mv_new M) = Some h"
    "\<forall>k. mset (mv_get M k h) = mset (map (le_put 8) (rows_with offs0 k 0 tbl0))" by auto
  then show ?thesis using join_loop_spec[OF _ _ assms(2,4), of M h offs0 0] assms(3) by (auto simp: buildHashTable_def key_sums)
qed

subsection \<open>Tables as text\<close>

definition plain_field :: "string \<Rightarrow> bool" where
  "plain_field f \<longleftrightarrow> set f \<inter> {CHR '','', CHR 0x22, CHR 0x0A, CHR 0x0D} = {}"

definition csv_text :: "string list list \<Rightarrow> string" where
  "csv_text rows = concat (map (\<lambda>r. sep_join (CHR '','') r @ [CHR 0x0A]) rows)"

definition plain_row :: "nat \<Rightarrow> string list \<Rightarrow> bool" where
  "plain_row n r \<longleftrightarrow> length r = n \<and> r \<noteq> [] \<and> r \<noteq> [''''] \<and> (\<forall>f\<in>set r. plain_field f)"

lemma sep_join_chars: "set (sep_join c r) \<subseteq> insert c (\<Union>f\<in>set r. set f)"
  by (induction c r rule: sep_join.induct) auto

lemma csv_lines_text:
  assumes "\<forall>r\<in>set rows. \<forall>f\<in>set r. plain_field f"
  shows "csv_lines (csv_text rows) = map (\<lambda>r. sep_join (CHR '','') r @ [CHR 0x0A]) rows"
proof -
  have "split_on (CHR 0x0A) (csv_text rows) = map (sep_join (CHR '','')) rows @ [[]]"
    using assms
  proof (induction rows)
    case (Cons r rows)
    then have "CHR 0x0A \<notin> set (sep_join (CHR '','') r)"
      using sep_join_chars[of "CHR '',''" r] by (auto simp: plain_field_def)
    from split_on_Cons[OF this, of "csv_text rows"] Cons show ?case by (simp add: csv_text_def)
  qed (simp add: csv_text_def)
  moreover have "drop_cr (sep_join (CHR '','') r) = sep_join (CHR '','') r" if "r \<in> set rows" for r
  proof -
    have "CHR 0x0D \<notin> set (sep_join (CHR '','') r)"
      using sep_join_chars[of "CHR '',''" r] assms that by (fastforce simp: plain_field_def)
    then show ?thesis using last_in_set unfolding drop_cr_def by metis
  qed
  ultimately show ?thesis by (simp add: csv_lines_def)
qed

lemma takeWhile_sep: "c \<notin> set f \<Longrightarrow> takeWhile (\<lambda>x. x \<noteq> c) (f @ c # r) = f"
  "c \<notin> set f \<Longrightarrow> dropWhile (\<lambda>x. x \<noteq> c) (f @ c # r) = c # r"
  by (induction f) auto

lemma csv_fields_plain:
  assumes "r \<noteq> []" "\<forall>f\<in>set r. plain_field f"
  shows "csv_fields (sep_join (CHR '','') r @ [CHR 0x0A]) ls acc = Inr (acc @ r, ls)"
  using assms
proof (induction "CHR '',''" r arbitrary: acc rule: sep_join.induct)
  case (2 f)
  have "hd (f @ [CHR 0x0A]) \<noteq> CHR 0x22" using 2 by (cases f) (auto simp: plain_field_def)
  then show ?case using 2 by (subst csv_fields.simps) (auto simp: plain_field_def chomp_def)
next
  case (3 f g r)
  have f: "hd (f @ CHR '','' # sep_join (CHR '','') (g # r) @ [CHR 0x0A]) \<noteq> CHR 0x22" "CHR '','' \<notin> set f" "CHR 0x22 \<notin> set f"
    using "3.prems" by (cases f; auto simp: plain_field_def)+
  have "csv_fields (sep_join (CHR '','') (g # r) @ [CHR 0x0A]) ls (acc @ [f]) = Inr ((acc @ [f]) @ g # r, ls)"
    using "3.prems" by (intro "3.hyps") auto
  then show ?case using f by (subst csv_fields.simps) (simp add: takeWhile_sep Let_def)
qed simp

lemma read_tbl_text:
  assumes "\<forall>r\<in>set rows. plain_row n r" "n' = 0 \<or> n' = n"
  shows "read_tbl_loop n' (map (\<lambda>r. sep_join (CHR '','') r @ [CHR 0x0A]) rows) tbl = Some (tbl @ rows)"
  using assms
proof (induction rows arbitrary: n' tbl)
  case (Cons r rows)
  have r: "length r = n" "r \<noteq> []" "r \<noteq> ['''']" "\<forall>f\<in>set r. plain_field f" using Cons.prems(1) by (auto simp: plain_row_def)
  have "sep_join (CHR '','') r \<noteq> []" using r(2,3) by (cases "(CHR '','', r)" rule: sep_join.cases) auto
  then have "\<not> end_of_line (sep_join (CHR '','') r @ [CHR 0x0A])" by (simp add: end_of_line_def)
  then have "csv_read n' (map (\<lambda>r. sep_join (CHR '','') r @ [CHR 0x0A]) (r # rows)) =
      Inr (Some (r, map (\<lambda>r. sep_join (CHR '','') r @ [CHR 0x0A]) rows))"
    using csv_fields_plain[OF r(2,4), of _ "[]"] r(1) Cons.prems(2) by auto
  moreover have "n > 0" using r by auto
  ultimately show ?case using Cons.IH[of n "tbl @ [r]"] Cons.prems r(1) by (subst read_tbl_loop.simps) auto
qed (simp add: read_tbl_loop.simps)

lemma readCSV_text:
  assumes "\<forall>r\<in>set rows. plain_row n r" "files f = Some (csv_text rows)"
  shows "readCSVFileIntoTbl files f = Some rows"
proof -
  have "\<forall>r\<in>set rows. \<forall>f\<in>set r. plain_field f" using assms(1) by (auto simp: plain_row_def)
  from csv_lines_text[OF this] read_tbl_text[OF assms(1), of 0 "[]"] assms(2) show ?thesis
    by (simp add: readCSVFileIntoTbl_def)
qed

section \<open>Properties\<close>

text \<open>A list of pairs is a multi-valued map.\<close>

definition list_mvmap :: "(string \<times> byte list) list mvmap" where
  "list_mvmap = \<lparr>mv_new = [], mv_put = (\<lambda>k v h. h @ [(k, v)]), mv_get = (\<lambda>k h. map snd (filter (\<lambda>p. fst p = k) h))\<rparr>"

lemma list_mvmap_ok: "mv_ok list_mvmap (\<lambda>_. True)"
  by (auto simp: mv_ok_def list_mvmap_def)

text \<open>C11. The hash join computes the nested-loop join. For two tables in CSV form whose join columns contain no underscore
  and whose first column is a 64-bit number, \<^verbatim>\<open>JoinExample\<close> returns, modulo 2 to the 64, the sum of the first column
  over all pairs of rows that agree on the join columns; it does not panic.\<close>

theorem join_example_correct:
  assumes "mv_ok M I"
    and "files f0 = Some (csv_text tbl0)" "\<forall>r\<in>set tbl0. plain_row wl r \<and> keyed offs0 r \<and> numbered r" "length tbl0 < 2 ^ 63"
    and "files f1 = Some (csv_text tbl1)" "\<forall>r\<in>set tbl1. plain_row wr r \<and> keyed offs1 r"
    and "length offs0 = length offs1"
  shows "JoinExample M files f0 f1 offs0 offs1 = Some (join_spec tbl0 tbl1 offs0 offs1)"
  using readCSV_text[of tbl0 wl files f0] readCSV_text[of tbl1 wr files f1] no_clash_sum[of tbl0 offs0 tbl1 offs1]
    join_example_keys[OF assms(1,4), of offs0 tbl1 offs1] assms(2,3,5-7) by (auto simp: JoinExample_def keyed_has_cols)

definition sample_files :: "string \<Rightarrow> string option" where
  "sample_files = [''r0'' \<mapsto> csv_text [[''1'', ''x''], [''2'', ''y''], [''4'', ''x'']], ''r1'' \<mapsto> csv_text [[''7'', ''x'']]]"

theorem join_example_correct_witness: "JoinExample list_mvmap sample_files ''r0'' ''r1'' [1] [1] = Some 5"
proof -
  have "JoinExample list_mvmap sample_files ''r0'' ''r1'' [1] [1] =
      Some (join_spec [[''1'', ''x''], [''2'', ''y''], [''4'', ''x'']] [[''7'', ''x'']] [1] [1])"
    by (rule join_example_correct[OF list_mvmap_ok, where wl = 2 and wr = 2])
      (simp_all add: sample_files_def plain_row_def plain_field_def keyed_def numbered_def col_def parse_uint_def)
  then show ?thesis by (simp add: join_spec_def cols_def col_def row_value_def parse_uint_def)
qed

text \<open>C37. The underscore between the columns of a key does not separate them. For any two tables in CSV form with numbers in the
  first column, \<^verbatim>\<open>JoinExample\<close> returns the nested-loop join plus the first column of the left row of every pair whose join
  columns differ but make the same text when they are joined by underscores. When no
  join column contains an underscore there are no such pairs.\<close>

theorem join_key_clash:
  assumes "mv_ok M I"
    and "files f0 = Some (csv_text tbl0)" "\<forall>r\<in>set tbl0. plain_row wl r \<and> has_cols offs0 r \<and> numbered r" "length tbl0 < 2 ^ 63"
    and "files f1 = Some (csv_text tbl1)" "\<forall>r\<in>set tbl1. plain_row wr r \<and> has_cols offs1 r"
  shows "JoinExample M files f0 f1 offs0 offs1 =
     Some (join_spec tbl0 tbl1 offs0 offs1 + clash_sum tbl0 tbl1 offs0 offs1)"
  using readCSV_text[of tbl0 wl files f0] readCSV_text[of tbl1 wr files f1]
    join_example_keys[OF assms(1,4), of offs0 tbl1 offs1] assms(2,3,5,6) by (auto simp: JoinExample_def)

definition clash_files :: "string \<Rightarrow> string option" where
  "clash_files = [''r0'' \<mapsto> csv_text [[''1'', ''a_b'', ''c''], [''2'', ''a'', ''c'']], ''r1'' \<mapsto> csv_text [[''1'', ''a'', ''b_c'']]]"

theorem join_key_clash_witness:
  "JoinExample list_mvmap clash_files ''r0'' ''r1'' [1, 2] [1, 2] = Some 1 \<and>
   join_spec [[''1'', ''a_b'', ''c''], [''2'', ''a'', ''c'']] [[''1'', ''a'', ''b_c'']] [1, 2] [1, 2] = 0 \<and>
   clashing [1, 2] [1, 2] [''1'', ''a_b'', ''c''] [''1'', ''a'', ''b_c'']"
proof -
  let ?t0 = "[[''1'', ''a_b'', ''c''], [''2'', ''a'', ''c'']]" and ?t1 = "[[''1'', ''a'', ''b_c'']]"
  have "JoinExample list_mvmap clash_files ''r0'' ''r1'' [1, 2] [1, 2] =
      Some (join_spec ?t0 ?t1 [1, 2] [1, 2] + clash_sum ?t0 ?t1 [1, 2] [1, 2])"
    by (rule join_key_clash[OF list_mvmap_ok, where wl = 3 and wr = 3])
      (simp_all add: clash_files_def plain_row_def plain_field_def has_cols_def numbered_def parse_uint_def)
  moreover have "join_spec ?t0 ?t1 [1, 2] [1, 2] = 0" by (simp add: join_spec_def cols_def col_def)
  moreover have "clash_sum ?t0 ?t1 [1, 2] [1, 2] = 1"
    by (simp add: clash_sum_def clashing_def cols_def col_def row_value_def parse_uint_def)
  moreover have "clashing [1, 2] [1, 2] [''1'', ''a_b'', ''c''] [''1'', ''a'', ''b_c'']" by (simp add: clashing_def cols_def col_def)
  ultimately show ?thesis by simp
qed

text \<open>Reading a table back: the rows of a file of plain comma-separated fields, all rows of one length, are what
  \<^verbatim>\<open>readCSVFileIntoTbl\<close> returns, in order.\<close>

theorem csv_roundtrip:
  assumes "\<forall>r\<in>set rows. plain_row n r" "files f = Some (csv_text rows)"
  shows "readCSVFileIntoTbl files f = Some rows"
  using assms by (rule readCSV_text)

theorem csv_roundtrip_witness:
  "readCSVFileIntoTbl [''t'' \<mapsto> csv_text [[''1'', ''''], [''2'', ''b'']]] ''t'' = Some [[''1'', ''''], [''2'', ''b'']]"
  by (rule csv_roundtrip[where n = 2]) (simp_all add: plain_row_def plain_field_def)

end
