(* ===== verification/MapReduce.thy ===== *)
theory MapReduce
  imports GoStd "HOL-Library.Multiset"
begin

text \<open>
  The map phase of \<^verbatim>\<open>tidb/mapreduce/mapreduce.go\<close> and the file helpers of \<^verbatim>\<open>tidb/mapreduce/utils.go\<close>. A file
  system is a map from paths to contents with its set of directories; a Go panic is \<^const>\<open>None\<close>. Workers receive
  tasks from one channel, so a job is performed in some order of its tasks; the reduce phase of the sources is a
  panic, left as an exercise.
\<close>

subsection \<open>Files\<close>

record gofs =
  gfiles :: "string \<Rightarrow> string option"
  gdirs :: "string list"

record gfile =
  gf_path :: string
  gf_buf :: string

definition path_dir :: "string \<Rightarrow> string" where
  "path_dir p = path_clean (rev (dropWhile (\<lambda>c. c \<noteq> CHR ''/'') (rev p)))"

definition ancestors :: "string \<Rightarrow> string list" where
  "ancestors d = map (\<lambda>i. take i d) (filter (\<lambda>i. i = length d \<or> d ! i = CHR ''/'') [1..<Suc (length d)])"

definition mkdir_all :: "string \<Rightarrow> gofs \<Rightarrow> gofs" where
  "mkdir_all d fs =
     (if list_ex (\<lambda>a. gfiles fs a \<noteq> None) (ancestors d) then fs
      else fs\<lparr>gdirs := gdirs fs @ filter (\<lambda>a. a \<notin> set (gdirs fs)) (ancestors d)\<rparr>)"

definition CreateFileAndBuf :: "string \<Rightarrow> gofs \<Rightarrow> (gfile \<times> gofs) option" where
  "CreateFileAndBuf fpath fs =
     (let fs1 = mkdir_all (path_dir fpath) fs
      in if path_dir fpath \<in> set (gdirs fs1) \<and> fpath \<notin> set (gdirs fs1)
         then Some (\<lparr>gf_path = fpath, gf_buf = []\<rparr>, fs1\<lparr>gfiles := (gfiles fs1)(fpath \<mapsto> [])\<rparr>)
         else None)"

definition OpenFileAndBuf :: "string \<Rightarrow> gofs \<Rightarrow> string option" where
  "OpenFileAndBuf fpath fs = gfiles fs fpath"

definition WriteToBuf :: "gfile \<Rightarrow> string list \<Rightarrow> gfile" where
  "WriteToBuf buf strs = buf\<lparr>gf_buf := gf_buf buf @ concat strs\<rparr>"

definition SafeClose :: "gfile \<Rightarrow> gofs \<Rightarrow> gofs" where
  "SafeClose f fs =
     fs\<lparr>gfiles := (gfiles fs)(gf_path f := map_option (\<lambda>old. old @ gf_buf f) (gfiles fs (gf_path f)))\<rparr>"

definition FileOrDirExist :: "string \<Rightarrow> gofs \<Rightarrow> bool" where
  "FileOrDirExist p fs \<longleftrightarrow> gfiles fs p \<noteq> None \<or> p \<in> set (gdirs fs)"

definition CheckFile :: "string \<Rightarrow> string \<Rightarrow> gofs \<Rightarrow> (string \<times> bool) option" where
  "CheckFile expected got fs =
     (case gfiles fs expected of
        None \<Rightarrow> None
      | Some c1 \<Rightarrow>
          (case gfiles fs got of
             None \<Rightarrow> None
           | Some c2 \<Rightarrow>
               (if trim_space c1 = trim_space c2 then Some ('''', True)
                else Some (''expected:'' @ [CHR 0x0A] @ c1 @ [CHR 0x0A] @ '', but got:'' @ [CHR 0x0A] @ c2 @ [CHR 0x0A], False))))"

subsection \<open>Tasks\<close>

record key_value =
  Key :: string
  Value :: string

type_synonym map_f = "string \<Rightarrow> string \<Rightarrow> key_value list"
type_synonym reduce_f = "string \<Rightarrow> string list \<Rightarrow> string"

datatype job_phase = MapPhase | ReducePhase

record task =
  dataDir :: string
  jobName :: string
  mapFile :: string
  phase :: job_phase
  taskNumber :: nat
  nMap :: nat
  nReduce :: nat
  mapF :: map_f

definition ihash :: "string \<Rightarrow> nat" where
  "ihash s = unat (fnv32a s AND 0x7fffffff)"

definition reduceName :: "string \<Rightarrow> string \<Rightarrow> nat \<Rightarrow> nat \<Rightarrow> string" where
  "reduceName dir job m r = path_join dir (''mrtmp.'' @ job @ ''-'' @ show_nat m @ ''-'' @ show_nat r)"

definition mergeName :: "string \<Rightarrow> string \<Rightarrow> nat \<Rightarrow> string" where
  "mergeName dir job r = path_join dir (''mrtmp.'' @ job @ ''-res-'' @ show_nat r)"

definition encode_kv :: "key_value \<Rightarrow> string" where
  "encode_kv kv =
     ''{'' @ json_string ''Key'' @ '':'' @ json_string (Key kv) @ '','' @ json_string ''Value'' @ '':'' @ json_string (Value kv) @
     ''}'' @ [CHR 0x0A]"

fun create_loop :: "task \<Rightarrow> nat list \<Rightarrow> gofs \<Rightarrow> (gfile list \<times> gofs) option" where
  "create_loop t [] fs = Some ([], fs)"
| "create_loop t (i # is) fs =
     (case CreateFileAndBuf (reduceName (dataDir t) (jobName t) (taskNumber t) i) fs of
        None \<Rightarrow> None
      | Some (f, fs1) \<Rightarrow> (case create_loop t is fs1 of None \<Rightarrow> None | Some (hs, fs2) \<Rightarrow> Some (f # hs, fs2)))"

fun emit_loop :: "nat \<Rightarrow> key_value list \<Rightarrow> gfile list \<Rightarrow> gfile list option" where
  "emit_loop n [] hs = Some hs"
| "emit_loop n (kv # kvs) hs =
     (if n = 0 then None
      else let i = ihash (Key kv) mod n in emit_loop n kvs (hs[i := WriteToBuf (hs ! i) [encode_kv kv]]))"

fun close_loop :: "gfile list \<Rightarrow> gofs \<Rightarrow> gofs" where
  "close_loop [] fs = fs"
| "close_loop (h # hs) fs = close_loop hs (SafeClose h fs)"

definition worker_task :: "task \<Rightarrow> gofs \<Rightarrow> gofs option" where
  "worker_task t fs =
     (if phase t = MapPhase
      then (case gfiles fs (mapFile t) of
              None \<Rightarrow> None
            | Some content \<Rightarrow>
                (case create_loop t [0..<nReduce t] fs of
                   None \<Rightarrow> None
                 | Some (hs, fs1) \<Rightarrow>
                     (case emit_loop (nReduce t) (mapF t (mapFile t) content) hs of
                        None \<Rightarrow> None
                      | Some hs' \<Rightarrow> Some (close_loop hs' fs1))))
      else None)"

fun work :: "task list \<Rightarrow> gofs \<Rightarrow> gofs option" where
  "work [] fs = Some fs"
| "work (t # ts) fs = (case worker_task t fs of None \<Rightarrow> None | Some fs1 \<Rightarrow> work ts fs1)"

definition map_tasks :: "string \<Rightarrow> string \<Rightarrow> map_f \<Rightarrow> string list \<Rightarrow> nat \<Rightarrow> task list" where
  "map_tasks job dir f mapFiles n =
     map (\<lambda>i. \<lparr>dataDir = dir, jobName = job, mapFile = mapFiles ! i, phase = MapPhase, taskNumber = i,
        nMap = length mapFiles, nReduce = n, mapF = f\<rparr>) [0..<length mapFiles]"

text \<open>The map phase of \<^verbatim>\<open>run\<close>: its tasks in the order \<open>sched\<close> in which workers perform them.\<close>

definition map_phase :: "string \<Rightarrow> string \<Rightarrow> map_f \<Rightarrow> string list \<Rightarrow> nat \<Rightarrow> nat list \<Rightarrow> gofs \<Rightarrow> gofs option" where
  "map_phase job dir f mapFiles n sched fs =
     (let tasks = map_tasks job dir f mapFiles n in work (map ((!) tasks) sched) fs)"

subsection \<open>Names of intermediate files\<close>

lemma dash_split:
  assumes "CHR ''-'' \<notin> set a" "CHR ''-'' \<notin> set b" "s @ CHR ''-'' # a = t @ CHR ''-'' # b"
  shows "s = t \<and> a = b"
proof -
  have "takeWhile (\<lambda>c. c \<noteq> CHR ''-'') (rev (s @ CHR ''-'' # a)) = rev a"
    "takeWhile (\<lambda>c. c \<noteq> CHR ''-'') (rev (t @ CHR ''-'' # b)) = rev b"
    using assms(1,2) by (simp_all add: takeWhile_append takeWhile_eq_all_conv)
  then show ?thesis using assms(3) by auto
qed

lemma no_dash_show [simp]: "CHR ''-'' \<notin> set (show_nat n)"
  using show_nat_digits[of "CHR ''-''" n] by auto

lemma no_slash_show [simp]: "CHR ''/'' \<notin> set (show_nat n)"
  using show_nat_digits[of "CHR ''/''" n] by auto

lemma reduce_file_name: "CHR ''/'' \<notin> set job \<Longrightarrow> file_name (''mrtmp.'' @ job @ ''-'' @ show_nat m @ ''-'' @ show_nat r)"
  by (simp add: file_name_def)

lemma reduceName_inj:
  assumes "CHR ''/'' \<notin> set job"
  shows "reduceName dir job m r = reduceName dir job m' r' \<longleftrightarrow> m = m' \<and> r = r'"
proof
  assume "reduceName dir job m r = reduceName dir job m' r'"
  then have "(''mrtmp.'' @ job @ ''-'' @ show_nat m) @ CHR ''-'' # show_nat r = (''mrtmp.'' @ job @ ''-'' @ show_nat m') @ CHR ''-'' # show_nat r'"
    using path_join_inj[OF reduce_file_name[OF assms] reduce_file_name[OF assms]] by (simp add: reduceName_def)
  from dash_split[OF no_dash_show no_dash_show this] show "m = m' \<and> r = r'" by simp
qed simp

subsection \<open>One task\<close>

definition bucket :: "nat \<Rightarrow> key_value list \<Rightarrow> nat \<Rightarrow> string" where
  "bucket n kvs r = concat (map encode_kv (filter (\<lambda>kv. ihash (Key kv) mod n = r) kvs))"

definition dir_ready :: "gofs \<Rightarrow> string \<Rightarrow> bool" where
  "dir_ready fs p \<longleftrightarrow> set (ancestors (path_dir p)) \<subseteq> set (gdirs fs) \<and> path_dir p \<in> set (gdirs fs) \<and> p \<notin> set (gdirs fs)"

lemma create_ready:
  assumes "dir_ready fs p"
  shows "CreateFileAndBuf p fs = Some (\<lparr>gf_path = p, gf_buf = []\<rparr>, fs\<lparr>gfiles := (gfiles fs)(p \<mapsto> [])\<rparr>)"
proof -
  have "filter (\<lambda>a. a \<notin> set (gdirs fs)) (ancestors (path_dir p)) = []" using assms by (auto simp: dir_ready_def filter_empty_conv)
  then have "mkdir_all (path_dir p) fs = fs" by (simp add: mkdir_all_def)
  then show ?thesis using assms by (simp add: CreateFileAndBuf_def dir_ready_def)
qed

definition task_name :: "task \<Rightarrow> nat \<Rightarrow> string" where
  "task_name t r = reduceName (dataDir t) (jobName t) (taskNumber t) r"

definition buffers :: "task \<Rightarrow> (nat \<Rightarrow> string) \<Rightarrow> nat list \<Rightarrow> gfile list" where
  "buffers t b is = map (\<lambda>r. \<lparr>gf_path = task_name t r, gf_buf = b r\<rparr>) is"

lemma create_loop_ready:
  assumes "\<forall>r\<in>set is. dir_ready fs (task_name t r)"
  shows "\<exists>fs1. create_loop t is fs = Some (buffers t (\<lambda>_. []) is, fs1) \<and> gdirs fs1 = gdirs fs \<and>
     (\<forall>p. gfiles fs1 p = (if p \<in> task_name t ` set is then Some [] else gfiles fs p))"
  using assms
proof (induction "is" arbitrary: fs)
  case (Cons i "is")
  let ?fs = "fs\<lparr>gfiles := (gfiles fs)(task_name t i \<mapsto> [])\<rparr>"
  have "\<forall>r\<in>set is. dir_ready ?fs (task_name t r)" using Cons.prems by (simp add: dir_ready_def)
  from Cons.IH[OF this] obtain fs1 where
    fs1: "create_loop t is ?fs = Some (buffers t (\<lambda>_. []) is, fs1)" "gdirs fs1 = gdirs fs"
      "\<forall>p. gfiles fs1 p = (if p \<in> task_name t ` set is then Some [] else gfiles ?fs p)" by auto
  have "CreateFileAndBuf (task_name t i) fs = Some (\<lparr>gf_path = task_name t i, gf_buf = []\<rparr>, ?fs)"
    using Cons.prems by (intro create_ready) simp
  then show ?case using fs1 by (auto simp: task_name_def buffers_def)
qed (simp add: buffers_def)

lemma emit_loop_buckets:
  assumes "0 < n"
  shows "emit_loop n kvs (buffers t b [0..<n]) = Some (buffers t (\<lambda>r. b r @ bucket n kvs r) [0..<n])"
proof (induction kvs arbitrary: b)
  case (Cons kv kvs)
  let ?i = "ihash (Key kv) mod n"
  have i: "?i < n" using assms by simp
  have "(buffers t b [0..<n])[?i := WriteToBuf (buffers t b [0..<n] ! ?i) [encode_kv kv]] =
      buffers t (\<lambda>r. if r = ?i then b r @ encode_kv kv else b r) [0..<n]"
    using i by (intro nth_equalityI) (auto simp: buffers_def WriteToBuf_def nth_list_update)
  moreover have "(if r = ?i then b r @ encode_kv kv else b r) @ bucket n kvs r = b r @ bucket n (kv # kvs) r" for r
    by (simp add: bucket_def)
  ultimately show ?case using Cons.IH assms by (simp add: Let_def)
qed (simp add: bucket_def)

lemma close_loop_files:
  assumes "distinct (map (task_name t) is)" "\<forall>r\<in>set is. gfiles fs (task_name t r) = Some []"
  shows "gdirs (close_loop (buffers t b is) fs) = gdirs fs \<and>
     (\<forall>r\<in>set is. gfiles (close_loop (buffers t b is) fs) (task_name t r) = Some (b r)) \<and>
     (\<forall>p. p \<notin> task_name t ` set is \<longrightarrow> gfiles (close_loop (buffers t b is) fs) p = gfiles fs p)"
  using assms
proof (induction "is" arbitrary: fs)
  case (Cons i "is")
  let ?fs = "SafeClose \<lparr>gf_path = task_name t i, gf_buf = b i\<rparr> fs"
  have "task_name t i \<notin> task_name t ` set is" using Cons.prems(1) by simp
  then have "\<forall>r\<in>set is. task_name t r \<noteq> task_name t i" by (metis imageI)
  then have "\<forall>r\<in>set is. gfiles ?fs (task_name t r) = Some []" using Cons.prems by (simp add: SafeClose_def)
  moreover have "distinct (map (task_name t) is)" using Cons.prems by simp
  ultimately have IH: "gdirs (close_loop (buffers t b is) ?fs) = gdirs ?fs"
     "\<forall>r\<in>set is. gfiles (close_loop (buffers t b is) ?fs) (task_name t r) = Some (b r)"
     "\<forall>p. p \<notin> task_name t ` set is \<longrightarrow> gfiles (close_loop (buffers t b is) ?fs) p = gfiles ?fs p" using Cons.IH by blast+
  have "task_name t i \<notin> task_name t ` set is" using Cons.prems(1) by simp
  then have "gfiles (close_loop (buffers t b is) ?fs) (task_name t i) = Some (b i)"
    using IH(3) Cons.prems(2) by (simp add: SafeClose_def)
  then show ?case using IH by (auto simp: buffers_def SafeClose_def)
qed (simp add: buffers_def)

lemma worker_task_files:
  assumes ph: "phase t = MapPhase" and c: "gfiles fs (mapFile t) = Some content" and n: "0 < nReduce t"
    and j: "CHR ''/'' \<notin> set (jobName t)" and d: "\<forall>r<nReduce t. dir_ready fs (task_name t r)"
  shows "\<exists>fs'. worker_task t fs = Some fs' \<and> gdirs fs' = gdirs fs \<and>
     (\<forall>r<nReduce t. gfiles fs' (task_name t r) = Some (bucket (nReduce t) (mapF t (mapFile t) content) r)) \<and>
     (\<forall>p. p \<notin> task_name t ` {..<nReduce t} \<longrightarrow> gfiles fs' p = gfiles fs p)"
proof -
  let ?is = "[0..<nReduce t]" and ?b = "\<lambda>r. bucket (nReduce t) (mapF t (mapFile t) content) r"
  have "\<forall>r\<in>set ?is. dir_ready fs (task_name t r)" using d by simp
  from create_loop_ready[OF this] obtain fs1 where
    fs1: "create_loop t ?is fs = Some (buffers t (\<lambda>_. []) ?is, fs1)" "gdirs fs1 = gdirs fs"
      "\<forall>p. gfiles fs1 p = (if p \<in> task_name t ` set ?is then Some [] else gfiles fs p)" by blast
  have "distinct (map (task_name t) ?is)" using j by (auto simp: distinct_map inj_on_def task_name_def reduceName_inj)
  from close_loop_files[OF this, of fs1 ?b] fs1 have cl:
    "gdirs (close_loop (buffers t ?b ?is) fs1) = gdirs fs"
    "\<forall>r\<in>set ?is. gfiles (close_loop (buffers t ?b ?is) fs1) (task_name t r) = Some (?b r)"
    "\<forall>p. p \<notin> task_name t ` set ?is \<longrightarrow> gfiles (close_loop (buffers t ?b ?is) fs1) p = gfiles fs p" by auto
  have "worker_task t fs = Some (close_loop (buffers t ?b ?is) fs1)"
    using ph c fs1(1) emit_loop_buckets[OF n, of _ t "\<lambda>_. []"] by (simp add: worker_task_def)
  moreover have "set ?is = {..<nReduce t}" by auto
  ultimately show ?thesis using cl by auto
qed

subsection \<open>All tasks, in any order\<close>

lemma work_files:
  assumes "distinct ts" "CHR ''/'' \<notin> set job" "0 < n"
    and "\<forall>t\<in>set ts. phase t = MapPhase \<and> nReduce t = n \<and> dataDir t = dir \<and> jobName t = job"
    and "inj_on taskNumber (set ts)"
    and "\<forall>t\<in>set ts. gfiles fs (mapFile t) = Some (content t)"
    and "\<forall>t\<in>set ts. \<forall>t'\<in>set ts. \<forall>r<n. mapFile t \<noteq> task_name t' r"
    and "\<forall>t\<in>set ts. \<forall>r<n. dir_ready fs (task_name t r)"
  shows "\<exists>fs'. work ts fs = Some fs' \<and>
     (\<forall>t\<in>set ts. \<forall>r<n. gfiles fs' (task_name t r) = Some (bucket n (mapF t (mapFile t) (content t)) r)) \<and>
     (\<forall>p. (\<forall>t\<in>set ts. \<forall>r<n. p \<noteq> task_name t r) \<longrightarrow> gfiles fs' p = gfiles fs p)"
  using assms(1,4-8)
proof (induction ts arbitrary: fs)
  case (Cons t ts)
  have j: "CHR ''/'' \<notin> set (jobName t)" "nReduce t = n" "phase t = MapPhase" using Cons.prems(2) assms(2) by auto
  have "\<exists>fs1. worker_task t fs = Some fs1 \<and> gdirs fs1 = gdirs fs \<and>
     (\<forall>r<nReduce t. gfiles fs1 (task_name t r) = Some (bucket (nReduce t) (mapF t (mapFile t) (content t)) r)) \<and>
     (\<forall>p. p \<notin> task_name t ` {..<nReduce t} \<longrightarrow> gfiles fs1 p = gfiles fs p)"
    using Cons.prems j assms(3) by (intro worker_task_files) auto
  then obtain fs1 where fs1: "worker_task t fs = Some fs1" "gdirs fs1 = gdirs fs"
      "\<forall>r<n. gfiles fs1 (task_name t r) = Some (bucket n (mapF t (mapFile t) (content t)) r)"
      "\<forall>p. p \<notin> task_name t ` {..<n} \<longrightarrow> gfiles fs1 p = gfiles fs p" using j(2) by auto
  have "\<exists>fs'. work ts fs1 = Some fs' \<and>
     (\<forall>t\<in>set ts. \<forall>r<n. gfiles fs' (task_name t r) = Some (bucket n (mapF t (mapFile t) (content t)) r)) \<and>
     (\<forall>p. (\<forall>t\<in>set ts. \<forall>r<n. p \<noteq> task_name t r) \<longrightarrow> gfiles fs' p = gfiles fs1 p)"
  proof (rule Cons.IH)
    show "\<forall>t\<in>set ts. gfiles fs1 (mapFile t) = Some (content t)" using fs1(4) Cons.prems(4,5) by fastforce
    show "\<forall>t\<in>set ts. \<forall>r<n. dir_ready fs1 (task_name t r)" using Cons.prems(6) fs1(2) by (simp add: dir_ready_def)
  qed (use Cons.prems in auto)
  then obtain fs' where fs': "work ts fs1 = Some fs'"
     "\<forall>t\<in>set ts. \<forall>r<n. gfiles fs' (task_name t r) = Some (bucket n (mapF t (mapFile t) (content t)) r)"
     "\<forall>p. (\<forall>t\<in>set ts. \<forall>r<n. p \<noteq> task_name t r) \<longrightarrow> gfiles fs' p = gfiles fs1 p" by blast
  have ne: "task_name t r \<noteq> task_name t' r'" if "t' \<in> set ts" for t' r r'
  proof -
    have "taskNumber t \<noteq> taskNumber t'" using Cons.prems(1,3) that by (auto simp: inj_on_def)
    then show ?thesis using Cons.prems(2) that assms(2) by (simp add: task_name_def reduceName_inj)
  qed
  have "gfiles fs' (task_name t r) = gfiles fs1 (task_name t r)" for r using fs'(3) ne by blast
  then show ?case using fs1 fs' by auto
qed simp

lemma lessThan_ball: "(\<forall>i\<in>{..<n::nat}. P i) \<longleftrightarrow> (\<forall>i<n. P i)"
  by auto

section \<open>Properties\<close>

text \<open>C16. The map phase does not depend on the schedule: in whatever order the workers perform the map tasks of a job,
  intermediate file \<open>(m, r)\<close> ends up holding exactly the pairs the map function emits for input \<open>m\<close> whose key hashes
  to \<open>r\<close>, in the order they were emitted, and no other file changes.\<close>

theorem map_phase_any_order:
  assumes "distinct sched" "set sched = {..<length files}" "CHR ''/'' \<notin> set job" "0 < n"
    and "\<forall>i<length files. gfiles fs (files ! i) = Some (content i)"
    and "\<forall>i<length files. \<forall>m<length files. \<forall>r<n. files ! i \<noteq> reduceName dir job m r"
    and "\<forall>m<length files. \<forall>r<n. dir_ready fs (reduceName dir job m r)"
  shows "\<exists>fs'. map_phase job dir f files n sched fs = Some fs' \<and>
     (\<forall>m<length files. \<forall>r<n. gfiles fs' (reduceName dir job m r) = Some (bucket n (f (files ! m) (content m)) r)) \<and>
     (\<forall>p. (\<forall>m<length files. \<forall>r<n. p \<noteq> reduceName dir job m r) \<longrightarrow> gfiles fs' p = gfiles fs p)"
proof -
  let ?t = "\<lambda>i. \<lparr>dataDir = dir, jobName = job, mapFile = files ! i, phase = MapPhase, taskNumber = i,
     nMap = length files, nReduce = n, mapF = f\<rparr>"
  have ts: "map ((!) (map_tasks job dir f files n)) sched = map ?t sched"
    using assms(2) by (auto simp: map_tasks_def)
  have "\<exists>fs'. work (map ?t sched) fs = Some fs' \<and>
     (\<forall>t\<in>set (map ?t sched). \<forall>r<n. gfiles fs' (task_name t r) = Some (bucket n (mapF t (mapFile t) (content (taskNumber t))) r)) \<and>
     (\<forall>p. (\<forall>t\<in>set (map ?t sched). \<forall>r<n. p \<noteq> task_name t r) \<longrightarrow> gfiles fs' p = gfiles fs p)"
  proof (rule work_files[where dir = dir and job = job])
    show "distinct (map ?t sched)" using assms(1) by (auto simp: distinct_map inj_on_def)
  qed (use assms in \<open>auto simp: task_name_def inj_on_def\<close>)
  then show ?thesis using assms(2) unfolding map_phase_def Let_def ts by (simp add: task_name_def lessThan_ball)
qed

definition sample_fs :: gofs where
  "sample_fs = \<lparr>gfiles = [''/a'' \<mapsto> ''x'', ''/b'' \<mapsto> ''y''], gdirs = [''/d'']\<rparr>"

definition echo_map :: map_f where
  "echo_map name content = [\<lparr>Key = content, Value = name\<rparr>]"

lemma sample_ready: "dir_ready sample_fs (reduceName ''/d'' ''j'' 0 0)" "dir_ready sample_fs (reduceName ''/d'' ''j'' 1 0)"
  by code_simp+

lemma sample_names: "''/a'' \<noteq> reduceName ''/d'' ''j'' m 0" "''/b'' \<noteq> reduceName ''/d'' ''j'' m 0"
  by (simp_all add: reduceName_def path_join_def path_clean_def Let_def split_on_append split_on_plain)

theorem map_phase_any_order_witness:
  "\<exists>fs'. map_phase ''j'' ''/d'' echo_map [''/a'', ''/b''] 1 [1, 0] sample_fs = Some fs' \<and>
     gfiles fs' (reduceName ''/d'' ''j'' 1 0) = Some (encode_kv \<lparr>Key = ''y'', Value = ''/b''\<rparr>)"
proof -
  let ?c = "\<lambda>i. if i = 0 then ''x'' else ''y''"
  have all: "(\<forall>i<length [''/a'', ''/b'']. P i) = (P 0 \<and> P 1)" for P :: "nat \<Rightarrow> bool"
    by (auto simp: less_Suc_eq)
  have "\<exists>fs'. map_phase ''j'' ''/d'' echo_map [''/a'', ''/b''] 1 [1, 0] sample_fs = Some fs' \<and>
     (\<forall>m<length [''/a'', ''/b'']. \<forall>r<1. gfiles fs' (reduceName ''/d'' ''j'' m r) =
        Some (bucket 1 (echo_map ([''/a'', ''/b''] ! m) (?c m)) r)) \<and>
     (\<forall>p. (\<forall>m<length [''/a'', ''/b'']. \<forall>r<1. p \<noteq> reduceName ''/d'' ''j'' m r) \<longrightarrow> gfiles fs' p = gfiles sample_fs p)"
    by (rule map_phase_any_order)
      (unfold all, use sample_ready sample_names in \<open>auto simp: sample_fs_def less_Suc_eq\<close>)
  then show ?thesis unfolding all by (auto simp: bucket_def echo_map_def)
qed

end
