(* ===== verification/UrlTop.thy ===== *)
theory UrlTop
  imports MapReduce "HOL-Library.AList" "HOL-Library.Product_Lexorder"
begin

text \<open>
  The example job of \<^verbatim>\<open>tidb/mapreduce/urltop10_example.go\<close>, which finds the ten most frequent URLs in two rounds, and
  \<^verbatim>\<open>TopN\<close> of \<^verbatim>\<open>utils.go\<close>. A Go map is the list of its entries in the order an iteration visits them, which the
  language leaves open; a panic is \<^const>\<open>None\<close>.
\<close>

subsection \<open>TopN\<close>

record url_count =
  uc_url :: string
  uc_cnt :: int

definition uc_less :: "url_count \<Rightarrow> url_count \<Rightarrow> bool" where
  "uc_less a b \<longleftrightarrow> (if uc_cnt a = uc_cnt b then uc_url a < uc_url b else uc_cnt a > uc_cnt b)"

fun insert_by :: "('a \<Rightarrow> 'a \<Rightarrow> bool) \<Rightarrow> 'a \<Rightarrow> 'a list \<Rightarrow> 'a list" where
  "insert_by lt x [] = [x]"
| "insert_by lt x (y # ys) = (if lt y x then y # insert_by lt x ys else x # y # ys)"

definition sort_slice :: "('a \<Rightarrow> 'a \<Rightarrow> bool) \<Rightarrow> 'a list \<Rightarrow> 'a list" where
  "sort_slice lt xs = foldr (insert_by lt) xs []"

fun top_loop :: "nat \<Rightarrow> nat \<Rightarrow> url_count list \<Rightarrow> string list \<Rightarrow> int list \<Rightarrow> string list \<times> int list" where
  "top_loop n i [] urls cnts = (urls, cnts)"
| "top_loop n i (u # us) urls cnts =
     (if i = n then (urls, cnts) else top_loop n (Suc i) us (urls @ [uc_url u]) (cnts @ [uc_cnt u]))"

definition TopN :: "(string \<times> int) list \<Rightarrow> nat \<Rightarrow> string list \<times> int list" where
  "TopN urlCntMap n =
     top_loop n 0 (sort_slice uc_less (map (\<lambda>(k, v). \<lparr>uc_url = k, uc_cnt = v\<rparr>) urlCntMap)) [] []"

subsection \<open>The two rounds\<close>

record round_args =
  MapFunc :: map_f
  ReduceFunc :: "string \<Rightarrow> string list \<Rightarrow> string option"
  NReduce :: nat

fun count_map_loop :: "string list \<Rightarrow> key_value list" where
  "count_map_loop [] = []"
| "count_map_loop (l # ls) =
     (let l = trim_space l in if l = [] then count_map_loop ls else \<lparr>Key = l, Value = ''''\<rparr> # count_map_loop ls)"

definition ExampleURLCountMap :: map_f where
  "ExampleURLCountMap filename contents = count_map_loop (split_on (CHR 0x0A) contents)"

definition ExampleURLCountReduce :: "string \<Rightarrow> string list \<Rightarrow> string option" where
  "ExampleURLCountReduce key values = Some (key @ '' '' @ itoa (int (length values)) @ [CHR 0x0A])"

definition ExampleURLTop10Map :: map_f where
  "ExampleURLTop10Map filename contents = map (\<lambda>l. \<lparr>Key = '''', Value = l\<rparr>) (split_on (CHR 0x0A) contents)"

fun top10_loop :: "string list \<Rightarrow> (string \<times> int) list \<Rightarrow> (string \<times> int) list option" where
  "top10_loop [] cnts = Some cnts"
| "top10_loop (v # vs) cnts =
     (let v = trim_space v
      in if v = [] then top10_loop vs cnts
         else let tmp = split_on (CHR '' '') v
              in if length tmp < 2 then None
                 else case atoi (tmp ! 1) of None \<Rightarrow> None | Some n \<Rightarrow> top10_loop vs (AList.update (tmp ! 0) n cnts))"

fun print_top :: "string list \<Rightarrow> int list \<Rightarrow> string" where
  "print_top (u # us) (c # cs) = u @ '': '' @ itoa c @ [CHR 0x0A] @ print_top us cs"
| "print_top _ _ = []"

definition ExampleURLTop10Reduce :: "((string \<times> int) list \<Rightarrow> (string \<times> int) list) \<Rightarrow> string \<Rightarrow> string list \<Rightarrow> string option" where
  "ExampleURLTop10Reduce ord key values =
     (case top10_loop values [] of
        None \<Rightarrow> None
      | Some cnts \<Rightarrow> (let (us, cs) = TopN (ord cnts) 10 in Some (print_top us cs)))"

definition ExampleURLTop10 :: "((string \<times> int) list \<Rightarrow> (string \<times> int) list) \<Rightarrow> nat \<Rightarrow> round_args list" where
  "ExampleURLTop10 ord nWorkers =
     [\<lparr>MapFunc = ExampleURLCountMap, ReduceFunc = ExampleURLCountReduce, NReduce = nWorkers\<rparr>,
      \<lparr>MapFunc = ExampleURLTop10Map, ReduceFunc = ExampleURLTop10Reduce ord, NReduce = 1\<rparr>]"

subsection \<open>Sorting\<close>

lemma uc_less_key: "uc_less a b \<longleftrightarrow> (- uc_cnt a, uc_url a) < (- uc_cnt b, uc_url b)"
  by (auto simp: uc_less_def less_prod_def)

lemma mset_insert_by: "mset (insert_by lt x ys) = add_mset x (mset ys)"
  by (induction ys) auto

lemma mset_sort_slice: "mset (sort_slice lt xs) = mset xs"
  unfolding sort_slice_def by (induction xs) (auto simp: mset_insert_by)

lemma sort_slice_uc: "sort_slice uc_less xs = sort_key (\<lambda>u. (- uc_cnt u, uc_url u)) xs"
proof -
  let ?k = "\<lambda>u. (- uc_cnt u, uc_url u)"
  have "insert_by uc_less x ys = insort_key ?k x ys" for x ys
    by (induction ys) (auto simp: uc_less_key not_le)
  then have "insert_by uc_less = insort_key ?k" by (intro ext)
  then show ?thesis by (simp add: sort_slice_def sort_key_def)
qed

lemma top_loop_take:
  "top_loop n i us urls cnts = (urls @ map uc_url (take (n - i) us), cnts @ map uc_cnt (take (n - i) us))" if "i \<le> n"
  using that
proof (induction us arbitrary: i urls cnts)
  case (Cons u us)
  then show ?case by (cases "n - i") (auto simp: diff_Suc split: nat.splits)
qed simp

definition entries_of :: "(string \<times> int) list \<Rightarrow> url_count list" where
  "entries_of m = sort_key (\<lambda>u. (- uc_cnt u, uc_url u)) (map (\<lambda>(k, v). \<lparr>uc_url = k, uc_cnt = v\<rparr>) m)"

lemma TopN_sorted: "TopN m n = (map uc_url (take n (entries_of m)), map uc_cnt (take n (entries_of m)))"
  by (simp add: TopN_def top_loop_take sort_slice_uc entries_of_def)

lemma entries_of_perm:
  assumes "distinct (map fst m)" "mset m = mset m'"
  shows "entries_of m = entries_of m'"
proof -
  let ?e = "\<lambda>(k, v). \<lparr>uc_url = k, uc_cnt = v\<rparr>" and ?k = "\<lambda>u. (- uc_cnt u, uc_url u)"
  have "inj_on ?k (set (map ?e m))" using assms(1) by (auto simp: inj_on_def split_beta dest: eq_key_imp_eq_value)
  moreover have "mset (map ?e m) = mset (map ?e m')" using assms(2) by (metis mset_map)
  ultimately show ?thesis unfolding entries_of_def
    by (intro sort_key_inj_key_eq) (simp_all only: mset_sort sorted_sort_key)
qed

lemma mset_alist:
  assumes "distinct (map fst m)" "distinct (map fst m')" "map_of m = map_of m'"
  shows "mset m = mset m'"
proof -
  have "set m = set m'" using assms by (metis (no_types, opaque_lifting) map_of_eq_Some_iff subsetI subset_antisym surj_pair)
  then show ?thesis using assms(1,2) by (simp add: distinct_map set_eq_iff_mset_eq_distinct)
qed

lemma TopN_alist:
  assumes "distinct (map fst m)" "distinct (map fst m')" "map_of m = map_of m'"
  shows "TopN m n = TopN m' n"
  using entries_of_perm[OF assms(1) mset_alist[OF assms]] by (simp add: TopN_sorted)

lemma entries_of_strict:
  assumes "distinct (map fst m)"
  shows "sorted_wrt uc_less (entries_of m)" "distinct (map uc_url (entries_of m))"
    "set (entries_of m) = (\<lambda>(k, v). \<lparr>uc_url = k, uc_cnt = v\<rparr>) ` set m"
proof -
  let ?e = "\<lambda>(k, v). \<lparr>uc_url = k, uc_cnt = v\<rparr>" and ?k = "\<lambda>u. (- uc_cnt u, uc_url u)"
  show s: "set (entries_of m) = ?e ` set m" by (simp add: entries_of_def)
  have "mset (map uc_url (entries_of m)) = mset (map fst m)"
    by (simp add: entries_of_def multiset.map_comp o_def split_beta)
  then show d: "distinct (map uc_url (entries_of m))" using assms by (metis mset_eq_imp_distinct_iff)
  then have "inj_on ?k (set (entries_of m))" by (auto simp: distinct_map inj_on_def)
  then have "distinct (map ?k (entries_of m))" using d by (simp add: distinct_map)
  moreover have "sorted (map ?k (entries_of m))" by (simp add: entries_of_def)
  ultimately have "sorted_wrt (<) (map ?k (entries_of m))" by (simp add: strict_sorted_iff)
  then show "sorted_wrt uc_less (entries_of m)" by (simp add: sorted_wrt_map uc_less_key[abs_def])
qed

subsection \<open>What the functions compute\<close>

text \<open>
  The specification of the functions of the two rounds: the pairs a map function emits over all inputs, the values among them
  for a key, the URLs in a list of files and their counts. No particular reduce phase is assumed.
\<close>

definition perm_order :: "('a list \<Rightarrow> 'a list) \<Rightarrow> bool" where
  "perm_order ord \<longleftrightarrow> (\<forall>xs. mset (ord xs) = mset xs)"

definition emitted :: "map_f \<Rightarrow> (string \<times> string) list \<Rightarrow> key_value list" where
  "emitted f inputs = concat (map (\<lambda>(name, c). f name c) inputs)"

definition values_of :: "key_value list \<Rightarrow> string \<Rightarrow> string list" where
  "values_of kvs k = map Value (filter (\<lambda>kv. Key kv = k) kvs)"

definition url_lines :: "string list \<Rightarrow> string list" where
  "url_lines contents = filter (\<lambda>l. l \<noteq> []) (map trim_space (concat (map (split_on (CHR 0x0A)) contents)))"

definition url_counts :: "string list \<Rightarrow> (string \<times> int) list" where
  "url_counts urls = map (\<lambda>u. (u, int (count_list urls u))) (remdups urls)"

definition top_text :: "(string \<times> int) list \<Rightarrow> string" where
  "top_text m = (let (us, cs) = TopN m 10 in print_top us cs)"

definition count_line :: "string list \<Rightarrow> string \<Rightarrow> string" where
  "count_line urls k = k @ '' '' @ show_nat (count_list urls k)"

lemma count_map_keys: "map Key (count_map_loop ls) = filter (\<lambda>l. l \<noteq> []) (map trim_space ls)"
  by (induction ls) (auto simp: Let_def)

lemma emitted_keys: "map Key (emitted ExampleURLCountMap inputs) = url_lines (map snd inputs)"
  by (induction inputs) (auto simp: emitted_def ExampleURLCountMap_def url_lines_def count_map_keys)

lemma length_values_of: "length (values_of kvs k) = count_list (map Key kvs) k"
  by (induction kvs) (auto simp: values_of_def)

lemma count_reduce_line:
  assumes "mset vals = mset (values_of (emitted ExampleURLCountMap inputs) k)"
  shows "ExampleURLCountReduce k vals = Some (count_line (url_lines (map snd inputs)) k @ [CHR 0x0A])"
  using mset_eq_length[OF assms]
  by (simp add: ExampleURLCountReduce_def length_values_of emitted_keys count_line_def itoa_def)

lemma split_lines: "\<forall>l\<in>set ls. c \<notin> set l \<Longrightarrow> split_on c (concat (map (\<lambda>l. l @ [c]) ls)) = ls @ [[]]"
  by (induction ls) (auto simp: split_on_Cons)

definition all_visible :: "string \<Rightarrow> bool" where
  "all_visible u \<longleftrightarrow> u \<noteq> [] \<and> (\<forall>c\<in>set u. visible c)"

lemma count_line_facts:
  assumes "all_visible k"
  shows "trim_space (count_line urls k) = count_line urls k" "count_line urls k \<noteq> []"
    "split_on (CHR '' '') (count_line urls k) = [k, show_nat (count_list urls k)]" "CHR 0x0A \<notin> set (count_line urls k)"
proof -
  let ?s = "show_nat (count_list urls k)"
  have h: "visible (hd k)" "k \<noteq> []" using assms by (auto simp: all_visible_def)
  have l: "visible (last ?s)" using show_nat_visible[OF last_in_set[OF show_nat_not_Nil]] .
  show "trim_space (count_line urls k) = count_line urls k"
    using h l show_nat_not_Nil by (intro trim_space_visible) (simp add: count_line_def)
  have "CHR '' '' \<notin> set k" "CHR '' '' \<notin> set ?s" using assms show_nat_visible[of "CHR '' ''"] by (auto simp: all_visible_def visible_def)
  then show "split_on (CHR '' '') (count_line urls k) = [k, ?s]"
    using split_on_Cons[of "CHR '' ''" k ?s] by (simp add: count_line_def split_on_plain)
  show "CHR 0x0A \<notin> set (count_line urls k)" using assms show_nat_visible[of "CHR 0x0A"]
    by (auto simp: count_line_def all_visible_def visible_def)
qed (simp add: count_line_def)

lemma top10_loop_lines:
  assumes "\<forall>v\<in>set vs. v = [] \<or> (\<exists>k. all_visible k \<and> v = count_line urls k)" "length urls < 2 ^ 63"
  shows "top10_loop vs m =
     Some (fold (\<lambda>k. AList.update k (int (count_list urls k))) (map (\<lambda>v. hd (split_on (CHR '' '') v)) (filter (\<lambda>v. v \<noteq> []) vs)) m)"
  using assms(1)
proof (induction vs arbitrary: m)
  case (Cons v vs)
  show ?case
  proof (cases "v = []")
    case True
    have "trim_space [] = []" by (rule trim_space_visible) simp
    then show ?thesis using True Cons by (simp add: Let_def)
  next
    case False
    then obtain k where k: "all_visible k" "v = count_line urls k" using Cons.prems by auto
    have "count_list urls k < 2 ^ 63" using assms(2) count_le_length[of urls k] by linarith
    then have "atoi (show_nat (count_list urls k)) = Some (int (count_list urls k))"
      using atoi_itoa[of "int (count_list urls k)"] by (simp add: itoa_def)
    then show ?thesis using Cons k count_line_facts[OF k(1), of urls] by (simp add: Let_def)
  qed
qed simp

lemma fold_update:
  "map_of (fold (\<lambda>k. AList.update k (f k)) ks m) = (\<lambda>k. if k \<in> set ks then Some (f k) else map_of m k)"
  "distinct (map fst m) \<Longrightarrow> distinct (map fst (fold (\<lambda>k. AList.update k (f k)) ks m))"
  by (induction ks arbitrary: m) (auto simp: update_conv' distinct_update fun_eq_iff)

lemma top_text_perm:
  assumes "distinct (map fst m)" "map_of m = map_of (url_counts urls)" "perm_order ord"
  shows "top_text (ord m) = top_text (url_counts urls)"
proof -
  have "distinct (map fst (url_counts urls))" by (simp add: url_counts_def o_def)
  then have "entries_of m = entries_of (url_counts urls)" using entries_of_perm[OF assms(1) mset_alist[OF assms(1)]] assms(2) by simp
  moreover have "mset m = mset (ord m)" using assms(3) by (simp add: perm_order_def)
  then have "entries_of m = entries_of (ord m)" by (rule entries_of_perm[OF assms(1)])
  ultimately show ?thesis by (simp add: top_text_def TopN_sorted)
qed

lemma top10_reduce_lines:
  assumes "\<forall>u\<in>set urls. all_visible u" "length urls < 2 ^ 63" "perm_order ord"
    and vs: "set vs - {[]} = count_line urls ` set urls"
  shows "ExampleURLTop10Reduce ord key vs = Some (top_text (url_counts urls))"
proof -
  define ks where "ks = map (\<lambda>v. hd (split_on (CHR '' '') v)) (filter (\<lambda>v. v \<noteq> []) vs)"
  define m where "m = fold (\<lambda>k. AList.update k (int (count_list urls k))) ks []"
  have "\<forall>v\<in>set vs. v = [] \<or> (\<exists>k. all_visible k \<and> v = count_line urls k)" using assms(1) vs by blast
  then have loop: "top10_loop vs [] = Some m" unfolding m_def ks_def using assms(2) by (rule top10_loop_lines)
  have "set ks = (\<lambda>v. hd (split_on (CHR '' '') v)) ` (set vs - {[]})" by (auto simp: ks_def)
  also have "\<dots> = (\<lambda>u. hd (split_on (CHR '' '') (count_line urls u))) ` set urls" unfolding vs by (simp add: image_image)
  also have "\<dots> = set urls" using assms(1) by (simp add: count_line_facts)
  finally have ks: "set ks = set urls" .
  have "map_of m = map_of (url_counts urls)"
    unfolding m_def fold_update(1) ks url_counts_def map_of_map_restrict by (auto simp: restrict_map_def)
  moreover have "distinct (map fst m)" unfolding m_def by (rule fold_update(2)) simp
  ultimately show ?thesis using top_text_perm[of m urls ord] assms(3) loop
    by (simp add: ExampleURLTop10Reduce_def top_text_def split_beta)
qed

lemma top10_map_lines:
  assumes "\<forall>ks\<in>set kss. \<forall>k\<in>set ks. all_visible k"
  shows "emitted ExampleURLTop10Map (map (\<lambda>ks. (name, concat (map (\<lambda>k. count_line urls k @ [CHR 0x0A]) ks))) kss) =
     map (\<lambda>l. \<lparr>Key = '''', Value = l\<rparr>) (concat (map (\<lambda>ks. map (count_line urls) ks @ [[]]) kss))"
proof -
  have "split_on (CHR 0x0A) (concat (map (\<lambda>k. count_line urls k @ [CHR 0x0A]) ks)) = map (count_line urls) ks @ [[]]"
    if "ks \<in> set kss" for ks
    using split_lines[of "map (count_line urls) ks" "CHR 0x0A"] assms that count_line_facts(4) by (simp add: o_def)
  then show ?thesis
    by (auto simp: emitted_def ExampleURLTop10Map_def map_concat o_def intro!: arg_cong[of _ _ concat])
qed

section \<open>Properties\<close>

text \<open>C31. \<^verbatim>\<open>TopN\<close> returns the \<open>n\<close> largest counts: at most \<open>n\<close> distinct URLs with their counts, in descending order of
  counts and ascending order of URLs within a count, all of them before every URL that is left out. The order in
  which the iteration over the map visits its entries does not matter.\<close>

theorem TopN_largest:
  assumes "distinct (map fst m)" "mset m' = mset m" "TopN m' n = (us, cs)"
  shows "TopN m n = (us, cs) \<and> length us = min n (length m) \<and> length cs = length us \<and> distinct us \<and>
     (\<forall>i<length us. map_of m (us ! i) = Some (cs ! i)) \<and>
     (\<forall>i j. i < j \<longrightarrow> j < length us \<longrightarrow> cs ! i > cs ! j \<or> cs ! i = cs ! j \<and> us ! i < us ! j) \<and>
     (\<forall>u c. map_of m u = Some c \<longrightarrow> u \<notin> set us \<longrightarrow>
        (\<forall>i<length us. cs ! i > c \<or> cs ! i = c \<and> us ! i < u))"
proof -
  let ?e = "entries_of m"
  have eq: "us = map uc_url (take n ?e)" "cs = map uc_cnt (take n ?e)" "TopN m n = (us, cs)"
    using assms(3) entries_of_perm[OF assms(1) assms(2)[symmetric]] by (auto simp: TopN_sorted)
  note st = entries_of_strict[OF assms(1)]
  have len: "length ?e = length m" by (simp add: entries_of_def)
  have get: "map_of m (uc_url u) = Some (uc_cnt u)" if u: "u \<in> set ?e" for u
    using u st(3) assms(1) by auto
  have "distinct us" using distinct_take[OF st(2), of n] by (simp add: eq(1) take_map)
  moreover have "\<forall>i<length us. map_of m (us ! i) = Some (cs ! i)"
    using get by (auto simp: eq intro: nth_mem)
  moreover have "cs ! i > cs ! j \<or> cs ! i = cs ! j \<and> us ! i < us ! j" if "i < j" "j < length us" for i j
  proof -
    have "uc_less (?e ! i) (?e ! j)" using st(1) that len by (auto simp: eq(1) sorted_wrt_iff_nth_less)
    then show ?thesis using that by (auto simp: eq uc_less_def split: if_splits)
  qed
  moreover have "cs ! i > c \<or> cs ! i = c \<and> us ! i < u"
    if "map_of m u = Some c" "u \<notin> set us" "i < length us" for u c i
  proof -
    have "\<lparr>uc_url = u, uc_cnt = c\<rparr> \<in> set ?e" using that(1) st(3) by (force dest: map_of_SomeD)
    then obtain j where j: "j < length ?e" "?e ! j = \<lparr>uc_url = u, uc_cnt = c\<rparr>" by (auto simp: in_set_conv_nth)
    have "n \<le> j"
    proof (rule ccontr)
      assume "\<not> n \<le> j"
      then have "us ! j = u" "j < length us" using j by (simp_all add: eq(1))
      then show False using that(2) nth_mem by metis
    qed
    then have "uc_less (?e ! i) (?e ! j)" using st(1) that(3) j(1) by (auto simp: eq(1) sorted_wrt_iff_nth_less)
    then show ?thesis using that(3) j(2) by (auto simp: eq uc_less_def split: if_splits)
  qed
  ultimately show ?thesis using eq len by auto
qed

theorem TopN_largest_witness:
  "TopN [(''b'', 2), (''a'', 2), (''c'', 7)] 2 = ([''c'', ''a''], [7, 2]) \<and>
   ([7, 2 :: int] ! 1 > 2 \<or> [7, 2 :: int] ! 1 = 2 \<and> [''c'', ''a''] ! 1 < ''b'')"
proof -
  have t: "TopN [(''b'', 2), (''a'', 2), (''c'', 7)] 2 = ([''c'', ''a''], [7, 2])" by code_simp
  have "\<forall>i<length [''c'', ''a'']. [7, 2 :: int] ! i > 2 \<or> [7, 2 :: int] ! i = 2 \<and> [''c'', ''a''] ! i < ''b''"
    using TopN_largest[OF _ refl t] by simp
  then have "[7, 2 :: int] ! 1 > 2 \<or> [7, 2 :: int] ! 1 = 2 \<and> [''c'', ''a''] ! 1 < ''b''" by (elim allE[of _ 1]) simp
  with t show ?thesis by blast
qed

end
