(* ===== verification/CaseGen.thy ===== *)
theory CaseGen
  imports UrlTop
begin

text \<open>
  The generators of test cases in \<^verbatim>\<open>tidb/mapreduce/casegen.go\<close> that draw URLs uniformly or write one URL per file. The
  pseudo-random numbers are a parameter: \<open>rnd i\<close> is the number the \<open>i\<close>th call of \<^verbatim>\<open>math/rand\<close> returns, and the index of the
  next call is threaded through. The generator that draws by floating-point percentages is not modelled.
\<close>

subsection \<open>Sizes\<close>

definition KB :: nat where "KB = 2 ^ 10"
definition MB :: nat where "MB = 2 ^ 20"
definition GB :: nat where "GB = 2 ^ 30"

definition size_string :: "nat \<Rightarrow> string" where
  "size_string d =
     (if d < KB then show_nat d @ ''byte''
      else if d < MB then show_nat (d div KB) @ ''KB''
      else if d < GB then show_nat (d div MB) @ ''MB''
      else show_nat (d div GB) @ ''GB'')"

subsection \<open>Generators\<close>

record test_case =
  MapFiles :: "string list"
  ResultFile :: string

definition urlPrefixes :: "string list" where
  "urlPrefixes = [''github.com/pingcap/tidb/issues'', ''github.com/pingcap/tidb/pull'', ''github.com/pingcap/tidb'']"

definition wrapLikeURL :: "(nat \<Rightarrow> nat) \<Rightarrow> nat \<Rightarrow> string \<Rightarrow> string" where
  "wrapLikeURL rnd s suffix = path_join (urlPrefixes ! (rnd s mod length urlPrefixes)) suffix"

fun random_loop :: "(nat \<Rightarrow> nat) \<Rightarrow> nat \<Rightarrow> nat \<Rightarrow> nat \<Rightarrow> nat \<Rightarrow> string list \<Rightarrow> string list \<times> nat \<times> nat" where
  "random_loop rnd 0 i s len urls = (urls, len, s)"
| "random_loop rnd (Suc k) i s len urls =
     (let url = wrapLikeURL rnd s (show_nat i) in random_loop rnd k (Suc i) (Suc s) (len + length url) (urls @ [url]))"

definition randomNURL :: "(nat \<Rightarrow> nat) \<Rightarrow> nat \<Rightarrow> nat \<Rightarrow> ((string list \<times> nat) \<times> nat) option" where
  "randomNURL rnd n s =
     (let (urls, len, s') = random_loop rnd n 0 s 0 []
      in if urls = [] then None else Some ((urls, len div length urls), s'))"

definition inc_count :: "string \<Rightarrow> (string \<times> int) list \<Rightarrow> (string \<times> int) list" where
  "inc_count u m = AList.update u (case map_of m u of None \<Rightarrow> 1 | Some c \<Rightarrow> c + 1) m"

definition input_path :: "string \<Rightarrow> nat \<Rightarrow> string" where
  "input_path dir i = path_join dir (''inputMapFile'' @ show_nat i)"

definition genResult :: "string \<Rightarrow> (string \<times> int) list \<Rightarrow> gofs \<Rightarrow> gofs option" where
  "genResult rpath urlCount fs =
     (let (us, cs) = TopN urlCount 10
      in case CreateFileAndBuf rpath fs of
           None \<Rightarrow> None
         | Some (f, fs1) \<Rightarrow> Some (SafeClose (WriteToBuf f [print_top us cs]) fs1))"

definition existing_case :: "string \<Rightarrow> nat \<Rightarrow> test_case" where
  "existing_case dir nMapFiles =
     \<lparr>MapFiles = map (input_path dir) [0..<nMapFiles], ResultFile = path_join dir ''result''\<rparr>"

text \<open>The records of one file, drawn from all URLs.\<close>

fun uniform_records ::
  "(nat \<Rightarrow> nat) \<Rightarrow> string list \<Rightarrow> nat \<Rightarrow> nat \<Rightarrow> (string \<times> int) list \<Rightarrow> gfile \<Rightarrow> nat \<times> (string \<times> int) list \<times> gfile" where
  "uniform_records rnd urls 0 s m f = (s, m, f)"
| "uniform_records rnd urls (Suc k) s m f =
     (let str = urls ! (rnd s mod length urls)
      in uniform_records rnd urls k (Suc s) (inc_count str m) (WriteToBuf f [str, [CHR 0x0A]]))"

fun uniform_files ::
  "(nat \<Rightarrow> nat) \<Rightarrow> string list \<Rightarrow> string \<Rightarrow> nat \<Rightarrow> nat list \<Rightarrow> nat \<Rightarrow> (string \<times> int) list \<Rightarrow> gofs \<Rightarrow> ((string \<times> int) list \<times> gofs) option" where
  "uniform_files rnd urls dir each [] s m fs = Some (m, fs)"
| "uniform_files rnd urls dir each (i # is) s m fs =
     (case CreateFileAndBuf (input_path dir i) fs of
        None \<Rightarrow> None
      | Some (f, fs1) \<Rightarrow>
          (case uniform_records rnd urls each s m f of
             (s', m', f') \<Rightarrow> uniform_files rnd urls dir each is s' m' (SafeClose f' fs1)))"

definition genUniformCase ::
  "(nat \<Rightarrow> nat) \<Rightarrow> nat \<Rightarrow> string \<Rightarrow> nat \<Rightarrow> nat \<Rightarrow> gofs \<Rightarrow> (test_case \<times> gofs) option" where
  "genUniformCase rnd cardinality dir totalDataSize nMapFiles fs =
     (if FileOrDirExist dir fs then Some (existing_case dir nMapFiles, fs)
      else case randomNURL rnd cardinality 0 of
             None \<Rightarrow> None
           | Some ((urls, avgLen), s) \<Rightarrow>
               (if nMapFiles = 0 \<or> avgLen = 0 then None
                else case uniform_files rnd urls dir (totalDataSize div nMapFiles div avgLen) [0..<nMapFiles] s [] fs of
                       None \<Rightarrow> None
                     | Some (m, fs1) \<Rightarrow>
                         (case genResult (path_join dir ''result'') m fs1 of
                            None \<Rightarrow> None
                          | Some fs2 \<Rightarrow> Some (existing_case dir nMapFiles, fs2))))"

text \<open>One URL per file.\<close>

fun single_records :: "string \<Rightarrow> nat \<Rightarrow> (string \<times> int) list \<Rightarrow> gfile \<Rightarrow> (string \<times> int) list \<times> gfile" where
  "single_records str 0 m f = (m, f)"
| "single_records str (Suc k) m f = single_records str k (inc_count str m) (WriteToBuf f [str, [CHR 0x0A]])"

fun single_files ::
  "string list \<Rightarrow> string \<Rightarrow> nat \<Rightarrow> nat list \<Rightarrow> (string \<times> int) list \<Rightarrow> gofs \<Rightarrow> ((string \<times> int) list \<times> gofs) option" where
  "single_files urls dir each [] m fs = Some (m, fs)"
| "single_files urls dir each (i # is) m fs =
     (case CreateFileAndBuf (input_path dir i) fs of
        None \<Rightarrow> None
      | Some (f, fs1) \<Rightarrow>
          (case single_records (urls ! i) each m f of
             (m', f') \<Rightarrow> single_files urls dir each is m' (SafeClose f' fs1)))"

definition CaseSingleURLPerFile ::
  "(nat \<Rightarrow> nat) \<Rightarrow> string \<Rightarrow> nat \<Rightarrow> nat \<Rightarrow> gofs \<Rightarrow> (test_case \<times> gofs) option" where
  "CaseSingleURLPerFile rnd dir totalDataSize nMapFiles fs =
     (if FileOrDirExist dir fs then Some (existing_case dir nMapFiles, fs)
      else case randomNURL rnd nMapFiles 0 of
             None \<Rightarrow> None
           | Some ((urls, avgLen), s) \<Rightarrow>
               (if nMapFiles = 0 \<or> avgLen = 0 then None
                else case single_files urls dir (totalDataSize div nMapFiles div avgLen) [0..<nMapFiles] [] fs of
                       None \<Rightarrow> None
                     | Some (m, fs1) \<Rightarrow>
                         (case genResult (path_join dir ''result'') m fs1 of
                            None \<Rightarrow> None
                          | Some fs2 \<Rightarrow> Some (existing_case dir nMapFiles, fs2))))"

subsection \<open>The URLs\<close>

lemma urlPrefixes_join: "d \<in> set urlPrefixes \<Longrightarrow> file_name e \<Longrightarrow> path_join d e = d @ ''/'' @ e"
proof -
  assume d: "d \<in> set urlPrefixes" and e: "file_name e"
  from path_join_name[OF e, of d] obtain p where p: "path_join d e = p @ e" "\<forall>e'. file_name e' \<longrightarrow> path_join d e' = p @ e'" by blast
  have "\<forall>d\<in>set urlPrefixes. path_join d ''x'' = d @ ''/x''" by code_simp
  moreover have "file_name ''x''" by (simp add: file_name_def)
  ultimately have "p @ ''x'' = d @ ''/x''" using p(2) d by auto
  then have "p = d @ ''/''" using append1_eq_conv[of p "CHR ''x''" "d @ ''/''"] by simp
  then show ?thesis using p(1) by simp
qed

lemma urlPrefixes_visible: "d \<in> set urlPrefixes \<Longrightarrow> \<forall>c\<in>set d. visible c"
  by (auto simp: urlPrefixes_def visible_def)

lemma show_file_name: "file_name (show_nat i)"
proof -
  have "c \<noteq> CHR ''.''" if "c \<in> set (show_nat i)" for c using show_nat_digits[OF that] by auto
  then show ?thesis using show_nat_not_Nil[of i] no_slash_show[of i] unfolding file_name_def
    by (metis list.set_intros(1))
qed

lemma wrapLikeURL_visible: "all_visible (wrapLikeURL rnd s (show_nat i))"
proof -
  have "rnd s mod length urlPrefixes < length urlPrefixes" by (simp add: urlPrefixes_def)
  then have "urlPrefixes ! (rnd s mod length urlPrefixes) \<in> set urlPrefixes" by (rule nth_mem)
  from urlPrefixes_join[OF this show_file_name] urlPrefixes_visible[OF this] show_nat_visible[of _ i]
  show ?thesis by (auto simp: wrapLikeURL_def all_visible_def visible_def)
qed

lemma random_loop_urls:
  assumes "random_loop rnd k i s len urls = (urls', len', s')" "\<forall>u\<in>set urls. all_visible u" "length urls \<le> len"
  shows "length urls' = length urls + k \<and> (\<forall>u\<in>set urls'. all_visible u) \<and> length urls' \<le> len'"
  using assms
proof (induction rnd k i s len urls rule: random_loop.induct)
  case (2 rnd k i s len urls)
  have "all_visible (wrapLikeURL rnd s (show_nat i))" by (rule wrapLikeURL_visible)
  moreover have "length (wrapLikeURL rnd s (show_nat i)) > 0" using calculation by (auto simp: all_visible_def)
  then have "Suc (length urls) \<le> len + length (wrapLikeURL rnd s (show_nat i))" using "2.prems"(3) by linarith
  ultimately show ?case using "2.IH"[OF refl] "2.prems" by (auto simp: Let_def)
qed auto

lemma randomNURL_urls:
  assumes "0 < n"
  shows "\<exists>urls avg s'. randomNURL rnd n s = Some ((urls, avg), s') \<and> length urls = n \<and> (\<forall>u\<in>set urls. all_visible u) \<and> 0 < avg"
proof -
  obtain urls len s' where r: "random_loop rnd n 0 s 0 [] = (urls, len, s')" by (cases "random_loop rnd n 0 s 0 []") auto
  from random_loop_urls[OF this] have u: "length urls = n" "\<forall>u\<in>set urls. all_visible u" "length urls \<le> len" by auto
  then have "0 < len div length urls" using assms by (simp add: div_greater_zero_iff)
  then show ?thesis using r u assms by (auto simp: randomNURL_def)
qed

subsection \<open>Counting\<close>

lemma inc_count_map: "map_of (inc_count u m) = (map_of m)(u \<mapsto> (case map_of m u of None \<Rightarrow> 1 | Some c \<Rightarrow> c + 1))"
  by (simp add: inc_count_def update_conv')

lemma counts_fold:
  "distinct (map fst (fold inc_count strs []))"
  "map_of (fold inc_count strs []) k = (if k \<in> set strs then Some (int (count_list strs k)) else None)"
proof (induction strs rule: rev_induct)
  case (snoc u strs)
  {
    case 1
    then show ?case using snoc by (simp add: inc_count_def distinct_update)
  next
    case 2
    then show ?case using snoc by (auto simp: inc_count_map)
  }
qed simp_all

lemma top_text_counts: "top_text (fold inc_count strs []) = top_text (url_counts strs)"
proof -
  have "map_of (fold inc_count strs []) = map_of (url_counts strs)"
    by (auto simp: counts_fold(2) url_counts_def map_of_map_restrict restrict_map_def fun_eq_iff)
  moreover have "distinct (map fst (url_counts strs))" by (simp add: url_counts_def o_def)
  ultimately show ?thesis using TopN_alist[OF counts_fold(1)] by (simp add: top_text_def)
qed

definition lines_text :: "string list \<Rightarrow> string" where
  "lines_text us = concat (map (\<lambda>u. u @ [CHR 0x0A]) us)"

lemma lines_text_urls:
  assumes "\<forall>us\<in>set uss. \<forall>u\<in>set us. all_visible u"
  shows "url_lines (map lines_text uss) = concat uss"
proof -
  have "trim_space [] = []" by (rule trim_space_visible) simp
  moreover have "trim_space u = u \<and> u \<noteq> [] \<and> CHR 0x0A \<notin> set u" if "all_visible u" for u
    using that by (auto simp: all_visible_def visible_def intro!: trim_space_visible)
  moreover have "split_on (CHR 0x0A) (lines_text us) = us @ [[]]" if "us \<in> set uss" for us
    unfolding lines_text_def using assms that calculation(2) by (intro split_lines) auto
  ultimately show ?thesis using assms
    by (induction uss) (auto simp: url_lines_def map_idI)
qed

subsection \<open>Files\<close>

lemma uniform_records_strs:
  assumes "urls \<noteq> []"
  shows "\<exists>strs. length strs = k \<and> set strs \<subseteq> set urls \<and>
     uniform_records rnd urls k s m f = (s + k, fold inc_count strs m, f\<lparr>gf_buf := gf_buf f @ lines_text strs\<rparr>)"
proof (induction k arbitrary: s m f)
  case (Suc k)
  let ?u = "urls ! (rnd s mod length urls)"
  from Suc.IH[of "Suc s" "inc_count ?u m" "WriteToBuf f [?u, [CHR 0x0A]]"] obtain strs where
    "length strs = k" "set strs \<subseteq> set urls"
    "uniform_records rnd urls k (Suc s) (inc_count ?u m) (WriteToBuf f [?u, [CHR 0x0A]]) =
       (Suc s + k, fold inc_count strs (inc_count ?u m), f\<lparr>gf_buf := (gf_buf f @ ?u @ [CHR 0x0A]) @ lines_text strs\<rparr>)"
    by (auto simp: WriteToBuf_def)
  then show ?case using assms by (intro exI[of _ "?u # strs"]) (simp add: lines_text_def Let_def)
qed (simp add: lines_text_def)

lemma single_records_strs:
  "single_records u k m f = (fold inc_count (replicate k u) m, f\<lparr>gf_buf := gf_buf f @ lines_text (replicate k u)\<rparr>)"
  by (induction k arbitrary: m f) (simp_all add: lines_text_def WriteToBuf_def)

lemma write_file:
  assumes "dir_ready fs p"
  shows "\<exists>fs1. CreateFileAndBuf p fs = Some (\<lparr>gf_path = p, gf_buf = []\<rparr>, fs1) \<and>
     SafeClose \<lparr>gf_path = p, gf_buf = t\<rparr> fs1 = fs\<lparr>gfiles := (gfiles fs)(p \<mapsto> t)\<rparr>"
  using create_ready[OF assms] by (simp add: SafeClose_def)

lemma mkdir_all_idem: "mkdir_all d (mkdir_all d fs) = mkdir_all d fs"
  by (auto simp: mkdir_all_def filter_empty_conv)

lemma create_mkdir: "CreateFileAndBuf p (mkdir_all (path_dir p) fs) = CreateFileAndBuf p fs"
  by (simp add: CreateFileAndBuf_def mkdir_all_idem)

text \<open>Files \<open>ps\<close> hold the lines \<open>uss\<close>, everything else is as before.\<close>

definition wrote :: "gofs \<Rightarrow> string list \<Rightarrow> string list list \<Rightarrow> gofs \<Rightarrow> bool" where
  "wrote fs ps uss fs' \<longleftrightarrow> length uss = length ps \<and> gdirs fs' = gdirs fs \<and>
     (\<forall>i<length ps. gfiles fs' (ps ! i) = Some (lines_text (uss ! i))) \<and> (\<forall>p. p \<notin> set ps \<longrightarrow> gfiles fs' p = gfiles fs p)"

lemma wrote_Cons:
  assumes "wrote (fs\<lparr>gfiles := (gfiles fs)(p \<mapsto> lines_text us)\<rparr>) ps uss fs'" "p \<notin> set ps"
  shows "wrote fs (p # ps) (us # uss) fs'"
  using assms by (auto simp: wrote_def nth_Cons split: nat.splits)

lemma uniform_files_wrote:
  assumes "urls \<noteq> []" "distinct (map (input_path dir) is)" "\<forall>i\<in>set is. dir_ready fs (input_path dir i)"
  shows "\<exists>uss fs'. uniform_files rnd urls dir each is s m fs = Some (fold inc_count (concat uss) m, fs') \<and>
     wrote fs (map (input_path dir) is) uss fs' \<and> (\<forall>us\<in>set uss. length us = each \<and> set us \<subseteq> set urls)"
  using assms(2,3)
proof (induction "is" arbitrary: s m fs)
  case (Cons i "is")
  let ?f = "\<lparr>gf_path = input_path dir i, gf_buf = []\<rparr>"
  from uniform_records_strs[OF assms(1), of each rnd s m ?f] obtain us where
    us: "length us = each" "set us \<subseteq> set urls"
      "uniform_records rnd urls each s m ?f = (s + each, fold inc_count us m, \<lparr>gf_path = input_path dir i, gf_buf = lines_text us\<rparr>)"
    by auto
  let ?fs = "fs\<lparr>gfiles := (gfiles fs)(input_path dir i \<mapsto> lines_text us)\<rparr>"
  have "dir_ready fs (input_path dir i)" using Cons.prems by simp
  from write_file[OF this, of "lines_text us"] obtain fs1 where
    fs1: "CreateFileAndBuf (input_path dir i) fs = Some (?f, fs1)"
      "SafeClose \<lparr>gf_path = input_path dir i, gf_buf = lines_text us\<rparr> fs1 = ?fs" by blast
  have "\<forall>j\<in>set is. dir_ready ?fs (input_path dir j)" "distinct (map (input_path dir) is)"
    using Cons.prems by (simp_all add: dir_ready_def)
  from Cons.IH[OF this(2,1), of "s + each" "fold inc_count us m"] obtain uss fs' where
    "uniform_files rnd urls dir each is (s + each) (fold inc_count us m) ?fs = Some (fold inc_count (concat uss) (fold inc_count us m), fs')"
    "wrote ?fs (map (input_path dir) is) uss fs'" "\<forall>us\<in>set uss. length us = each \<and> set us \<subseteq> set urls" by blast
  then show ?case using us fs1 wrote_Cons[of fs "input_path dir i" us "map (input_path dir) is" uss fs'] Cons.prems(1)
    by (intro exI[of _ "us # uss"] exI[of _ fs']) simp
qed (simp add: wrote_def exI[of _ "[]"])

lemma single_files_wrote:
  assumes "distinct (map (input_path dir) is)" "\<forall>i\<in>set is. dir_ready fs (input_path dir i)" "\<forall>i\<in>set is. i < length urls"
  shows "\<exists>uss fs'. single_files urls dir each is m fs = Some (fold inc_count (concat uss) m, fs') \<and>
     wrote fs (map (input_path dir) is) uss fs' \<and> (\<forall>us\<in>set uss. length us = each \<and> set us \<subseteq> set urls)"
  using assms
proof (induction "is" arbitrary: m fs)
  case (Cons i "is")
  let ?f = "\<lparr>gf_path = input_path dir i, gf_buf = []\<rparr>" and ?us = "replicate each (urls ! i)"
  let ?fs = "fs\<lparr>gfiles := (gfiles fs)(input_path dir i \<mapsto> lines_text ?us)\<rparr>"
  have "dir_ready fs (input_path dir i)" using Cons.prems by simp
  from write_file[OF this, of "lines_text ?us"] obtain fs1 where
    fs1: "CreateFileAndBuf (input_path dir i) fs = Some (?f, fs1)"
      "SafeClose \<lparr>gf_path = input_path dir i, gf_buf = lines_text ?us\<rparr> fs1 = ?fs" by blast
  have "\<forall>j\<in>set is. dir_ready ?fs (input_path dir j)" "distinct (map (input_path dir) is)" "\<forall>i\<in>set is. i < length urls"
    using Cons.prems by (simp_all add: dir_ready_def)
  from Cons.IH[OF this(2,1,3), of "fold inc_count ?us m"] obtain uss fs' where
    "single_files urls dir each is (fold inc_count ?us m) ?fs = Some (fold inc_count (concat uss) (fold inc_count ?us m), fs')"
    "wrote ?fs (map (input_path dir) is) uss fs'" "\<forall>us\<in>set uss. length us = each \<and> set us \<subseteq> set urls" by blast
  then show ?case using fs1 wrote_Cons[of fs "input_path dir i" ?us "map (input_path dir) is" uss fs'] Cons.prems(1,3)
    by (intro exI[of _ "?us # uss"] exI[of _ fs']) (auto simp: single_records_strs set_replicate_conv_if)
qed (simp add: wrote_def exI[of _ "[]"])

lemma input_path_inj: "input_path dir i = input_path dir j \<longleftrightarrow> i = j"
  unfolding input_path_def by (subst path_join_inj) (auto simp: file_name_def)

lemma input_path_result: "input_path dir i \<noteq> path_join dir ''result''"
  unfolding input_path_def by (subst path_join_inj) (auto simp: file_name_def)

subsection \<open>Generated cases\<close>

definition case_ready :: "string \<Rightarrow> nat \<Rightarrow> gofs \<Rightarrow> bool" where
  "case_ready dir n fs \<longleftrightarrow> \<not> FileOrDirExist dir fs \<and>
     (let fs1 = mkdir_all (path_dir (input_path dir 0)) fs
      in (\<forall>i<n. dir_ready fs1 (input_path dir i)) \<and> dir_ready fs1 (path_join dir ''result''))"

definition consistent_case :: "test_case \<Rightarrow> nat \<Rightarrow> gofs \<Rightarrow> bool" where
  "consistent_case c tot fs \<longleftrightarrow> (\<exists>uss. length uss = length (MapFiles c) \<and> length (concat uss) \<le> tot \<and>
     (\<forall>us\<in>set uss. \<forall>u\<in>set us. all_visible u) \<and>
     (\<forall>i<length uss. gfiles fs (MapFiles c ! i) = Some (lines_text (uss ! i))) \<and>
     gfiles fs (ResultFile c) = Some (top_text (url_counts (concat uss))))"

lemma genResult_writes:
  assumes "dir_ready fs p"
  shows "genResult p m fs = Some (fs\<lparr>gfiles := (gfiles fs)(p \<mapsto> top_text m)\<rparr>)"
  using write_file[OF assms, of "top_text m"] by (auto simp: genResult_def top_text_def WriteToBuf_def split_beta)

lemma concat_length: "\<forall>us\<in>set uss. length us = k \<Longrightarrow> length (concat uss) = length uss * k"
  by (induction uss) auto

lemma wrote_case:
  assumes r: "dir_ready fs (path_join dir ''result'')" and w: "wrote fs (map (input_path dir) [0..<n]) uss fs1"
    and u: "\<forall>us\<in>set uss. length us = tot div n div avg \<and> set us \<subseteq> set urls" "\<forall>u\<in>set urls. all_visible u"
  shows "\<exists>fs2. genResult (path_join dir ''result'') (fold inc_count (concat uss) []) fs1 = Some fs2 \<and>
     consistent_case (existing_case dir n) tot fs2"
proof -
  let ?t = "top_text (fold inc_count (concat uss) [])"
  let ?fs2 = "fs1\<lparr>gfiles := (gfiles fs1)(path_join dir ''result'' \<mapsto> ?t)\<rparr>"
  have "dir_ready fs1 (path_join dir ''result'')" using r w by (simp add: wrote_def dir_ready_def)
  note g = genResult_writes[OF this, of "fold inc_count (concat uss) []"]
  have len: "length uss = n" using w by (simp add: wrote_def)
  have "n * (tot div n div avg) \<le> n * (tot div n)" by (simp add: div_le_dividend)
  also have "\<dots> \<le> tot" by simp
  finally have "length (concat uss) \<le> tot" using concat_length[of uss "tot div n div avg"] u(1) len by simp
  moreover have "gfiles ?fs2 (input_path dir i) = Some (lines_text (uss ! i))" if "i < n" for i
    using w that by (simp add: wrote_def input_path_result)
  ultimately have "consistent_case (existing_case dir n) tot ?fs2"
    unfolding consistent_case_def using u len top_text_counts
    by (intro exI[of _ uss]) (auto simp: existing_case_def)
  then show ?thesis using g by blast
qed

lemma uniform_files_mkdir:
  "0 < n \<Longrightarrow> uniform_files rnd urls dir each [0..<n] s m (mkdir_all (path_dir (input_path dir 0)) fs) =
     uniform_files rnd urls dir each [0..<n] s m fs"
  by (simp add: upt_conv_Cons create_mkdir)

lemma single_files_mkdir:
  "0 < n \<Longrightarrow> single_files urls dir each [0..<n] m (mkdir_all (path_dir (input_path dir 0)) fs) =
     single_files urls dir each [0..<n] m fs"
  by (simp add: upt_conv_Cons create_mkdir)

lemma case_readyD:
  assumes "case_ready dir n fs"
  obtains fs1 where "fs1 = mkdir_all (path_dir (input_path dir 0)) fs" "\<forall>i\<in>set [0..<n]. dir_ready fs1 (input_path dir i)"
    "dir_ready fs1 (path_join dir ''result'')" "distinct (map (input_path dir) [0..<n])" "\<not> FileOrDirExist dir fs"
  using assms by (auto simp: case_ready_def Let_def distinct_map inj_on_def input_path_inj)

lemma genUniformCase_consistent:
  assumes "0 < k" "0 < n" "case_ready dir n fs"
  shows "\<exists>c fs'. genUniformCase rnd k dir tot n fs = Some (c, fs') \<and> c = existing_case dir n \<and> consistent_case c tot fs'"
proof -
  obtain fs1 where f: "fs1 = mkdir_all (path_dir (input_path dir 0)) fs" "\<forall>i\<in>set [0..<n]. dir_ready fs1 (input_path dir i)"
    "dir_ready fs1 (path_join dir ''result'')" "distinct (map (input_path dir) [0..<n])" "\<not> FileOrDirExist dir fs"
    by (rule case_readyD[OF assms(3)])
  obtain urls avg s where u: "randomNURL rnd k 0 = Some ((urls, avg), s)" "length urls = k" "\<forall>u\<in>set urls. all_visible u" "0 < avg"
    using randomNURL_urls[OF assms(1), of rnd 0] by blast
  have "urls \<noteq> []" using u(2) assms(1) by auto
  from uniform_files_wrote[OF this f(4,2), of rnd "tot div n div avg" s "[]"] obtain uss fs2 where
    w: "uniform_files rnd urls dir (tot div n div avg) [0..<n] s [] fs1 = Some (fold inc_count (concat uss) [], fs2)"
      "wrote fs1 (map (input_path dir) [0..<n]) uss fs2" "\<forall>us\<in>set uss. length us = tot div n div avg \<and> set us \<subseteq> set urls" by blast
  from wrote_case[OF f(3) w(2,3) u(3)] obtain fs3 where
    "genResult (path_join dir ''result'') (fold inc_count (concat uss) []) fs2 = Some fs3" "consistent_case (existing_case dir n) tot fs3" by blast
  then show ?thesis using f(5) u(1,4) w(1) assms(2) uniform_files_mkdir[OF assms(2)] by (auto simp: genUniformCase_def f(1))
qed

lemma single_case_consistent:
  assumes "0 < n" "case_ready dir n fs"
  shows "\<exists>c fs'. CaseSingleURLPerFile rnd dir tot n fs = Some (c, fs') \<and> c = existing_case dir n \<and> consistent_case c tot fs'"
proof -
  obtain fs1 where f: "fs1 = mkdir_all (path_dir (input_path dir 0)) fs" "\<forall>i\<in>set [0..<n]. dir_ready fs1 (input_path dir i)"
    "dir_ready fs1 (path_join dir ''result'')" "distinct (map (input_path dir) [0..<n])" "\<not> FileOrDirExist dir fs"
    by (rule case_readyD[OF assms(2)])
  obtain urls avg s where u: "randomNURL rnd n 0 = Some ((urls, avg), s)" "length urls = n" "\<forall>u\<in>set urls. all_visible u" "0 < avg"
    using randomNURL_urls[OF assms(1), of rnd 0] by blast
  have "\<forall>i\<in>set [0..<n]. i < length urls" using u(2) by simp
  from single_files_wrote[OF f(4,2) this, of "tot div n div avg" "[]"] obtain uss fs2 where
    w: "single_files urls dir (tot div n div avg) [0..<n] [] fs1 = Some (fold inc_count (concat uss) [], fs2)"
      "wrote fs1 (map (input_path dir) [0..<n]) uss fs2" "\<forall>us\<in>set uss. length us = tot div n div avg \<and> set us \<subseteq> set urls" by blast
  from wrote_case[OF f(3) w(2,3) u(3)] obtain fs3 where
    "genResult (path_join dir ''result'') (fold inc_count (concat uss) []) fs2 = Some fs3" "consistent_case (existing_case dir n) tot fs3" by blast
  then show ?thesis using f(5) u(1,4) w(1) assms(1) single_files_mkdir[OF assms(1)]
    by (auto simp: CaseSingleURLPerFile_def f(1))
qed

lemma consistent_case_urls:
  assumes "consistent_case c tot fs" "urls = url_lines (map (\<lambda>p. the (gfiles fs p)) (MapFiles c))"
  shows "\<forall>p\<in>set (MapFiles c). gfiles fs p \<noteq> None" "\<forall>u\<in>set urls. all_visible u" "length urls \<le> tot"
    "gfiles fs (ResultFile c) = Some (top_text (url_counts urls))"
proof -
  obtain uss where u: "length uss = length (MapFiles c)" "length (concat uss) \<le> tot"
     "\<forall>us\<in>set uss. \<forall>u\<in>set us. all_visible u" "\<forall>i<length uss. gfiles fs (MapFiles c ! i) = Some (lines_text (uss ! i))"
     "gfiles fs (ResultFile c) = Some (top_text (url_counts (concat uss)))" using assms(1) by (auto simp: consistent_case_def)
  have "map (\<lambda>p. the (gfiles fs p)) (MapFiles c) = map lines_text uss" using u(1,4) by (intro nth_equalityI) auto
  then have "urls = concat uss" using lines_text_urls[OF u(3)] assms(2) by simp
  then show "\<forall>u\<in>set urls. all_visible u" "length urls \<le> tot" "gfiles fs (ResultFile c) = Some (top_text (url_counts urls))"
    using u(2,3,5) by auto
  show "\<forall>p\<in>set (MapFiles c). gfiles fs p \<noteq> None" using u(1,4) by (metis in_set_conv_nth option.distinct(1))
qed

lemma count_lines_perm:
  assumes "\<forall>u\<in>set urls. all_visible u" "mset vs = mset (map (count_line urls) (remdups urls))"
  shows "set vs - {[]} = count_line urls ` set urls"
proof -
  have "set vs = count_line urls ` set urls" using arg_cong[OF assms(2), of set_mset] by simp
  then show ?thesis using assms(1) count_line_facts(2) by force
qed

section \<open>Properties\<close>

text \<open>C22. The functions of the two rounds compute the ten most frequent URLs. Let the inputs' lines be URLs without white
  space. The keys that the map function of the first round emits are the URLs. Let its reduce function be called for a URL with
  the values emitted for it, in any order, and let the texts it returns be distributed over any number of files in
  any order. Then the map function of the second round, which has one reducer, emits a single key, and the reduce function, called with the
  values emitted for it in any order, returns the printed top ten of the counts of all lines of all inputs, for every
  iteration order of its map of counts.\<close>

theorem url_functions_top10:
  assumes "ExampleURLTop10 ord w = [a, b]" "perm_order ord" "urls = url_lines (map snd inputs)"
    and "\<forall>u\<in>set urls. all_visible u" "length urls < 2 ^ 63"
    and "\<forall>k. mset (vals k) = mset (values_of (emitted (MapFunc a) inputs) k) \<and> ReduceFunc a k (vals k) = Some (out k)"
    and "set (concat kss) = set urls" "outs = map (\<lambda>ks. (name, concat (map out ks))) kss"
    and "mset vs = mset (values_of (emitted (MapFunc b) outs) '''')"
  shows "map Key (emitted (MapFunc a) inputs) = urls \<and> (\<forall>kv\<in>set (emitted (MapFunc b) outs). Key kv = '''') \<and>
     NReduce b = 1 \<and> ReduceFunc b '''' vs = Some (top_text (url_counts urls))"
proof -
  have ab: "MapFunc a = ExampleURLCountMap" "ReduceFunc a = ExampleURLCountReduce" "MapFunc b = ExampleURLTop10Map"
    "ReduceFunc b = ExampleURLTop10Reduce ord" "NReduce b = 1" using assms(1) by (auto simp: ExampleURLTop10_def)
  have "out k = count_line urls k @ [CHR 0x0A]" for k using assms(6) count_reduce_line[of "vals k" inputs k] unfolding ab assms(3) by simp
  then have "out = (\<lambda>k. count_line urls k @ [CHR 0x0A])" by (intro ext)
  moreover have "\<forall>ks\<in>set kss. \<forall>k\<in>set ks. all_visible k" using assms(4,7) by auto
  ultimately have e: "emitted ExampleURLTop10Map outs =
      map (\<lambda>l. \<lparr>Key = '''', Value = l\<rparr>) (concat (map (\<lambda>ks. map (count_line urls) ks @ [[]]) kss))"
    unfolding assms(8) by (simp only: top10_map_lines)
  have "mset vs = mset (concat (map (\<lambda>ks. map (count_line urls) ks @ [[]]) kss))"
    using assms(9) unfolding ab e values_of_def by (simp add: filter_map o_def)
  then have "set vs = set (concat (map (\<lambda>ks. map (count_line urls) ks @ [[]]) kss))" by (rule mset_eq_setD)
  then have "set vs - {[]} = count_line urls ` set (concat kss) - {[]}" by auto
  then have "set vs - {[]} = count_line urls ` set urls" using assms(4,7) count_line_facts(2) by force
  from top10_reduce_lines[OF assms(4,5,2) this] show ?thesis unfolding ab e by (auto simp: emitted_keys assms(3))
qed

definition two_inputs :: "(string \<times> string) list" where
  "two_inputs = [(''f0'', lines_text [''a'', ''b'']), (''f1'', lines_text [''b''])]"

lemma two_inputs_lines: "url_lines (map snd two_inputs) = [''a'', ''b'', ''b'']"
  using lines_text_urls[of "[[''a'', ''b''], [''b'']]"] by (simp add: two_inputs_def all_visible_def visible_def)

theorem url_functions_top10_witness:
  "\<exists>a b. ExampleURLTop10 rev 3 = [a, b] \<and>
     ReduceFunc a ''b'' (values_of (emitted (MapFunc a) two_inputs) ''b'') = Some (''b 2'' @ [CHR 0x0A]) \<and>
     ReduceFunc b '''' [''b 2'', '''', ''a 1'', '''', ''''] = Some (''b: 2'' @ [CHR 0x0A] @ ''a: 1'' @ [CHR 0x0A])"
proof -
  let ?vals = "values_of (emitted ExampleURLCountMap two_inputs)"
  let ?out = "\<lambda>k. count_line [''a'', ''b'', ''b''] k @ [CHR 0x0A]" and ?kss = "[[''b''], [], [''a'']]"
  let ?outs = "map (\<lambda>ks. ('''', concat (map ?out ks))) ?kss"
  obtain a b where ab: "ExampleURLTop10 rev 3 = [a, b]" "MapFunc a = ExampleURLCountMap" "ReduceFunc a = ExampleURLCountReduce"
    "MapFunc b = ExampleURLTop10Map" "ReduceFunc b = ExampleURLTop10Reduce rev" by (simp add: ExampleURLTop10_def)
  have r: "ExampleURLCountReduce k (?vals k) = Some (?out k)" for k
    using count_reduce_line[OF refl, of k two_inputs] by (simp add: two_inputs_lines)
  have "[''b 2'', '''', '''', ''a 1'', ''''] = values_of (emitted ExampleURLTop10Map ?outs) ''''" by code_simp
  then have "mset [''b 2'', '''', ''a 1'', '''', ''''] = mset (values_of (emitted ExampleURLTop10Map ?outs) '''')"
    by (metis add_mset_commute mset.simps(2))
  then have "ReduceFunc b '''' [''b 2'', '''', ''a 1'', '''', ''''] = Some (top_text (url_counts [''a'', ''b'', ''b'']))"
    using url_functions_top10[OF ab(1) _ _ _ _ _ _ refl, of "[''a'', ''b'', ''b'']" two_inputs ?vals ?out ?kss]
    unfolding ab(2-5) by (simp add: r two_inputs_lines all_visible_def visible_def perm_order_def insert_commute)
  also have "top_text (url_counts [''a'', ''b'', ''b'']) = ''b: 2'' @ [CHR 0x0A] @ ''a: 1'' @ [CHR 0x0A]" by code_simp
  finally have "ReduceFunc b '''' [''b 2'', '''', ''a 1'', '''', ''''] = Some (''b: 2'' @ [CHR 0x0A] @ ''a: 1'' @ [CHR 0x0A])" .
  moreover have "?out ''b'' = ''b 2'' @ [CHR 0x0A]" by code_simp
  then have "ReduceFunc a ''b'' (values_of (emitted (MapFunc a) two_inputs) ''b'') = Some (''b 2'' @ [CHR 0x0A])"
    using r[of "''b''"] unfolding ab(2,3) by simp
  ultimately show ?thesis using ab(1) by blast
qed

text \<open>C33. The generators write the right answer: in a fresh directory both succeed, the input files they name exist, and the result
  file holds the printed top ten of the counts of the URLs in those input files. Whatever order the lines with these
  counts arrive in, the reduce function of the second round returns just that text, so \<^verbatim>\<open>CheckFile\<close> accepts it.\<close>

theorem generated_results_right:
  assumes "0 < n" "0 < k" "case_ready dir n fs" "tot < 2 ^ 63"
    and "gen = genUniformCase rnd k \<or> gen = CaseSingleURLPerFile rnd"
  shows "\<exists>c fs' urls. gen dir tot n fs = Some (c, fs') \<and> length (MapFiles c) = n \<and>
     (\<forall>p\<in>set (MapFiles c). gfiles fs' p \<noteq> None) \<and> urls = url_lines (map (\<lambda>p. the (gfiles fs' p)) (MapFiles c)) \<and>
     gfiles fs' (ResultFile c) = Some (top_text (url_counts urls)) \<and>
     (\<forall>ord vs got. perm_order ord \<longrightarrow> mset vs = mset (map (count_line urls) (remdups urls)) \<longrightarrow>
        (\<exists>out. ExampleURLTop10Reduce ord '''' vs = Some out \<and>
           CheckFile (ResultFile c) got (fs'\<lparr>gfiles := (gfiles fs')(got \<mapsto> out)\<rparr>) = Some ('''', True)))"
proof -
  obtain c fs' where c: "gen dir tot n fs = Some (c, fs')" "c = existing_case dir n" "consistent_case c tot fs'"
    using genUniformCase_consistent[OF assms(2,1,3), of rnd tot] single_case_consistent[OF assms(1,3), of rnd tot] assms(5)
    by blast
  define urls where "urls = url_lines (map (\<lambda>p. the (gfiles fs' p)) (MapFiles c))"
  note u = consistent_case_urls[OF c(3) urls_def]
  have "ExampleURLTop10Reduce ord '''' vs = Some (top_text (url_counts urls))"
    if "perm_order ord" "mset vs = mset (map (count_line urls) (remdups urls))" for ord vs
    using top10_reduce_lines[OF u(2) _ that(1) count_lines_perm[OF u(2) that(2)]] u(3) assms(4) by simp
  moreover have "CheckFile (ResultFile c) got (fs'\<lparr>gfiles := (gfiles fs')(got \<mapsto> top_text (url_counts urls))\<rparr>) = Some ('''', True)" for got
    using u(4) by (simp add: CheckFile_def)
  moreover have "length (MapFiles c) = n" by (simp add: c(2) existing_case_def)
  ultimately show ?thesis using c(1) u(1,4) urls_def by blast
qed

definition fresh_fs :: gofs where
  "fresh_fs = \<lparr>gfiles = (\<lambda>_. None), gdirs = []\<rparr>"

lemma fresh_paths:
  "path_dir (input_path ''/d'' 0) = ''/d''" "path_join ''/d'' ''result'' = ''/d/result''" "path_dir ''/d/result'' = ''/d''"
  "ancestors ''/d'' = [''/d'']" "input_path ''/d'' 0 = ''/d/inputMapFile0''"
  by code_simp+

lemma fresh_ready: "case_ready ''/d'' 1 fresh_fs"
  by (simp add: case_ready_def FileOrDirExist_def fresh_fs_def dir_ready_def fresh_paths(1-4) Let_def mkdir_all_def)
    (simp add: fresh_paths(5))

theorem generated_results_right_witness:
  "\<exists>c fs' urls. CaseSingleURLPerFile (\<lambda>i. i) ''/d'' 100 1 fresh_fs = Some (c, fs') \<and> length (MapFiles c) = 1 \<and>
     urls = url_lines (map (\<lambda>p. the (gfiles fs' p)) (MapFiles c)) \<and> gfiles fs' (ResultFile c) = Some (top_text (url_counts urls))"
  using generated_results_right[of 1 1 "''/d''" fresh_fs 100 "CaseSingleURLPerFile (\<lambda>i. i)" "\<lambda>i. i"] fresh_ready by fastforce


end
