(* ===== verification/LabCodec.thy ===== *)
theory LabCodec
  imports Utf8
begin

text \<open>
  The message codec of the labs: \<^verbatim>\<open>courses/dss/labcodec/src/lib.rs\<close> and the expanded implementation of a generated
  message in \<^verbatim>\<open>labcodec/demonstration/expanded_fixture.rs\<close>. The \<^verbatim>\<open>prost\<close> crate is a parameter: the record \<open>prost\<close>
  holds the functions for scalar fields and the provided methods of its trait \<^verbatim>\<open>Message\<close>; \<open>prost_ok\<close> states the
  documented encoding, in which a field is its key followed by its value and decoding merges field after field
  into the default message. A string is the sequence of its UTF-8 bytes.
\<close>

subsection \<open>The enumeration\<close>

datatype mtype = Unknown | Put | Get | Del

fun discriminant :: "mtype \<Rightarrow> 32 word" where
  "discriminant Unknown = 0"
| "discriminant Put = 1"
| "discriminant Get = 2"
| "discriminant Del = 3"

definition type_clone :: "mtype \<Rightarrow> mtype" where
  "type_clone t = t"

fun type_debug :: "mtype \<Rightarrow> string" where
  "type_debug Unknown = ''Unknown''"
| "type_debug Put = ''Put''"
| "type_debug Get = ''Get''"
| "type_debug Del = ''Del''"

definition type_eq :: "mtype \<Rightarrow> mtype \<Rightarrow> bool" where
  "type_eq a b = (let self_vi = discriminant a; arg_1_vi = discriminant b in if True \<and> self_vi = arg_1_vi then True else False)"

definition type_hash :: "('h \<Rightarrow> int \<Rightarrow> 'h) \<Rightarrow> 'h \<Rightarrow> mtype \<Rightarrow> 'h" where
  "type_hash hash_isize state t = hash_isize state (sint (discriminant t))"

datatype ordering = Less | Equal | Greater

definition int_cmp :: "int \<Rightarrow> int \<Rightarrow> ordering" where
  "int_cmp a b = (if a < b then Less else if a = b then Equal else Greater)"

definition type_partial_cmp :: "mtype \<Rightarrow> mtype \<Rightarrow> ordering option" where
  "type_partial_cmp a b =
     (let self_vi = discriminant a; arg_1_vi = discriminant b
      in if True \<and> self_vi = arg_1_vi then Some Equal else Some (int_cmp (sint self_vi) (sint arg_1_vi)))"

definition type_cmp :: "mtype \<Rightarrow> mtype \<Rightarrow> ordering" where
  "type_cmp a b =
     (let self_vi = discriminant a; arg_1_vi = discriminant b
      in if True \<and> self_vi = arg_1_vi then Equal else int_cmp (sint self_vi) (sint arg_1_vi))"

definition is_valid :: "32 word \<Rightarrow> bool" where
  "is_valid v = (if v = 0 then True else if v = 1 then True else if v = 2 then True else if v = 3 then True else False)"

definition from_i32 :: "32 word \<Rightarrow> mtype option" where
  "from_i32 v =
     (if v = 0 then Some Unknown else if v = 1 then Some Put else if v = 2 then Some Get else if v = 3 then Some Del else None)"

definition type_default :: mtype where
  "type_default = Unknown"

definition i32_from :: "mtype \<Rightarrow> 32 word" where
  "i32_from t = discriminant t"

subsection \<open>The message\<close>

record msg =
  m_type :: "32 word"
  m_id :: "64 word"
  m_name :: string
  paylad :: "byte list list"

definition msg_clone :: "msg \<Rightarrow> msg" where
  "msg_clone m = \<lparr>m_type = m_type m, m_id = m_id m, m_name = m_name m, paylad = paylad m\<rparr>"

definition msg_eq :: "msg \<Rightarrow> msg \<Rightarrow> bool" where
  "msg_eq self other \<longleftrightarrow>
     m_type self = m_type other \<and> m_id self = m_id other \<and> m_name self = m_name other \<and> paylad self = paylad other"

definition msg_ne :: "msg \<Rightarrow> msg \<Rightarrow> bool" where
  "msg_ne self other \<longleftrightarrow>
     m_type self \<noteq> m_type other \<or> m_id self \<noteq> m_id other \<or> m_name self \<noteq> m_name other \<or> paylad self \<noteq> paylad other"

definition msg_default :: msg where
  "msg_default = \<lparr>m_type = discriminant type_default, m_id = 0, m_name = '''', paylad = []\<rparr>"

definition msg_clear :: "msg \<Rightarrow> msg" where
  "msg_clear m = m\<lparr>m_type := discriminant type_default, m_id := 0, m_name := '''', paylad := []\<rparr>"

definition get_type :: "msg \<Rightarrow> mtype" where
  "get_type m = (case from_i32 (m_type m) of Some t \<Rightarrow> t | None \<Rightarrow> type_default)"

definition set_type :: "mtype \<Rightarrow> msg \<Rightarrow> msg" where
  "set_type t m = m\<lparr>m_type := discriminant t\<rparr>"

subsection \<open>The functions of prost\<close>

record ('w, 'e, 'm) message =
  encode_raw :: "'m \<Rightarrow> byte list \<Rightarrow> byte list"
  merge_field :: "nat \<Rightarrow> 'w \<Rightarrow> byte list \<Rightarrow> 'm \<Rightarrow> ('e, byte list) outcome \<times> 'm"
  encoded_len :: "'m \<Rightarrow> nat"
  clear :: "'m \<Rightarrow> 'm"
  default :: 'm

record ('w, 'e, 'm) prost =
  int32_encode :: "nat \<Rightarrow> 32 word \<Rightarrow> byte list \<Rightarrow> byte list"
  uint64_encode :: "nat \<Rightarrow> 64 word \<Rightarrow> byte list \<Rightarrow> byte list"
  string_encode :: "nat \<Rightarrow> string \<Rightarrow> byte list \<Rightarrow> byte list"
  bytes_encode_repeated :: "nat \<Rightarrow> byte list list \<Rightarrow> byte list \<Rightarrow> byte list"
  int32_encoded_len :: "nat \<Rightarrow> 32 word \<Rightarrow> nat"
  uint64_encoded_len :: "nat \<Rightarrow> 64 word \<Rightarrow> nat"
  string_encoded_len :: "nat \<Rightarrow> string \<Rightarrow> nat"
  bytes_encoded_len_repeated :: "nat \<Rightarrow> byte list list \<Rightarrow> nat"
  int32_merge :: "'w \<Rightarrow> 32 word \<Rightarrow> byte list \<Rightarrow> ('e, byte list) outcome \<times> 32 word"
  uint64_merge :: "'w \<Rightarrow> 64 word \<Rightarrow> byte list \<Rightarrow> ('e, byte list) outcome \<times> 64 word"
  string_merge :: "'w \<Rightarrow> string \<Rightarrow> byte list \<Rightarrow> ('e, byte list) outcome \<times> string"
  bytes_merge_repeated :: "'w \<Rightarrow> byte list list \<Rightarrow> byte list \<Rightarrow> ('e, byte list) outcome \<times> byte list list"
  skip_field :: "'w \<Rightarrow> nat \<Rightarrow> byte list \<Rightarrow> ('e, byte list) outcome"
  error_push :: "string \<Rightarrow> string \<Rightarrow> 'e \<Rightarrow> 'e"
  p_encode :: "('w, 'e, 'm) message \<Rightarrow> 'm \<Rightarrow> byte list \<Rightarrow> (unit, byte list) outcome"
  p_decode :: "('w, 'e, 'm) message \<Rightarrow> byte list \<Rightarrow> ('e, 'm) outcome"

definition map_err :: "('e \<Rightarrow> 'e) \<Rightarrow> ('e, 'a) outcome \<Rightarrow> ('e, 'a) outcome" where
  "map_err f r = (case r of Err e \<Rightarrow> Err (f e) | _ \<Rightarrow> r)"

subsection \<open>The implementation for Msg\<close>

definition msg_encode_raw :: "('w, 'e, msg) prost \<Rightarrow> msg \<Rightarrow> byte list \<Rightarrow> byte list" where
  "msg_encode_raw P m buf =
     (let buf = (if m_type m \<noteq> discriminant type_default then int32_encode P 1 (m_type m) buf else buf);
          buf = (if m_id m \<noteq> 0 then uint64_encode P 2 (m_id m) buf else buf);
          buf = (if m_name m \<noteq> '''' then string_encode P 3 (m_name m) buf else buf)
      in bytes_encode_repeated P 4 (paylad m) buf)"

definition msg_merge_field ::
  "('w, 'e, msg) prost \<Rightarrow> nat \<Rightarrow> 'w \<Rightarrow> byte list \<Rightarrow> msg \<Rightarrow> ('e, byte list) outcome \<times> msg" where
  "msg_merge_field P tag w buf m =
     (if tag = 1 then
        (case int32_merge P w (m_type m) buf of (r, v) \<Rightarrow> (map_err (error_push P ''Msg'' ''r#type'') r, m\<lparr>m_type := v\<rparr>))
      else if tag = 2 then
        (case uint64_merge P w (m_id m) buf of (r, v) \<Rightarrow> (map_err (error_push P ''Msg'' ''id'') r, m\<lparr>m_id := v\<rparr>))
      else if tag = 3 then
        (case string_merge P w (m_name m) buf of (r, v) \<Rightarrow> (map_err (error_push P ''Msg'' ''name'') r, m\<lparr>m_name := v\<rparr>))
      else if tag = 4 then
        (case bytes_merge_repeated P w (paylad m) buf of (r, v) \<Rightarrow> (map_err (error_push P ''Msg'' ''paylad'') r, m\<lparr>paylad := v\<rparr>))
      else (skip_field P w tag buf, m))"

definition msg_encoded_len :: "('w, 'e, msg) prost \<Rightarrow> msg \<Rightarrow> nat" where
  "msg_encoded_len P m =
     0 + (if m_type m \<noteq> discriminant type_default then int32_encoded_len P 1 (m_type m) else 0)
       + (if m_id m \<noteq> 0 then uint64_encoded_len P 2 (m_id m) else 0)
       + (if m_name m \<noteq> '''' then string_encoded_len P 3 (m_name m) else 0)
       + bytes_encoded_len_repeated P 4 (paylad m)"

definition msg_impl :: "('w, 'e, msg) prost \<Rightarrow> ('w, 'e, msg) message" where
  "msg_impl P =
     \<lparr>encode_raw = msg_encode_raw P, merge_field = msg_merge_field P, encoded_len = msg_encoded_len P,
      clear = msg_clear, default = msg_default\<rparr>"

subsection \<open>labcodec\<close>

text \<open>\<^verbatim>\<open>reserve\<close> only changes the capacity of the vector.\<close>

definition lab_encode :: "('w, 'e, 'm) prost \<Rightarrow> ('w, 'e, 'm) message \<Rightarrow> 'm \<Rightarrow> byte list \<Rightarrow> (unit, unit) outcome \<times> byte list" where
  "lab_encode P M m buf =
     (case p_encode P M m buf of Ok buf' \<Rightarrow> (Ok (), buf') | Err e \<Rightarrow> (Err e, buf) | Panic \<Rightarrow> (Panic, buf))"

definition lab_decode :: "('w, 'e, 'm) prost \<Rightarrow> ('w, 'e, 'm) message \<Rightarrow> byte list \<Rightarrow> ('e, 'm) outcome" where
  "lab_decode P M buf = p_decode P M buf"

subsection \<open>What prost documents\<close>

record 'w wire_format =
  wire_varint :: 'w
  wire_len :: 'w
  put_key :: "nat \<Rightarrow> 'w \<Rightarrow> byte list"
  put_i32 :: "32 word \<Rightarrow> byte list"
  put_u64 :: "64 word \<Rightarrow> byte list"
  put_bytes :: "byte list \<Rightarrow> byte list"

definition scalars_ok :: "('w, 'e, 'm) prost \<Rightarrow> 'w wire_format \<Rightarrow> bool" where
  "scalars_ok P F \<longleftrightarrow>
     (\<forall>tag v buf. int32_encode P tag v buf = buf @ put_key F tag (wire_varint F) @ put_i32 F v) \<and>
     (\<forall>tag v buf. uint64_encode P tag v buf = buf @ put_key F tag (wire_varint F) @ put_u64 F v) \<and>
     (\<forall>tag s buf. string_encode P tag s buf = buf @ put_key F tag (wire_len F) @ put_bytes F (into_bytes s)) \<and>
     (\<forall>tag xs buf. bytes_encode_repeated P tag xs buf = buf @ concat (map (\<lambda>x. put_key F tag (wire_len F) @ put_bytes F x) xs)) \<and>
     (\<forall>tag v. int32_encoded_len P tag v = length (int32_encode P tag v [])) \<and>
     (\<forall>tag v. uint64_encoded_len P tag v = length (uint64_encode P tag v [])) \<and>
     (\<forall>tag s. string_encoded_len P tag s = length (string_encode P tag s [])) \<and>
     (\<forall>tag xs. bytes_encoded_len_repeated P tag xs = length (bytes_encode_repeated P tag xs [])) \<and>
     (\<forall>old v r. int32_merge P (wire_varint F) old (put_i32 F v @ r) = (Ok r, v)) \<and>
     (\<forall>old v r. uint64_merge P (wire_varint F) old (put_u64 F v @ r) = (Ok r, v)) \<and>
     (\<forall>old s r. utf8_valid (into_bytes s) \<longrightarrow> string_merge P (wire_len F) old (put_bytes F (into_bytes s) @ r) = (Ok r, s)) \<and>
     (\<forall>xs x r. bytes_merge_repeated P (wire_len F) xs (put_bytes F x @ r) = (Ok r, xs @ [x]))"

definition messages_ok ::
  "('w, 'e, 'm) prost \<Rightarrow> 'w wire_format \<Rightarrow> (('w, 'e, 'm) message \<Rightarrow> byte list \<Rightarrow> 'm \<Rightarrow> ('e, 'm) outcome) \<Rightarrow> bool" where
  "messages_ok P F mrg \<longleftrightarrow>
     (\<forall>M m buf. length buf + encoded_len M m < 2 ^ 63 \<longrightarrow> p_encode P M m buf = Ok (encode_raw M m buf)) \<and>
     (\<forall>M buf. p_decode P M buf = mrg M buf (default M)) \<and>
     (\<forall>M m. mrg M [] m = Ok m) \<and>
     (\<forall>M tag w r m. 1 \<le> tag \<and> tag < 2 ^ 29 \<longrightarrow> mrg M (put_key F tag w @ r) m =
        (case merge_field M tag w r m of (Ok r', m') \<Rightarrow> mrg M r' m' | (Err e, _) \<Rightarrow> Err e | (Panic, _) \<Rightarrow> Panic))"

subsection \<open>Merging an encoded message\<close>

definition merge_msg :: "msg \<Rightarrow> msg \<Rightarrow> msg" where
  "merge_msg old new =
     \<lparr>m_type = (if m_type new \<noteq> 0 then m_type new else m_type old), m_id = (if m_id new \<noteq> 0 then m_id new else m_id old),
      m_name = (if m_name new \<noteq> '''' then m_name new else m_name old), paylad = paylad old @ paylad new\<rparr>"

definition field_bytes :: "'w wire_format \<Rightarrow> msg \<Rightarrow> byte list" where
  "field_bytes F m =
     (if m_type m \<noteq> 0 then put_key F 1 (wire_varint F) @ put_i32 F (m_type m) else []) @
     (if m_id m \<noteq> 0 then put_key F 2 (wire_varint F) @ put_u64 F (m_id m) else []) @
     (if m_name m \<noteq> '''' then put_key F 3 (wire_len F) @ put_bytes F (into_bytes (m_name m)) else []) @
     concat (map (\<lambda>x. put_key F 4 (wire_len F) @ put_bytes F x) (paylad m))"

lemma type_default_0 [simp]: "discriminant type_default = 0"
  by (simp add: type_default_def)

lemma encode_raw_bytes: "scalars_ok P F \<Longrightarrow> msg_encode_raw P m buf = buf @ field_bytes F m"
  by (simp add: scalars_ok_def msg_encode_raw_def field_bytes_def Let_def)

lemma encoded_len_bytes: "scalars_ok P F \<Longrightarrow> msg_encoded_len P m = length (field_bytes F m)"
  by (simp add: scalars_ok_def msg_encoded_len_def field_bytes_def)

lemma mrg_step:
  assumes "messages_ok P F mrg" "1 \<le> tag" "tag < 2 ^ 29" "merge_field M tag w r m = (Ok r', m')"
  shows "mrg M (put_key F tag w @ r) m = mrg M r' m'"
  using assms by (simp add: messages_ok_def)

lemma mrg_payload:
  assumes "scalars_ok P F" "messages_ok P F mrg"
  shows "mrg (msg_impl P) (concat (map (\<lambda>x. put_key F 4 (wire_len F) @ put_bytes F x) xs) @ r) m =
     mrg (msg_impl P) r (m\<lparr>paylad := paylad m @ xs\<rparr>)"
proof (induction xs arbitrary: m)
  case (Cons x xs)
  have "merge_field (msg_impl P) 4 (wire_len F) (put_bytes F x @ t) m = (Ok t, m\<lparr>paylad := paylad m @ [x]\<rparr>)" for t
    using assms(1) by (simp add: msg_impl_def msg_merge_field_def scalars_ok_def map_err_def)
  from mrg_step[OF assms(2) _ _ this] Cons[of "m\<lparr>paylad := paylad m @ [x]\<rparr>"] show ?case by simp
qed simp

lemma mrg_message:
  assumes s: "scalars_ok P F" and d: "messages_ok P F mrg" and u: "utf8_valid (into_bytes (m_name new))"
  shows "mrg (msg_impl P) (field_bytes F new @ r) old = mrg (msg_impl P) r (merge_msg old new)"
proof -
  have t: "merge_field (msg_impl P) 1 (wire_varint F) (put_i32 F v @ t) m = (Ok t, m\<lparr>m_type := v\<rparr>)"
    and i: "merge_field (msg_impl P) 2 (wire_varint F) (put_u64 F v' @ t) m = (Ok t, m\<lparr>m_id := v'\<rparr>)"
    and n: "merge_field (msg_impl P) 3 (wire_len F) (put_bytes F (into_bytes (m_name new)) @ t) m = (Ok t, m\<lparr>m_name := m_name new\<rparr>)"
    for v v' t m
    using s u by (simp_all add: msg_impl_def msg_merge_field_def scalars_ok_def map_err_def)
  have "mrg (msg_impl P) ((if m_type new \<noteq> 0 then put_key F 1 (wire_varint F) @ put_i32 F (m_type new) else []) @ q) m =
      mrg (msg_impl P) q (m\<lparr>m_type := (if m_type new \<noteq> 0 then m_type new else m_type m)\<rparr>)" for q m
    using mrg_step[OF d _ _ t] by simp
  moreover have "mrg (msg_impl P) ((if m_id new \<noteq> 0 then put_key F 2 (wire_varint F) @ put_u64 F (m_id new) else []) @ q) m =
      mrg (msg_impl P) q (m\<lparr>m_id := (if m_id new \<noteq> 0 then m_id new else m_id m)\<rparr>)" for q m
    using mrg_step[OF d _ _ i] by simp
  moreover have "mrg (msg_impl P) ((if m_name new \<noteq> '''' then put_key F 3 (wire_len F) @ put_bytes F (into_bytes (m_name new)) else []) @ q) m =
      mrg (msg_impl P) q (m\<lparr>m_name := (if m_name new \<noteq> '''' then m_name new else m_name m)\<rparr>)" for q m
    using mrg_step[OF d _ _ n] by simp
  ultimately show ?thesis
    unfolding field_bytes_def append_assoc by (cases old) (simp add: merge_msg_def mrg_payload[OF s d, simplified])
qed

lemma merge_default: "merge_msg msg_default m = m"
  by (simp add: merge_msg_def msg_default_def)

subsection \<open>The wire format of Protocol Buffers\<close>

text \<open>Numbers in groups of seven bits, the high bit set on all but the last; a length before every string of bytes.\<close>

function put_varint :: "nat \<Rightarrow> byte list" where
  "put_varint n = (if n < 128 then [word_of_nat n] else word_of_nat (128 + n mod 128) # put_varint (n div 128))"
  by auto
termination by (relation "measure (\<lambda>n. n)") auto

declare put_varint.simps [simp del]

fun get_varint :: "byte list \<Rightarrow> (nat \<times> byte list) option" where
  "get_varint [] = None"
| "get_varint (b # bs) =
     (if b < 128 then Some (unat b, bs)
      else case get_varint bs of None \<Rightarrow> None | Some (n, r) \<Rightarrow> Some (unat b - 128 + 128 * n, r))"

lemma unat_byte: "n < 256 \<Longrightarrow> unat (word_of_nat n :: byte) = n"
  by (simp add: unat_of_nat)

lemma get_put_varint [simp]: "get_varint (put_varint n @ r) = Some (n, r)"
proof (induction n rule: put_varint.induct)
  case (1 n)
  show ?case
  proof (cases "n < 128")
    case True
    then have "unat (word_of_nat n :: byte) = n" by (simp add: unat_byte)
    moreover have "(word_of_nat n :: byte) < 128" using True calculation by (simp add: word_less_nat_alt)
    ultimately show ?thesis using True by (simp add: put_varint.simps[of n])
  next
    case False
    have "128 + n mod 128 < 256" using mod_less_divisor[of 128 n] by linarith
    then have u: "unat (word_of_nat (128 + n mod 128) :: byte) = 128 + n mod 128" by (rule unat_byte)
    then have "\<not> (word_of_nat (128 + n mod 128) :: byte) < 128" unfolding word_less_nat_alt by (simp del: of_nat_add)
    with u show ?thesis using 1 False by (simp add: put_varint.simps[of n] del: of_nat_add)
  qed
qed

lemma put_varint_not_Nil [simp]: "put_varint n \<noteq> []"
  by (subst put_varint.simps) simp

datatype wire = Varint | Fixed64 | LengthDelimited | Fixed32

fun wire_code :: "wire \<Rightarrow> nat" where
  "wire_code Varint = 0"
| "wire_code Fixed64 = 1"
| "wire_code LengthDelimited = 2"
| "wire_code Fixed32 = 5"

definition wire_of :: "nat \<Rightarrow> wire option" where
  "wire_of n = (if n = 0 then Some Varint else if n = 1 then Some Fixed64 else if n = 2 then Some LengthDelimited
     else if n = 5 then Some Fixed32 else None)"

lemma wire_of_code [simp]: "wire_of (wire_code w) = Some w" "wire_code w < 8"
  by (cases w; simp add: wire_of_def)+

definition proto_format :: "wire wire_format" where
  "proto_format =
     \<lparr>wire_varint = Varint, wire_len = LengthDelimited, put_key = (\<lambda>tag w. put_varint (tag * 8 + wire_code w)),
      put_i32 = (\<lambda>v. put_varint (unat (scast v :: 64 word))), put_u64 = (\<lambda>v. put_varint (unat v)),
      put_bytes = (\<lambda>bs. put_varint (length bs) @ bs)\<rparr>"

definition take_bytes :: "byte list \<Rightarrow> (byte list \<times> byte list) option" where
  "take_bytes buf =
     (case get_varint buf of None \<Rightarrow> None | Some (n, r) \<Rightarrow> if n \<le> length r then Some (take n r, drop n r) else None)"

lemma take_put_bytes [simp]: "take_bytes (put_varint (length bs) @ bs @ r) = Some (bs, r)"
  by (simp add: take_bytes_def)

partial_function (option) merge_loop :: "(wire, string list, 'm) message \<Rightarrow> byte list \<Rightarrow> 'm \<Rightarrow> (string list, 'm) outcome option" where
  "merge_loop M buf m =
     (if buf = [] then Some (Ok m)
      else case get_varint buf of
             None \<Rightarrow> Some (Err [''invalid varint''])
           | Some (key, r) \<Rightarrow>
               (case wire_of (key mod 8) of
                  None \<Rightarrow> Some (Err [''invalid wire type''])
                | Some w \<Rightarrow>
                    (case merge_field M (key div 8) w r m of
                       (Ok r', m') \<Rightarrow> merge_loop M r' m'
                     | (Err e, _) \<Rightarrow> Some (Err e)
                     | (Panic, _) \<Rightarrow> Some Panic)))"

definition proto_mrg :: "(wire, string list, 'm) message \<Rightarrow> byte list \<Rightarrow> 'm \<Rightarrow> (string list, 'm) outcome" where
  "proto_mrg M buf m = (case merge_loop M buf m of None \<Rightarrow> Panic | Some r \<Rightarrow> r)"

definition proto_prost :: "(wire, string list, 'm) prost" where
  "proto_prost =
     (let F = proto_format in
     \<lparr>int32_encode = (\<lambda>tag v buf. buf @ put_key F tag Varint @ put_i32 F v),
      uint64_encode = (\<lambda>tag v buf. buf @ put_key F tag Varint @ put_u64 F v),
      string_encode = (\<lambda>tag s buf. buf @ put_key F tag LengthDelimited @ put_bytes F (into_bytes s)),
      bytes_encode_repeated = (\<lambda>tag xs buf. buf @ concat (map (\<lambda>x. put_key F tag LengthDelimited @ put_bytes F x) xs)),
      int32_encoded_len = (\<lambda>tag v. length (put_key F tag Varint @ put_i32 F v)),
      uint64_encoded_len = (\<lambda>tag v. length (put_key F tag Varint @ put_u64 F v)),
      string_encoded_len = (\<lambda>tag s. length (put_key F tag LengthDelimited @ put_bytes F (into_bytes s))),
      bytes_encoded_len_repeated = (\<lambda>tag xs. length (concat (map (\<lambda>x. put_key F tag LengthDelimited @ put_bytes F x) xs))),
      int32_merge = (\<lambda>w old buf. if w = Varint then (case get_varint buf of Some (n, r) \<Rightarrow> (Ok r, word_of_nat n) | None \<Rightarrow> (Err [''invalid varint''], old))
        else (Err [''invalid wire type''], old)),
      uint64_merge = (\<lambda>w old buf. if w = Varint then (case get_varint buf of Some (n, r) \<Rightarrow> (Ok r, word_of_nat n) | None \<Rightarrow> (Err [''invalid varint''], old))
        else (Err [''invalid wire type''], old)),
      string_merge = (\<lambda>w old buf. if w = LengthDelimited
        then (case take_bytes buf of Some (bs, r) \<Rightarrow> if utf8_valid bs then (Ok r, of_bytes bs) else (Err [''invalid string''], old) | None \<Rightarrow> (Err [''buffer underflow''], old))
        else (Err [''invalid wire type''], old)),
      bytes_merge_repeated = (\<lambda>w old buf. if w = LengthDelimited
        then (case take_bytes buf of Some (bs, r) \<Rightarrow> (Ok r, old @ [bs]) | None \<Rightarrow> (Err [''buffer underflow''], old))
        else (Err [''invalid wire type''], old)),
      skip_field = (\<lambda>w tag buf. case w of
          Varint \<Rightarrow> (case get_varint buf of Some (n, r) \<Rightarrow> Ok r | None \<Rightarrow> Err [''invalid varint''])
        | LengthDelimited \<Rightarrow> (case take_bytes buf of Some (bs, r) \<Rightarrow> Ok r | None \<Rightarrow> Err [''buffer underflow''])
        | Fixed64 \<Rightarrow> (if 8 \<le> length buf then Ok (drop 8 buf) else Err [''buffer underflow''])
        | Fixed32 \<Rightarrow> (if 4 \<le> length buf then Ok (drop 4 buf) else Err [''buffer underflow''])),
      error_push = (\<lambda>s f e. (s @ ''.'' @ f) # e),
      p_encode = (\<lambda>M m buf. if length buf + encoded_len M m < 2 ^ 63 then Ok (encode_raw M m buf) else Err ()),
      p_decode = (\<lambda>M buf. proto_mrg M buf (default M))\<rparr>)"

lemma ucast_scast_i32: "(ucast (scast v :: 64 word) :: 32 word) = v"
  by (rule bit_word_eqI) (simp add: bit_simps)

lemma proto_scalars: "scalars_ok (proto_prost :: (wire, string list, 'm) prost) proto_format"
  unfolding scalars_ok_def proto_prost_def proto_format_def Let_def by (simp add: ucast_scast_i32)

lemma proto_messages: "messages_ok proto_prost proto_format proto_mrg"
proof -
  have key: "get_varint (put_varint (tag * 8 + wire_code w) @ r) = Some (tag * 8 + wire_code w, r)" for tag w r by simp
  have "proto_mrg M (put_varint (tag * 8 + wire_code w) @ r) m =
     (case merge_field M tag w r m of (Ok r', m') \<Rightarrow> proto_mrg M r' m' | (Err e, _) \<Rightarrow> Err e | (Panic, _) \<Rightarrow> Panic)"
    for M :: "(wire, string list, 'a) message" and tag w r m
    unfolding proto_mrg_def by (subst merge_loop.simps) (auto simp: key split: prod.splits outcome.splits)
  moreover have "proto_mrg M [] m = Ok m" for M :: "(wire, string list, 'a) message" and m
    by (simp add: proto_mrg_def merge_loop.simps)
  ultimately show ?thesis by (simp add: messages_ok_def proto_prost_def proto_format_def Let_def)
qed

subsection \<open>The order of the enumeration\<close>

instantiation mtype :: linorder
begin

definition less_eq_mtype :: "mtype \<Rightarrow> mtype \<Rightarrow> bool" where
  "less_eq_mtype a b \<longleftrightarrow> type_cmp a b \<noteq> Greater"

definition less_mtype :: "mtype \<Rightarrow> mtype \<Rightarrow> bool" where
  "less_mtype a b \<longleftrightarrow> type_cmp a b = Less"

instance
proof
  fix a b c :: mtype
  show "(a < b) = (a \<le> b \<and> \<not> b \<le> a)" "a \<le> a" "a \<le> b \<Longrightarrow> b \<le> a \<Longrightarrow> a = b" "a \<le> b \<or> b \<le> a"
    by (cases a; cases b; simp add: less_eq_mtype_def less_mtype_def type_cmp_def int_cmp_def)+
  show "a \<le> b \<Longrightarrow> b \<le> c \<Longrightarrow> a \<le> c"
    by (cases a; cases b; cases c; simp add: less_eq_mtype_def type_cmp_def int_cmp_def)
qed

end

lemma msg_roundtrip:
  assumes "scalars_ok P F" "messages_ok P F mrg" "utf8_valid (into_bytes (m_name m))" "msg_encoded_len P m < 2 ^ 63"
  shows "lab_encode P (msg_impl P) m [] = (Ok (), field_bytes F m) \<and> lab_decode P (msg_impl P) (field_bytes F m) = Ok m \<and>
     length (field_bytes F m) = encoded_len (msg_impl P) m"
proof -
  have "p_encode P (msg_impl P) m [] = Ok (field_bytes F m)"
    using assms(2,4) encode_raw_bytes[OF assms(1), of m "[]"] by (simp add: messages_ok_def msg_impl_def)
  moreover have "p_decode P (msg_impl P) (field_bytes F m) = Ok m"
  proof -
    have "p_decode P (msg_impl P) (field_bytes F m) = mrg (msg_impl P) (field_bytes F m @ []) msg_default"
      using assms(2) by (simp add: messages_ok_def msg_impl_def)
    also have "\<dots> = mrg (msg_impl P) [] m" by (simp only: mrg_message[OF assms(1-3)] merge_default)
    also have "\<dots> = Ok m" using assms(2) by (simp add: messages_ok_def)
    finally show ?thesis .
  qed
  ultimately show ?thesis using encoded_len_bytes[OF assms(1), of m]
    by (simp add: lab_encode_def lab_decode_def msg_impl_def)
qed

definition answer :: msg where
  "answer = \<lparr>m_type = 1, m_id = 42, m_name = ''the answer'', paylad = [[7, 7, 7], [7, 7, 7]]\<rparr>"

lemma answer_ok: "utf8_valid (into_bytes (m_name answer))" "msg_encoded_len proto_prost answer < 2 ^ 63"
proof -
  show "utf8_valid (into_bytes (m_name answer))" by (simp add: answer_def into_bytes_def)
  have "length (field_bytes proto_format answer) < 2 ^ 63"
    by (simp add: field_bytes_def answer_def proto_format_def put_varint.simps into_bytes_def)
  then show "msg_encoded_len proto_prost answer < 2 ^ 63" unfolding encoded_len_bytes[OF proto_scalars] .
qed

section \<open>Properties\<close>

text \<open>C6. What is encoded is decoded: for every message with any value of the enumeration field, known or not, decoding the
  bytes \<^verbatim>\<open>labcodec::encode\<close> appends to an empty buffer gives back the message, and the space \<^verbatim>\<open>encode\<close> reserves
  is exactly what it writes.\<close>

theorem codec_roundtrip:
  assumes "scalars_ok P F" "messages_ok P F mrg" "utf8_valid (into_bytes (m_name m))" "msg_encoded_len P m < 2 ^ 63"
  shows "\<exists>buf. lab_encode P (msg_impl P) m [] = (Ok (), buf) \<and> lab_decode P (msg_impl P) buf = Ok m \<and>
     length buf = encoded_len (msg_impl P) m"
  using msg_roundtrip[OF assms] by blast

theorem codec_roundtrip_witness:
  "\<exists>buf. lab_encode proto_prost (msg_impl proto_prost) answer [] = (Ok (), buf) \<and>
     lab_decode proto_prost (msg_impl proto_prost) buf = Ok answer"
  using codec_roundtrip[OF proto_scalars proto_messages answer_ok] by blast

text \<open>Decoding a concatenation merges: the bytes of two messages one after the other decode to the message whose scalar
  fields are those of the second where it sets them and of the first elsewhere, and whose repeated field is the
  concatenation.\<close>

theorem codec_concat_merges:
  assumes "scalars_ok P F" "messages_ok P F mrg" "utf8_valid (into_bytes (m_name a))" "utf8_valid (into_bytes (m_name b))"
  shows "lab_decode P (msg_impl P) (encode_raw (msg_impl P) b (encode_raw (msg_impl P) a [])) = Ok (merge_msg a b)"
proof -
  have "lab_decode P (msg_impl P) (encode_raw (msg_impl P) b (encode_raw (msg_impl P) a [])) =
      mrg (msg_impl P) (field_bytes F a @ field_bytes F b @ []) msg_default"
    using assms(2) by (simp add: lab_decode_def messages_ok_def msg_impl_def encode_raw_bytes[OF assms(1)])
  also have "\<dots> = mrg (msg_impl P) [] (merge_msg a b)"
    by (simp only: mrg_message[OF assms(1,2,3)] mrg_message[OF assms(1,2,4)] merge_default)
  finally show ?thesis using assms(2) by (simp add: messages_ok_def)
qed

theorem codec_concat_merges_witness:
  "lab_decode proto_prost (msg_impl proto_prost)
     (encode_raw (msg_impl proto_prost) answer (encode_raw (msg_impl proto_prost) answer [])) =
   Ok (answer\<lparr>paylad := [[7, 7, 7], [7, 7, 7], [7, 7, 7], [7, 7, 7]]\<rparr>)"
proof -
  have "utf8_valid (into_bytes (m_name answer))" by (simp add: answer_def into_bytes_def)
  from codec_concat_merges[OF proto_scalars proto_messages this this] show ?thesis
    by (simp add: merge_msg_def answer_def)
qed

text \<open>The generated enumeration is well behaved: conversion to and from \<^verbatim>\<open>i32\<close> are inverse on the four values and
  \<^verbatim>\<open>from_i32\<close> fails exactly where \<^verbatim>\<open>is_valid\<close> says so; equality and both comparisons agree with the order of the
  discriminants, which is linear; the accessor of a message returns the value set, and the default for any unknown number.\<close>

theorem enum_conversions:
  "from_i32 (i32_from t) = Some t \<and> (is_valid v \<longleftrightarrow> from_i32 v \<noteq> None) \<and> (from_i32 v = Some t \<longleftrightarrow> v = i32_from t) \<and>
   (type_eq t u \<longleftrightarrow> t = u) \<and> type_partial_cmp t u = Some (type_cmp t u) \<and> (t \<le> u \<longleftrightarrow> i32_from t \<le>s i32_from u) \<and>
   get_type (set_type t m) = t \<and> (get_type (m\<lparr>m_type := v\<rparr>) = (if is_valid v then the (from_i32 v) else type_default))"
proof -
  have "t \<le> u \<longleftrightarrow> i32_from t \<le>s i32_from u"
    by (cases t; cases u; simp add: less_eq_mtype_def type_cmp_def int_cmp_def i32_from_def word_sle_eq)
  moreover have "from_i32 (i32_from t) = Some t \<and> type_eq t u = (t = u) \<and> type_partial_cmp t u = Some (type_cmp t u)"
    by (cases t; cases u; simp add: from_i32_def i32_from_def type_eq_def type_partial_cmp_def type_cmp_def)
  moreover have "from_i32 v = Some t \<longleftrightarrow> v = i32_from t" by (cases t) (auto simp: from_i32_def i32_from_def)
  moreover have "is_valid v \<longleftrightarrow> from_i32 v \<noteq> None" by (simp add: is_valid_def from_i32_def)
  ultimately show ?thesis by (auto simp: get_type_def set_type_def i32_from_def[symmetric] is_valid_def)
qed

end
