(* ===== verification/RaftCheck.thy ===== *)
theory RaftCheck
  imports Prelude "HOL-Library.Multiset"
begin

text \<open>
  The checks the Raft lab makes on a group of peers (\<^verbatim>\<open>courses/dss/raft/src/raft/config.rs\<close>): the record of what each
  peer has committed, which every applied message is checked against, the checks on terms and leaders, and the two
  waiting loops \<^verbatim>\<open>wait\<close> and \<^verbatim>\<open>one\<close>. The peers are the exercise of the lab, so that what they answer when they are
  asked is an argument: a function of the time of the question and of the peer. A panic is \<^const>\<open>None\<close>. The storage
  is behind a mutex, and a panic while its lock is held poisons it; a poisoned mutex is the storage \<^const>\<open>None\<close>,
  whose content nobody can read any more. Indices and terms are only counted and compared.
\<close>

subsection \<open>The storage of committed entries\<close>

datatype raft_entry = REntry (entry_x: u64)

record storage =
  st_logs :: "(nat \<Rightarrow> raft_entry option) list"
  max_index :: nat
  max_index0 :: nat

record apply_msg =
  command_valid :: bool
  command :: "byte list"
  command_index :: nat

definition storage_new :: "nat \<Rightarrow> storage" where
  "storage_new n = \<lparr>st_logs = replicate n (\<lambda>_. None), max_index = 0, max_index0 = 0\<rparr>"

fun n_committed_loop :: "nat \<Rightarrow> (nat \<Rightarrow> raft_entry option) list \<Rightarrow> nat \<Rightarrow> raft_entry option \<Rightarrow> (nat \<times> raft_entry option) option" where
  "n_committed_loop index [] cnt cmd = Some (cnt, cmd)"
| "n_committed_loop index (log # logs) cnt cmd =
     (case log index of
        None \<Rightarrow> n_committed_loop index logs cnt cmd
      | Some cmd1 \<Rightarrow>
          if cnt > 0 \<and> cmd \<noteq> Some cmd1 then None
          else n_committed_loop index logs (cnt + 1) (Some cmd1))"

definition storage_n_committed :: "storage \<Rightarrow> nat \<Rightarrow> (nat \<times> raft_entry option) option" where
  "storage_n_committed st index = n_committed_loop index (st_logs st) 0 None"

definition n_committed :: "storage option \<Rightarrow> nat \<Rightarrow> (nat \<times> raft_entry option) option \<times> storage option" where
  "n_committed s index =
     (case s of
        None \<Rightarrow> (None, None)
      | Some st \<Rightarrow>
          (case storage_n_committed st index of
             None \<Rightarrow> (None, None)
           | Some r \<Rightarrow> (Some r, s)))"

text \<open>The closure that receives the messages of peer \<open>i\<close>: its part under the lock, and the whole. The function \<open>dec\<close>
  is \<^verbatim>\<open>labcodec::decode\<close> with the implementation of \<^verbatim>\<open>Message\<close> that prost derives for \<^verbatim>\<open>Entry\<close>. The boolean says
  that the closure returns.\<close>

definition apply_entry :: "nat \<Rightarrow> nat \<Rightarrow> raft_entry \<Rightarrow> storage \<Rightarrow> storage option" where
  "apply_entry i index entry s =
     (if list_ex (\<lambda>log. case log index of Some old \<Rightarrow> old \<noteq> entry | None \<Rightarrow> False) (st_logs s) then None
      else if i \<ge> length (st_logs s) then None
      else if index > 1 \<and> (st_logs s ! i) (index - 1) = None then None
      else Some (s\<lparr>st_logs := (st_logs s)[i := (st_logs s ! i)(index \<mapsto> entry)],
                   max_index := (if index > max_index s then index else max_index s)\<rparr>))"

definition apply_one :: "(byte list \<Rightarrow> ('e, raft_entry) outcome) \<Rightarrow> nat \<Rightarrow> apply_msg \<Rightarrow> storage option \<Rightarrow> bool \<times> storage option" where
  "apply_one dec i cmd s =
     (if \<not> command_valid cmd then (True, s)
      else case dec (command cmd) of
             Ok entry \<Rightarrow>
               (case s of
                  None \<Rightarrow> (False, None)
                | Some st \<Rightarrow>
                    (case apply_entry i (command_index cmd) entry st of
                       None \<Rightarrow> (False, None)
                     | Some st' \<Rightarrow> (True, Some st')))
           | _ \<Rightarrow> (False, s))"

text \<open>The messages of all peers in the order in which the storage sees them.\<close>

fun apply_many :: "(byte list \<Rightarrow> ('e, raft_entry) outcome) \<Rightarrow> (nat \<times> apply_msg) list \<Rightarrow> storage option \<Rightarrow> bool \<times> storage option" where
  "apply_many dec [] s = (True, s)"
| "apply_many dec ((i, cmd) # cmds) s =
     (case apply_one dec i cmd s of (True, s') \<Rightarrow> apply_many dec cmds s' | (False, s') \<Rightarrow> (False, s'))"

subsection \<open>Leaders and terms\<close>

record rstate =
  rs_term :: nat
  rs_is_leader :: bool

type_synonym leaders = "(nat \<times> nat list) list"

text \<open>\<^verbatim>\<open>leaders.entry(term).or_insert_with(Vec::new).push(i)\<close>; the map is kept as the list of its entries.\<close>

fun push_leader :: "nat \<Rightarrow> nat \<Rightarrow> leaders \<Rightarrow> leaders" where
  "push_leader t i [] = [(t, [i])]"
| "push_leader t i ((t', is) # ls) = (if t' = t then (t', is @ [i]) # ls else (t', is) # push_leader t i ls)"

text \<open>One pass over the connected peers; \<open>view i\<close> is the state peer \<open>i\<close> reports, \<^const>\<open>None\<close> if there is none.\<close>

fun collect_leaders :: "(nat \<Rightarrow> rstate option) \<Rightarrow> nat \<Rightarrow> bool list \<Rightarrow> leaders \<Rightarrow> leaders option" where
  "collect_leaders view i [] ls = Some ls"
| "collect_leaders view i (connected # cs) ls =
     (if connected
      then case view i of
             None \<Rightarrow> None
           | Some state \<Rightarrow>
               collect_leaders view (Suc i) cs (if rs_is_leader state then push_leader (rs_term state) i ls else ls)
      else collect_leaders view (Suc i) cs ls)"

fun last_term_with_leader :: "leaders \<Rightarrow> nat \<Rightarrow> nat option" where
  "last_term_with_leader [] last_term = Some last_term"
| "last_term_with_leader ((t, is) # ls) last_term =
     (if length is > 1 then None else last_term_with_leader ls (if t > last_term then t else last_term))"

text \<open>\<open>ord\<close> is the order in which the hash map is iterated.\<close>

fun check_leader_iters :: "(leaders \<Rightarrow> leaders) \<Rightarrow> bool list \<Rightarrow> (nat \<Rightarrow> nat \<Rightarrow> rstate option) \<Rightarrow> nat \<Rightarrow> nat \<Rightarrow> leaders \<Rightarrow> nat option" where
  "check_leader_iters ord cs view 0 iter ls = None"
| "check_leader_iters ord cs view (Suc k) iter ls =
     (case collect_leaders (view iter) 0 cs ls of
        None \<Rightarrow> None
      | Some ls' \<Rightarrow>
          (case last_term_with_leader (ord ls') 0 of
             None \<Rightarrow> None
           | Some t \<Rightarrow>
               if ls' \<noteq> [] then (case map_of ls' t of Some (l # _) \<Rightarrow> Some l | _ \<Rightarrow> None)
               else check_leader_iters ord cs view k (Suc iter) ls'))"

definition check_one_leader :: "(leaders \<Rightarrow> leaders) \<Rightarrow> bool list \<Rightarrow> (nat \<Rightarrow> nat \<Rightarrow> rstate option) \<Rightarrow> nat option" where
  "check_one_leader ord cs view = check_leader_iters ord cs view 10 0 []"

fun check_terms_loop :: "(nat \<Rightarrow> rstate option) \<Rightarrow> nat \<Rightarrow> bool list \<Rightarrow> nat \<Rightarrow> nat option" where
  "check_terms_loop view i [] term = Some term"
| "check_terms_loop view i (connected # cs) term =
     (if connected
      then case view i of
             None \<Rightarrow> None
           | Some state \<Rightarrow>
               if term = 0 then check_terms_loop view (Suc i) cs (rs_term state)
               else if term \<noteq> rs_term state then None
               else check_terms_loop view (Suc i) cs term
      else check_terms_loop view (Suc i) cs term)"

definition check_terms :: "bool list \<Rightarrow> (nat \<Rightarrow> rstate option) \<Rightarrow> nat option" where
  "check_terms cs view = check_terms_loop view 0 cs 0"

fun check_no_leader_loop :: "(nat \<Rightarrow> rstate option) \<Rightarrow> nat \<Rightarrow> bool list \<Rightarrow> unit option" where
  "check_no_leader_loop view i [] = Some ()"
| "check_no_leader_loop view i (connected # cs) =
     (if connected
      then case view i of
             None \<Rightarrow> None
           | Some state \<Rightarrow> if rs_is_leader state then None else check_no_leader_loop view (Suc i) cs
      else check_no_leader_loop view (Suc i) cs)"

definition check_no_leader :: "bool list \<Rightarrow> (nat \<Rightarrow> rstate option) \<Rightarrow> unit option" where
  "check_no_leader cs view = check_no_leader_loop view 0 cs"

subsection \<open>Waiting for agreement\<close>

text \<open>
  \<open>polls t\<close> is the storage at the \<open>t\<close>-th question and \<open>views t\<close> what the peers report after it. The result is the
  return value, or \<^const>\<open>None\<close> for a panic, with the number of milliseconds slept; the loop ends in \<^const>\<open>Inl\<close> with such
  a result, or in \<^const>\<open>Inr\<close> with the number of questions and the time.
\<close>

definition moved_on :: "nat option \<Rightarrow> rstate option list \<Rightarrow> bool" where
  "moved_on start_term rafts =
     (case start_term of
        None \<Rightarrow> False
      | Some t \<Rightarrow> list_ex (\<lambda>r. case r of Some rf \<Rightarrow> rs_term rf > t | None \<Rightarrow> False) rafts)"

fun wait_loop ::
  "(nat \<Rightarrow> storage option) \<Rightarrow> (nat \<Rightarrow> rstate option list) \<Rightarrow> nat \<Rightarrow> nat \<Rightarrow> nat option \<Rightarrow> nat \<Rightarrow> nat \<Rightarrow> nat \<Rightarrow> nat
     \<Rightarrow> (raft_entry option option \<times> nat) + (nat \<times> nat)" where
  "wait_loop polls views index n start_term 0 t to slept = Inr (t, slept)"
| "wait_loop polls views index n start_term (Suc k) t to slept =
     (case fst (n_committed (polls t) index) of
        None \<Rightarrow> Inl (None, slept)
      | Some (nd, _) \<Rightarrow>
          if nd \<ge> n then Inr (Suc t, slept)
          else if moved_on start_term (views t) then Inl (Some None, slept + to)
          else wait_loop polls views index n start_term k (Suc t) (if to < 1000 then to * 2 else to) (slept + to))"

definition wait ::
  "(nat \<Rightarrow> storage option) \<Rightarrow> (nat \<Rightarrow> rstate option list) \<Rightarrow> nat \<Rightarrow> nat \<Rightarrow> nat option \<Rightarrow> raft_entry option option \<times> nat" where
  "wait polls views index n start_term =
     (case wait_loop polls views index n start_term 30 0 10 0 of
        Inl r \<Rightarrow> r
      | Inr (t, slept) \<Rightarrow>
          (case fst (n_committed (polls t) index) of
             None \<Rightarrow> (None, slept)
           | Some (nd, cmd) \<Rightarrow> (if nd < n then None else Some cmd, slept)))"

text \<open>
  One iteration of the outer loop of \<^verbatim>\<open>one\<close>: what a call of \<^verbatim>\<open>start\<close> returns on each peer, \<^const>\<open>None\<close> if there is
  no peer, and the storage at each question within the two seconds. The iterations are those the ten seconds allow.
\<close>

record 'e round =
  starting :: "nat \<Rightarrow> ('e + nat \<times> nat) option"
  polled :: "storage option list"

fun try_servers :: "bool list \<Rightarrow> (nat \<Rightarrow> ('e + nat \<times> nat) option) \<Rightarrow> nat \<Rightarrow> nat \<Rightarrow> nat option \<times> nat" where
  "try_servers cs start 0 starts = (None, starts)"
| "try_servers cs start (Suc k) starts =
     (let starts' = (starts + 1) mod length cs
      in if cs ! starts'
         then case start starts' of
                Some (Inr (index1, _)) \<Rightarrow> (Some index1, starts')
              | _ \<Rightarrow> try_servers cs start k starts'
         else try_servers cs start k starts')"

fun await_agreement :: "raft_entry \<Rightarrow> nat \<Rightarrow> nat \<Rightarrow> storage option list \<Rightarrow> bool option" where
  "await_agreement cmd expected index [] = Some False"
| "await_agreement cmd expected index (s # ss) =
     (case fst (n_committed s index) of
        None \<Rightarrow> None
      | Some (nd, cmd1) \<Rightarrow>
          if nd > 0 \<and> nd \<ge> expected \<and> cmd1 = Some cmd then Some True else await_agreement cmd expected index ss)"

text \<open>The result, with the indices that peers gave to the command.\<close>

fun one_loop :: "bool list \<Rightarrow> raft_entry \<Rightarrow> nat \<Rightarrow> bool \<Rightarrow> 'e round list \<Rightarrow> nat \<Rightarrow> nat option \<times> nat list" where
  "one_loop cs cmd expected retry [] starts = (None, [])"
| "one_loop cs cmd expected retry (r # rs) starts =
     (case try_servers cs (starting r) (length cs) starts of
        (None, starts') \<Rightarrow> one_loop cs cmd expected retry rs starts'
      | (Some index, starts') \<Rightarrow>
          (case await_agreement cmd expected index (polled r) of
             None \<Rightarrow> (None, [index])
           | Some True \<Rightarrow> (Some index, [index])
           | Some False \<Rightarrow>
               if \<not> retry then (None, [index])
               else (case one_loop cs cmd expected retry rs starts' of (res, subs) \<Rightarrow> (res, index # subs))))"

definition one :: "bool list \<Rightarrow> raft_entry \<Rightarrow> nat \<Rightarrow> bool \<Rightarrow> 'e round list \<Rightarrow> nat option \<times> nat list" where
  "one cs cmd expected retry rs = one_loop cs cmd expected retry rs 0"

subsection \<open>What the storage accepts_cmd\<close>

text \<open>The entries that a sequence of messages commits: peer, index and entry.\<close>

definition commits :: "(byte list \<Rightarrow> ('e, raft_entry) outcome) \<Rightarrow> (nat \<times> apply_msg) list \<Rightarrow> (nat \<times> nat \<times> raft_entry) list" where
  "commits dec ms =
     concat (map (\<lambda>(i, m). if command_valid m then (case dec (command m) of Ok e \<Rightarrow> [(i, command_index m, e)] | _ \<Rightarrow> []) else []) ms)"

definition decodable :: "(byte list \<Rightarrow> ('e, raft_entry) outcome) \<Rightarrow> (nat \<times> apply_msg) list \<Rightarrow> bool" where
  "decodable dec ms \<longleftrightarrow> (\<forall>(i, m) \<in> set ms. command_valid m \<longrightarrow> (\<exists>e. dec (command m) = Ok e))"

text \<open>State-machine safety: no index gets two entries, and a peer commits an index after the one before it.\<close>

definition fits :: "(nat \<times> nat \<times> raft_entry) list \<Rightarrow> nat \<times> nat \<times> raft_entry \<Rightarrow> bool" where
  "fits cs c = (case c of (i, index, e) \<Rightarrow>
     (\<forall>j e'. (j, index, e') \<in> set cs \<longrightarrow> e' = e) \<and> (index > 1 \<longrightarrow> (\<exists>e'. (i, index - 1, e') \<in> set cs)))"

definition commit_safe :: "(nat \<times> nat \<times> raft_entry) list \<Rightarrow> bool" where
  "commit_safe cs \<longleftrightarrow> (\<forall>k < length cs. fits (take k cs) (cs ! k))"

definition recorded :: "nat \<Rightarrow> (nat \<times> nat \<times> raft_entry) list \<Rightarrow> storage \<Rightarrow> bool" where
  "recorded n cs st \<longleftrightarrow>
     length (st_logs st) = n \<and> (\<forall>i < n. \<forall>index e. (st_logs st ! i) index = Some e \<longleftrightarrow> (i, index, e) \<in> set cs) \<and>
     (\<forall>j index e j' e'. (j, index, e) \<in> set cs \<longrightarrow> (j', index, e') \<in> set cs \<longrightarrow> e = e') \<and>
     (\<forall>c \<in> set cs. fst c < n \<and> fst (snd c) \<le> max_index st)"

lemma commit_safe_snoc: "commit_safe (cs @ [c]) \<longleftrightarrow> commit_safe cs \<and> fits cs c"
  by (auto simp: commit_safe_def less_Suc_eq nth_append)

lemma commit_safe_Nil [simp]: "commit_safe []"
  by (simp add: commit_safe_def)

lemma recorded_new: "recorded n [] (storage_new n)"
  by (simp add: recorded_def storage_new_def)

lemma recordedD:
  assumes "recorded n cs st"
  shows "length (st_logs st) = n"
    and "j < n \<Longrightarrow> (st_logs st ! j) k = Some e \<longleftrightarrow> (j, k, e) \<in> set cs"
    and "(j, k, e) \<in> set cs \<Longrightarrow> (j', k, e') \<in> set cs \<Longrightarrow> e = e'"
    and "(j, k, e) \<in> set cs \<Longrightarrow> j < n" "(j, k, e) \<in> set cs \<Longrightarrow> k \<le> max_index st"
proof -
  show "e = e'" if "(j, k, e) \<in> set cs" "(j', k, e') \<in> set cs"
    using assms that unfolding recorded_def by blast
qed (use assms in \<open>auto simp: recorded_def\<close>)

lemma conflict_iff:
  assumes "recorded n cs st"
  shows "list_ex (\<lambda>log. case log index of Some old \<Rightarrow> old \<noteq> e | None \<Rightarrow> False) (st_logs st) \<longleftrightarrow> (\<exists>j e'. (j, index, e') \<in> set cs \<and> e' \<noteq> e)"
proof -
  have "list_ex (\<lambda>log. case log index of Some old \<Rightarrow> old \<noteq> e | None \<Rightarrow> False) (st_logs st) \<longleftrightarrow>
      (\<exists>j < n. \<exists>e'. (st_logs st ! j) index = Some e' \<and> e' \<noteq> e)"
    unfolding list_ex_iff Bex_def in_set_conv_nth recordedD(1)[OF assms] by (fastforce split: option.splits)
  also have "\<dots> \<longleftrightarrow> (\<exists>j e'. (j, index, e') \<in> set cs \<and> e' \<noteq> e)"
    using recordedD(2,4)[OF assms] by blast
  finally show ?thesis .
qed

lemma apply_entry_fits:
  assumes r: "recorded n cs st" and i: "i < n"
  shows "apply_entry i index e st \<noteq> None \<longleftrightarrow> fits cs (i, index, e)"
proof -
  have l: "length (st_logs st) = n" using r by (simp add: recorded_def)
  have "(st_logs st ! i) (index - 1) = None \<longleftrightarrow> (\<nexists>e'. (i, index - 1, e') \<in> set cs)"
    using recordedD(2)[OF r i, of "index - 1"] by (cases "(st_logs st ! i) (index - 1)") auto
  then show ?thesis using i l by (auto simp: apply_entry_def conflict_iff[OF r] fits_def)
qed

lemma apply_entry_recorded:
  assumes r: "recorded n cs st" and i: "i < n" and a: "apply_entry i index e st = Some st'"
  shows "recorded n (cs @ [(i, index, e)]) st'"
proof -
  have f: "fits cs (i, index, e)" using a apply_entry_fits[OF r i] by auto
  have l: "length (st_logs st) = n" using r by (simp add: recorded_def)
  have st': "st' = st\<lparr>st_logs := (st_logs st)[i := (st_logs st ! i)(index \<mapsto> e)],
      max_index := (if index > max_index st then index else max_index st)\<rparr>"
    using a by (simp add: apply_entry_def split: if_splits)
  have "(st_logs st' ! j) k = Some e' \<longleftrightarrow> (j, k, e') \<in> set (cs @ [(i, index, e)])" if "j < n" for j k e'
    using that recordedD(2)[OF r, of j k e'] f l i unfolding st' fits_def by (auto simp: nth_list_update)
  moreover have "d = d'" if "(j, k, d) \<in> set (cs @ [(i, index, e)])" "(j', k, d') \<in> set (cs @ [(i, index, e)])" for j k d j' d'
    using that recordedD(3)[OF r, of j k d j' d'] f unfolding fits_def by auto
  moreover have "\<forall>c \<in> set (cs @ [(i, index, e)]). fst c < n \<and> fst (snd c) \<le> max_index st'"
    using recordedD(4,5)[OF r] i unfolding st' by fastforce
  ultimately show ?thesis using l unfolding recorded_def by (simp add: st')
qed

lemma commit_safe_prefix: "commit_safe (xs @ ys) \<Longrightarrow> commit_safe xs"
proof (induction ys rule: rev_induct)
  case (snoc y ys)
  then show ?case using commit_safe_snoc[of "xs @ ys" y] by simp
qed simp

lemma commits_simps [simp]:
  "commits dec [] = []"
  "commits dec ((i, m) # ms) =
     (if command_valid m then (case dec (command m) of Ok e \<Rightarrow> [(i, command_index m, e)] | _ \<Rightarrow> []) else []) @ commits dec ms"
  by (simp_all add: commits_def)

lemma decodable_simps [simp]:
  "decodable dec []"
  "decodable dec ((i, m) # ms) \<longleftrightarrow> (command_valid m \<longrightarrow> (\<exists>e. dec (command m) = Ok e)) \<and> decodable dec ms"
  by (auto simp: decodable_def)

lemma apply_many_safe:
  assumes "recorded n cs st" "commit_safe cs" "\<forall>(i, m) \<in> set ms. i < n"
  shows "fst (apply_many dec ms (Some st)) \<longleftrightarrow> decodable dec ms \<and> commit_safe (cs @ commits dec ms)"
  using assms
proof (induction ms arbitrary: cs st)
  case (Cons im ms)
  obtain i m where im: "im = (i, m)" by (cases im)
  have i: "i < n" using Cons.prems im by simp
  have rest: "\<forall>(i, m) \<in> set ms. i < n" using Cons.prems by simp
  show ?case
  proof (cases "command_valid m \<and> (\<exists>e. dec (command m) = Ok e)")
    case True
    then obtain e where e: "dec (command m) = Ok e" and v: "command_valid m" by blast
    let ?c = "(i, command_index m, e)"
    show ?thesis
    proof (cases "apply_entry i (command_index m) e st")
      case None
      then have "\<not> commit_safe (cs @ [?c])" using apply_entry_fits[OF Cons.prems(1) i] commit_safe_snoc by blast
      then have "\<not> commit_safe (cs @ ?c # commits dec ms)" using commit_safe_prefix[of "cs @ [?c]" "commits dec ms"] by auto
      then show ?thesis by (simp add: im apply_one_def e v None)
    next
      case (Some st')
      have "commit_safe (cs @ [?c])" using Cons.prems(2) apply_entry_fits[OF Cons.prems(1) i] Some commit_safe_snoc by blast
      from Cons.IH[OF apply_entry_recorded[OF Cons.prems(1) i Some] this rest] show ?thesis
        by (simp add: im apply_one_def e v Some)
    qed
  next
    case False
    then show ?thesis using Cons.IH[OF Cons.prems(1,2) rest] by (auto simp: im apply_one_def split: outcome.splits)
  qed
qed simp

lemma apply_many_recorded:
  assumes "recorded n cs st" "\<forall>(i, m) \<in> set ms. i < n" "apply_many dec ms (Some st) = (True, s)"
  shows "\<exists>st'. s = Some st' \<and> recorded n (cs @ commits dec ms) st'"
  using assms
proof (induction ms arbitrary: cs st)
  case (Cons im ms)
  obtain i m where im: "im = (i, m)" by (cases im)
  have i: "i < n" and rest: "\<forall>(i, m) \<in> set ms. i < n" using Cons.prems im by simp_all
  show ?case
  proof (cases "command_valid m")
    case True
    then obtain e st' where e: "dec (command m) = Ok e" "apply_entry i (command_index m) e st = Some st'"
        and r: "apply_many dec ms (Some st') = (True, s)"
      using Cons.prems(3) by (auto simp: im apply_one_def split: outcome.splits option.splits)
    show ?thesis using Cons.IH[OF apply_entry_recorded[OF Cons.prems(1) i e(2)] rest r] True e by (simp add: im)
  next
    case False
    then show ?thesis using Cons.IH[OF Cons.prems(1) rest] Cons.prems(3) by (simp add: im apply_one_def)
  qed
qed auto

lemma n_committed_agree:
  assumes "\<forall>log \<in> set logs. \<forall>d. log index = Some d \<longrightarrow> d = e" "cnt = 0 \<and> cmd = None \<or> cnt > 0 \<and> cmd = Some e"
  shows "n_committed_loop index logs cnt cmd =
    (let k = cnt + length (filter (\<lambda>log. log index \<noteq> None) logs) in Some (k, if k = 0 then None else Some e))"
  using assms
proof (induction logs arbitrary: cnt cmd)
  case (Cons log logs)
  then show ?case by (cases "log index") (auto simp: Let_def)
qed (auto simp: Let_def)

lemma n_committed_recorded:
  assumes r: "recorded n cs st"
  shows "\<exists>v. n_committed (Some st) index = (Some (card {i. \<exists>e. (i, index, e) \<in> set cs}, v), Some st) \<and>
    (\<forall>e. v = Some e \<longleftrightarrow> (\<exists>i. (i, index, e) \<in> set cs))"
proof -
  note d = recordedD[OF r]
  obtain e where e: "\<And>i e'. (i, index, e') \<in> set cs \<Longrightarrow> e' = e" using d(3) by metis
  have "\<forall>log \<in> set (st_logs st). \<forall>d. log index = Some d \<longrightarrow> d = e"
    using d(1,2) e by (metis in_set_conv_nth)
  note loop = n_committed_agree[OF this, of 0 None]
  have "length (filter (\<lambda>log. log index \<noteq> None) (st_logs st)) = card {i. i < n \<and> (st_logs st ! i) index \<noteq> None}"
    by (simp add: length_filter_conv_card d(1))
  also have "{i. i < n \<and> (st_logs st ! i) index \<noteq> None} = {i. \<exists>e. (i, index, e) \<in> set cs}" using d(2,4) by auto
  finally have c: "length (filter (\<lambda>log. log index \<noteq> None) (st_logs st)) = card {i. \<exists>e. (i, index, e) \<in> set cs}" .
  have "finite {i. \<exists>e. (i, index, e) \<in> set cs}" by (rule finite_subset[of _ "{..<n}"]) (auto dest: d(4))
  then have z: "card {i. \<exists>e. (i, index, e) \<in> set cs} = 0 \<longleftrightarrow> (\<nexists>i e. (i, index, e) \<in> set cs)" by auto
  let ?v = "if card {i. \<exists>e. (i, index, e) \<in> set cs} = 0 then None else Some e"
  have "storage_n_committed st index = Some (card {i. \<exists>e. (i, index, e) \<in> set cs}, ?v)"
    using loop unfolding storage_n_committed_def c Let_def add_0 by blast
  then have "n_committed (Some st) index = (Some (card {i. \<exists>e. (i, index, e) \<in> set cs}, ?v), Some st)"
    by (simp add: n_committed_def)
  moreover have "?v = Some d \<longleftrightarrow> (\<exists>i. (i, index, d) \<in> set cs)" for d using e z by auto
  ultimately show ?thesis by blast
qed

subsection \<open>What the checks on leaders and terms accept\<close>

definition claims :: "bool list \<Rightarrow> (nat \<Rightarrow> rstate option) \<Rightarrow> (nat \<times> nat) set" where
  "claims cs view = {(rs_term s, i) | s i. i < length cs \<and> cs ! i \<and> view i = Some s \<and> rs_is_leader s}"

definition present :: "bool list \<Rightarrow> (nat \<Rightarrow> rstate option) \<Rightarrow> bool" where
  "present cs view \<longleftrightarrow> (\<forall>i < length cs. cs ! i \<longrightarrow> view i \<noteq> None)"

definition leader_pairs :: "leaders \<Rightarrow> (nat \<times> nat) set" where
  "leader_pairs ls = {(t, i) | t i is. (t, is) \<in> set ls \<and> i \<in> set is}"

text \<open>Keys are distinct, vectors are not empty and hold no peer twice.\<close>

definition leaders_wf :: "nat \<Rightarrow> leaders \<Rightarrow> bool" where
  "leaders_wf k ls \<longleftrightarrow> distinct (map fst ls) \<and> (\<forall>(t, is) \<in> set ls. is \<noteq> [] \<and> distinct is \<and> (\<forall>i \<in> set is. i < k))"

lemma push_keys: "fst ` set (push_leader t i ls) = insert t (fst ` set ls)"
  by (induction t i ls rule: push_leader.induct) auto

lemma push_wf: "leaders_wf i ls \<Longrightarrow> leaders_wf (Suc i) (push_leader t i ls)"
proof (induction t i ls rule: push_leader.induct)
  case (2 t i t' is' ls)
  then show ?case using push_keys[of t i ls] by (fastforce simp: leaders_wf_def)
qed (simp add: leaders_wf_def)

lemma entries_Cons [simp]: "leader_pairs ((t, is) # ls) = (\<lambda>i. (t, i)) ` set is \<union> leader_pairs ls" "leader_pairs [] = {}"
  by (auto simp: leader_pairs_def)

lemma push_entries: "leader_pairs (push_leader t i ls) = insert (t, i) (leader_pairs ls)"
  by (induction t i ls rule: push_leader.induct) auto

lemma wf_mono: "leaders_wf k ls \<Longrightarrow> leaders_wf (Suc k) ls"
  by (fastforce simp: leaders_wf_def)

lemma claims_from:
  "{(rs_term s, j) | s j. i \<le> j \<and> j < i + length (c # cs) \<and> (c # cs) ! (j - i) \<and> view j = Some s \<and> rs_is_leader s} =
   (if c then {(rs_term s, i) | s. view i = Some s \<and> rs_is_leader s} else {}) \<union>
   {(rs_term s, j) | s j. Suc i \<le> j \<and> j < Suc i + length cs \<and> cs ! (j - Suc i) \<and> view j = Some s \<and> rs_is_leader s}"
  (is "?A = ?B \<union> ?C")
proof (intro set_eqI)
  fix x
  show "x \<in> ?A \<longleftrightarrow> x \<in> ?B \<union> ?C"
  proof (cases "snd x = i")
    case True
    then show ?thesis by (cases x) auto
  next
    case False
    then have "(c # cs) ! (snd x - i) = cs ! (snd x - Suc i)" if "snd x \<ge> i"
      using that by (simp add: nth_Cons' Suc_diff_Suc)
    then show ?thesis using False by (cases x) auto
  qed
qed

lemma collect_leaders_spec:
  assumes "leaders_wf i ls"
  shows "(case collect_leaders view i cs ls of
      None \<Rightarrow> \<exists>j < length cs. cs ! j \<and> view (i + j) = None
    | Some ls' \<Rightarrow> (\<forall>j < length cs. cs ! j \<longrightarrow> view (i + j) \<noteq> None) \<and> leaders_wf (i + length cs) ls' \<and>
        leader_pairs ls' = leader_pairs ls \<union>
          {(rs_term s, j) | s j. i \<le> j \<and> j < i + length cs \<and> cs ! (j - i) \<and> view j = Some s \<and> rs_is_leader s})"
  using assms
proof (induction cs arbitrary: i ls)
  case (Cons c cs)
  have all: "(\<forall>j < length (c # cs). (c # cs) ! j \<longrightarrow> view (i + j) \<noteq> None) \<longleftrightarrow>
      (c \<longrightarrow> view i \<noteq> None) \<and> (\<forall>j < length cs. cs ! j \<longrightarrow> view (Suc i + j) \<noteq> None)"
    by (auto simp: less_Suc_eq_0_disj)
  show ?case
  proof (cases "c \<and> view i = None")
    case True
    then show ?thesis by auto
  next
    case False
    define ls1 where "ls1 = (if c then case view i of Some s \<Rightarrow> if rs_is_leader s then push_leader (rs_term s) i ls else ls | None \<Rightarrow> ls else ls)"
    have w: "leaders_wf (Suc i) ls1" using Cons.prems by (auto simp: ls1_def push_wf wf_mono split: option.split)
    have e: "leader_pairs ls1 = leader_pairs ls \<union> (if c then {(rs_term s, i) | s. view i = Some s \<and> rs_is_leader s} else {})"
      by (auto simp: ls1_def push_entries split: option.split)
    have s: "collect_leaders view i (c # cs) ls = collect_leaders view (Suc i) cs ls1"
      using False by (auto simp: ls1_def split: option.split)
    show ?thesis
    proof (cases "collect_leaders view (Suc i) cs ls1")
      case None
      then show ?thesis using Cons.IH[OF w] s by (auto intro: exI[of _ "Suc _"])
    next
      case (Some ls')
      then show ?thesis using Cons.IH[OF w] False unfolding s all claims_from e by (simp add: Un_assoc)
    qed
  qed
qed auto

lemma collect_leaders_claims:
  "(case collect_leaders view 0 cs [] of
      None \<Rightarrow> \<not> present cs view
    | Some ls \<Rightarrow> present cs view \<and> leaders_wf (length cs) ls \<and> leader_pairs ls = claims cs view)"
proof -
  have w: "leaders_wf 0 []" by (simp add: leaders_wf_def)
  show ?thesis using collect_leaders_spec[OF w, of cs view] by (auto simp: present_def claims_def split: option.splits)
qed

lemma last_term_spec:
  "last_term_with_leader ls t0 = (if \<exists>x \<in> set ls. length (snd x) > 1 then None else Some (Max (insert t0 (fst ` set ls))))"
proof (induction ls arbitrary: t0)
  case (Cons x ls)
  have "Max (insert t0 (fst ` set (x # ls))) = Max (insert (if fst x > t0 then fst x else t0) (fst ` set ls))"
    by (cases "ls = []") auto
  then show ?case using Cons by (cases x) simp
qed simp

definition one_per_term :: "(nat \<times> nat) set \<Rightarrow> bool" where
  "one_per_term S \<longleftrightarrow> (\<forall>t i j. (t, i) \<in> S \<longrightarrow> (t, j) \<in> S \<longrightarrow> i = j)"

definition elected :: "(nat \<times> nat) set \<Rightarrow> nat \<Rightarrow> bool" where
  "elected S l \<longleftrightarrow> one_per_term S \<and> (\<exists>t. (t, l) \<in> S \<and> (\<forall>t' i. (t', i) \<in> S \<longrightarrow> t' \<le> t))"

lemma wf_single:
  assumes "leaders_wf k ls"
  shows "(\<exists>x \<in> set ls. length (snd x) > 1) \<longleftrightarrow> \<not> one_per_term (leader_pairs ls)"
proof
  assume "\<exists>x \<in> set ls. length (snd x) > 1"
  then obtain t as where "(t, as) \<in> set ls" "length as > 1" by auto
  then obtain a b bs where m: "(t, a # b # bs) \<in> set ls" by (cases as; cases "tl as") auto
  then have "a \<noteq> b" using assms by (auto simp: leaders_wf_def)
  then show "\<not> one_per_term (leader_pairs ls)" using m by (fastforce simp: one_per_term_def leader_pairs_def)
next
  assume "\<not> one_per_term (leader_pairs ls)"
  then obtain t i j as bs where m: "(t, as) \<in> set ls" "i \<in> set as" "(t, bs) \<in> set ls" "j \<in> set bs" "i \<noteq> j"
    by (auto simp: one_per_term_def leader_pairs_def)
  then have "as = bs" using assms by (meson eq_key_imp_eq_value leaders_wf_def)
  then have "card {i, j} \<le> card (set as)" using m by (intro card_mono) auto
  then have "length as > 1" using m(5) card_length[of as] by simp
  then show "\<exists>x \<in> set ls. length (snd x) > 1" using m(1) by force
qed

lemma wf_keys: "leaders_wf k ls \<Longrightarrow> fst ` set ls = fst ` leader_pairs ls"
proof (intro equalityI subsetI)
  fix t
  assume w: "leaders_wf k ls" and "t \<in> fst ` set ls"
  then obtain as where m: "(t, as) \<in> set ls" by auto
  then obtain i bs where "as = i # bs" using w by (cases as) (auto simp: leaders_wf_def)
  then have "(t, i) \<in> leader_pairs ls" using m by (auto simp: leader_pairs_def)
  then show "t \<in> fst ` leader_pairs ls" by (metis fst_conv imageI)
next
  fix t
  assume "t \<in> fst ` leader_pairs ls"
  then obtain as where "(t, as) \<in> set ls" by (auto simp: leader_pairs_def)
  then show "t \<in> fst ` set ls" by (metis fst_conv imageI)
qed

lemma wf_lookup:
  assumes w: "leaders_wf k ls" and s: "one_per_term (leader_pairs ls)" and t: "t \<in> fst ` set ls"
  shows "\<exists>l. map_of ls t = Some [l] \<and> (\<forall>i. (t, i) \<in> leader_pairs ls \<longleftrightarrow> i = l)"
proof -
  obtain as where m: "(t, as) \<in> set ls" using t by auto
  have "as \<noteq> []" using w m by (auto simp: leaders_wf_def)
  moreover have "\<not> length as > 1" using wf_single[OF w] s m by (auto dest: bspec[of _ _ "(t, as)"])
  ultimately obtain l where l: "as = [l]" by (cases as) auto
  have d: "distinct (map fst ls)" using w by (simp add: leaders_wf_def)
  then have "map_of ls t = Some [l]" using m l by simp
  moreover have "(t, i) \<in> leader_pairs ls \<longleftrightarrow> i = l" for i
  proof
    assume "(t, i) \<in> leader_pairs ls"
    then obtain bs where "(t, bs) \<in> set ls" "i \<in> set bs" by (auto simp: leader_pairs_def)
    then show "i = l" using eq_key_imp_eq_value[OF d m] l by fastforce
  next
    assume "i = l"
    then show "(t, i) \<in> leader_pairs ls" using m l by (auto simp: leader_pairs_def)
  qed
  ultimately show ?thesis by blast
qed

lemma pass_elects:
  assumes w: "leaders_wf k ls" and e: "leader_pairs ls = S" and o: "mset (ord ls) = mset ls" and n: "ls \<noteq> []"
  shows "(case last_term_with_leader (ord ls) 0 of
      None \<Rightarrow> None | Some t \<Rightarrow> (case map_of ls t of Some (l # _) \<Rightarrow> Some l | _ \<Rightarrow> None)) = Some l \<longleftrightarrow> elected S l"
proof (cases "one_per_term S")
  case False
  then show ?thesis using wf_single[OF w] mset_eq_setD[OF o] by (simp add: last_term_spec elected_def e)
next
  case True
  define t where "t = Max (insert 0 (fst ` set ls))"
  have "t = Max (fst ` set ls)" using n by (simp add: t_def)
  then have t: "t \<in> fst ` set ls" "\<And>t'. t' \<in> fst ` set ls \<Longrightarrow> t' \<le> t" using n by auto
  obtain l' where l': "map_of ls t = Some [l']" "\<And>i. (t, i) \<in> S \<longleftrightarrow> i = l'"
    using wf_lookup[OF w _ t(1)] True e by auto
  have k: "t' \<le> t" if "(t', i) \<in> S" for t' i using t(2) that wf_keys[OF w] e by force
  have "elected S l \<longleftrightarrow> l = l'"
  proof
    assume "elected S l"
    then obtain t' where "(t', l) \<in> S" "t \<le> t'" using l'(2)[of l'] by (auto simp: elected_def)
    then show "l = l'" using k[of t' l] l'(2) by simp
  qed (use True k l'(2) in \<open>auto simp: elected_def\<close>)
  moreover have "last_term_with_leader (ord ls) 0 = Some t"
    using True wf_single[OF w] mset_eq_setD[OF o] by (simp add: last_term_spec t_def e)
  ultimately show ?thesis using l'(1) by auto
qed

lemma check_leader_iters_spec:
  assumes o: "\<And>ls. mset (ord ls) = mset ls"
  shows "check_leader_iters ord cs view k t [] = Some l \<longleftrightarrow>
    (\<exists>u. t \<le> u \<and> u < t + k \<and> (\<forall>v. t \<le> v \<and> v \<le> u \<longrightarrow> present cs (view v)) \<and>
      (\<forall>v. t \<le> v \<and> v < u \<longrightarrow> claims cs (view v) = {}) \<and> elected (claims cs (view u)) l)"
proof (induction k arbitrary: t)
  case (Suc k)
  have split: "(\<exists>u. t \<le> u \<and> u < t + Suc k \<and> P u) \<longleftrightarrow> P t \<or> (\<exists>u. Suc t \<le> u \<and> u < Suc t + k \<and> P u)"
    (is "?L \<longleftrightarrow> ?R") for P
  proof
    assume ?L
    then obtain u where "t \<le> u" "u < t + Suc k" "P u" by blast
    then show ?R by (cases "u = t") (auto intro!: exI[of _ u])
  qed (auto intro: exI[of _ t] dest: Suc_leD)
  have from_t: "(\<forall>v. t \<le> v \<and> v \<le> u \<longrightarrow> P v) \<longleftrightarrow> P t \<and> (\<forall>v. Suc t \<le> v \<and> v \<le> u \<longrightarrow> P v)"
      "(\<forall>v. t \<le> v \<and> v < u \<longrightarrow> P v) \<longleftrightarrow> P t \<and> (\<forall>v. Suc t \<le> v \<and> v < u \<longrightarrow> P v)" if "Suc t \<le> u" for u P
    using that unfolding Suc_le_eq le_less[of t] by auto
  have none: "\<not> elected {} l" by (simp add: elected_def)
  note c = collect_leaders_claims[of cs "view t"]
  show ?case
  proof (cases "collect_leaders (view t) 0 cs []")
    case None
    then have "\<not> present cs (view t)" using c by simp
    then show ?thesis unfolding split using None by (auto simp: from_t(1))
  next
    case (Some ls)
    then have w: "leaders_wf (length cs) ls" "leader_pairs ls = claims cs (view t)" and p: "present cs (view t)" using c by simp_all
    show ?thesis
    proof (cases "ls = []")
      case True
      then have em: "claims cs (view t) = {}" using w(2) by simp
      have "ord [] = []" using o[of "[]"] by simp
      then have eq: "check_leader_iters ord cs view (Suc k) t [] = check_leader_iters ord cs view k (Suc t) []"
        using Some True by simp
      show ?thesis unfolding eq Suc.IH split using p em none by (auto simp: from_t cong: conj_cong)
    next
      case False
      then have ne: "claims cs (view t) \<noteq> {}" using wf_keys[OF w(1)] w(2) by auto
      have eq: "check_leader_iters ord cs view (Suc k) t [] =
          (case last_term_with_leader (ord ls) 0 of
             None \<Rightarrow> None | Some t \<Rightarrow> (case map_of ls t of Some (l # _) \<Rightarrow> Some l | _ \<Rightarrow> None))"
        using Some False by (simp split: option.split)
      have "check_leader_iters ord cs view (Suc k) t [] = Some l \<longleftrightarrow> elected (claims cs (view t)) l"
        unfolding eq by (rule pass_elects[where ord = ord and ls = ls, OF w o False])
      then show ?thesis unfolding split using p ne by (auto simp: from_t(2))
    qed
  qed
qed simp

fun connected_terms :: "(nat \<Rightarrow> rstate option) \<Rightarrow> nat \<Rightarrow> bool list \<Rightarrow> nat list" where
  "connected_terms view i [] = []"
| "connected_terms view i (c # cs) =
     (if c then [rs_term (the (view i))] else []) @ connected_terms view (Suc i) cs"

text \<open>What the check of terms really asks: the terms after the leading zeros are equal.\<close>

definition agreed :: "nat list \<Rightarrow> nat \<Rightarrow> bool" where
  "agreed ts t \<longleftrightarrow> (let us = dropWhile (\<lambda>x. x = 0) ts in set us \<subseteq> {t} \<and> (us = [] \<longrightarrow> t = 0))"

lemma present_from:
  "(\<forall>j < length (c # cs). (c # cs) ! j \<longrightarrow> view (i + j) \<noteq> None) \<longleftrightarrow>
    (c \<longrightarrow> view i \<noteq> None) \<and> (\<forall>j < length cs. cs ! j \<longrightarrow> view (Suc i + j) \<noteq> None)"
  by (auto simp: less_Suc_eq_0_disj)

lemma check_terms_loop_spec:
  "check_terms_loop view i cs tm = Some t \<longleftrightarrow>
    (\<forall>j < length cs. cs ! j \<longrightarrow> view (i + j) \<noteq> None) \<and>
    (if tm = 0 then agreed (connected_terms view i cs) t
     else t = tm \<and> set (connected_terms view i cs) \<subseteq> {tm})"
proof (induction cs arbitrary: i tm t)
  case (Cons c cs)
  show ?case
  proof (cases "c \<and> view i = None")
    case True
    then show ?thesis unfolding present_from by simp
  next
    case False
    show ?thesis
    proof (cases c)
      case True
      then obtain s where s: "view i = Some s" using False by auto
      have z: "agreed (x # ts) t \<longleftrightarrow> (if x = 0 then agreed ts t else t = x \<and> set ts \<subseteq> {x})" for x ts
        by (auto simp: agreed_def Let_def)
      show ?thesis unfolding present_from using True
        by (cases "tm = 0"; cases "rs_term s = 0"; cases "rs_term s = tm") (simp_all add: Cons.IH s z conj_commute)
    next
      case no: False
      then show ?thesis unfolding present_from by (simp add: Cons.IH)
    qed
  qed
qed (auto simp: agreed_def)

lemma check_no_leader_loop_spec:
  "check_no_leader_loop view i cs = Some () \<longleftrightarrow>
    (\<forall>j < length cs. cs ! j \<longrightarrow> (\<exists>s. view (i + j) = Some s \<and> \<not> rs_is_leader s))"
proof (induction cs arbitrary: i)
  case (Cons c cs)
  then show ?case by (auto simp: less_Suc_eq_0_disj split: option.split)
qed simp

subsection \<open>What the waiting loops promise\<close>

text \<open>The longest time \<open>k\<close> more iterations can sleep, when the next one sleeps \<open>to\<close> milliseconds.\<close>

fun sleep_bound :: "nat \<Rightarrow> nat \<Rightarrow> nat" where
  "sleep_bound 0 to = 0"
| "sleep_bound (Suc k) to = to + sleep_bound k (if to < 1000 then to * 2 else to)"

definition reached :: "(nat \<Rightarrow> storage option) \<Rightarrow> nat \<Rightarrow> nat \<Rightarrow> raft_entry option \<Rightarrow> bool" where
  "reached polls index n cmd \<longleftrightarrow> (\<exists>t nd. fst (n_committed (polls t) index) = Some (nd, cmd) \<and> nd \<ge> n)"

lemma wait_loop_spec:
  "case wait_loop polls views index n start_term k t to slept of
     Inl (r, d) \<Rightarrow> d \<le> slept + sleep_bound k to \<and> (r = None \<or> r = Some None \<and> (\<exists>u. moved_on start_term (views u)))
   | Inr (u, d) \<Rightarrow> d \<le> slept + sleep_bound k to"
proof (induction k arbitrary: t to slept)
  case (Suc k)
  define to' where "to' = (if to < 1000 then to * 2 else to)"
  show ?case
  proof (cases "fst (n_committed (polls t) index)")
    case (Some p)
    then obtain nd cmd where p: "fst (n_committed (polls t) index) = Some (nd, cmd)" by (cases p) auto
    show ?thesis
      using Suc[where t = "Suc t" and to = to' and slept = "slept + to"]
      unfolding wait_loop.simps sleep_bound.simps p to'_def[symmetric] add.assoc[symmetric]
      by (cases "nd \<ge> n"; cases "moved_on start_term (views t)") auto
  qed simp
qed simp

lemma sleep_bound_numeral: "sleep_bound (numeral v) to = to + sleep_bound (pred_numeral v) (if to < 1000 then to * 2 else to)"
  by (simp add: numeral_eq_Suc)

lemma sleep_bound_30: "sleep_bound 30 10 = 30710"
  by (simp add: sleep_bound_numeral)

lemma try_servers_visits:
  assumes "try_servers cs start k starts = (r, starts')" "k \<le> length cs" "starts < length cs"
  shows "starts' < length cs \<and>
    (case r of
       Some index \<Rightarrow> \<exists>i < length cs. cs ! i \<and> (\<exists>t. start i = Some (Inr (index, t)))
     | None \<Rightarrow> \<forall>d. 1 \<le> d \<and> d \<le> k \<and> cs ! ((starts + d) mod length cs) \<longrightarrow> (\<nexists>p. start ((starts + d) mod length cs) = Some (Inr p)))"
  using assms
proof (induction k arbitrary: starts)
  case (Suc k)
  define s where "s = (starts + 1) mod length cs"
  have step: "try_servers cs start (Suc k) starts =
      (if cs ! s then case start s of Some (Inr (index1, _)) \<Rightarrow> (Some index1, s) | _ \<Rightarrow> try_servers cs start k s
       else try_servers cs start k s)"
    by (simp only: try_servers.simps Let_def s_def)
  have l: "s < length cs" using Suc.prems(3) by (cases cs) (simp_all add: s_def)
  show ?case
  proof (cases "cs ! s \<and> (\<exists>p. start s = Some (Inr p))")
    case True
    then obtain index t where st: "cs ! s" "start s = Some (Inr (index, t))" by auto
    then have "r = Some index" "starts' = s" using Suc.prems(1) unfolding step by simp_all
    then show ?thesis using l st by auto
  next
    case False
    then have n: "try_servers cs start k s = (r, starts')"
      using Suc.prems(1) unfolding step by (auto split: option.splits sum.splits if_splits)
    have sh: "(s + d) mod length cs = (starts + Suc d) mod length cs" for d
      by (simp add: s_def mod_add_left_eq)
    note IH = Suc.IH[OF n _ l]
    show ?thesis
    proof (cases r)
      case None
      have I: "\<forall>d. 1 \<le> d \<and> d \<le> k \<and> cs ! ((starts + Suc d) mod length cs) \<longrightarrow> (\<nexists>p. start ((starts + Suc d) mod length cs) = Some (Inr p))"
        using IH[OF Suc_leD[OF Suc.prems(2)]] unfolding None sh option.case by (rule conjunct2)
      have "\<nexists>p. start ((starts + d) mod length cs) = Some (Inr p)"
        if d: "1 \<le> d" "d \<le> Suc k" "cs ! ((starts + d) mod length cs)" for d
      proof (cases "d = 1")
        case True
        then show ?thesis using False d(3) by (simp add: s_def)
      next
        case no: False
        then obtain e where e: "d = Suc e" "1 \<le> e" using d(1) by (cases d) auto
        have ek: "e \<le> k" using d(2) e(1) by simp
        show ?thesis unfolding e(1) by (rule I[THEN spec, THEN mp, OF conjI[OF e(2) conjI[OF ek d(3)[unfolded e(1)]]]])
      qed
      then have "\<forall>d. 1 \<le> d \<and> d \<le> Suc k \<and> cs ! ((starts + d) mod length cs) \<longrightarrow> (\<nexists>p. start ((starts + d) mod length cs) = Some (Inr p))"
        by (intro allI impI, elim conjE)
      moreover have "starts' < length cs" using IH[OF Suc_leD[OF Suc.prems(2)]] by (rule conjunct1)
      ultimately show ?thesis unfolding None option.case by (rule conjI[rotated])
    next
      case (Some index)
      have "k \<le> length cs" using Suc.prems(2) by simp
      from IH[OF this] show ?thesis unfolding Some option.case .
    qed
  qed
qed auto

definition accepts_cmd :: "bool list \<Rightarrow> 'e round \<Rightarrow> nat \<Rightarrow> bool" where
  "accepts_cmd cs r index \<longleftrightarrow> (\<exists>i < length cs. cs ! i \<and> (\<exists>t. starting r i = Some (Inr (index, t))))"

definition agreement :: "raft_entry \<Rightarrow> nat \<Rightarrow> nat \<Rightarrow> storage option \<Rightarrow> bool" where
  "agreement cmd expected index s \<longleftrightarrow>
     (\<exists>nd. fst (n_committed s index) = Some (nd, Some cmd) \<and> nd > 0 \<and> nd \<ge> expected)"

lemma round_robin:
  assumes "starts < n" "i < (n :: nat)"
  shows "\<exists>d. 1 \<le> d \<and> d \<le> n \<and> (starts + d) mod n = i"
proof (cases "starts < i")
  case True
  then show ?thesis using assms by (intro exI[of _ "i - starts"]) (simp add: Suc_le_eq)
next
  case False
  then have "starts + (n - starts + i) = n + i" using assms by simp
  moreover have "1 \<le> n - starts + i" "n - starts + i \<le> n" using False assms by linarith+
  ultimately show ?thesis using assms by (intro exI[of _ "n - starts + i"]) simp
qed

lemma try_servers_all:
  assumes "try_servers cs (starting r) (length cs) starts = (res, starts')" "starts < length cs"
  shows "starts' < length cs \<and> (case res of Some index \<Rightarrow> accepts_cmd cs r index | None \<Rightarrow> \<nexists>index. accepts_cmd cs r index)"
proof (cases res)
  case None
  have v: "\<forall>d. 1 \<le> d \<and> d \<le> length cs \<and> cs ! ((starts + d) mod length cs) \<longrightarrow>
      (\<nexists>p. starting r ((starts + d) mod length cs) = Some (Inr p))" "starts' < length cs"
    using try_servers_visits[OF assms(1) order_refl assms(2)] unfolding None option.case by (rule conjunct2, rule conjunct1)
  have "\<not> accepts_cmd cs r index" for index
  proof
    assume "accepts_cmd cs r index"
    then obtain i t where i: "i < length cs" "cs ! i" "starting r i = Some (Inr (index, t))" unfolding accepts_cmd_def by blast
    obtain d where d: "1 \<le> d \<and> d \<le> length cs" "(starts + d) mod length cs = i" using round_robin[OF assms(2) i(1)] by blast
    show False using v(1)[THEN spec, of d] d i unfolding d(2) by blast
  qed
  then show ?thesis using v(2) None by simp
next
  case (Some index)
  show ?thesis using try_servers_visits[OF assms(1) order_refl assms(2)] unfolding Some option.case accepts_cmd_def .
qed

lemma await_spec:
  "case await_agreement cmd expected index ss of
     None \<Rightarrow> \<exists>s \<in> set ss. fst (n_committed s index) = None
   | Some b \<Rightarrow> b \<longleftrightarrow> (\<exists>s \<in> set ss. agreement cmd expected index s)"
proof (induction ss)
  case (Cons s ss)
  then show ?case by (auto simp: agreement_def split: option.splits)
qed simp

lemma one_loop_sound:
  assumes "one_loop cs cmd expected retry rs starts = (Some index, subs)" "starts < length cs"
  shows "subs \<noteq> [] \<and> last subs = index \<and>
    (\<exists>r \<in> set rs. accepts_cmd cs r index \<and> (\<exists>s \<in> set (polled r). agreement cmd expected index s))"
  using assms
proof (induction rs arbitrary: starts subs)
  case (Cons r rs)
  obtain res starts' where t: "try_servers cs (starting r) (length cs) starts = (res, starts')" by (metis surj_pair)
  note v = try_servers_all[OF t Cons.prems(2)]
  show ?case
  proof (cases res)
    case None
    then show ?thesis using Cons.IH[of starts' subs] Cons.prems(1) t v by simp
  next
    case (Some k)
    have a: "accepts_cmd cs r k" using v Some by simp
    show ?thesis
    proof (cases "await_agreement cmd expected k (polled r) = Some True")
      case True
      then have "k = index" "subs = [index]" using Cons.prems(1) t Some by auto
      then show ?thesis
        using a await_spec[where cmd = cmd and expected = expected and index = k and ss = "polled r"] True by auto
    next
      case False
      then obtain subs' where "one_loop cs cmd expected retry rs starts' = (Some index, subs')" "subs = k # subs'"
        using Cons.prems(1) t Some by (auto split: option.splits bool.splits if_splits prod.splits)
      then show ?thesis using Cons.IH[of starts' subs'] v by auto
    qed
  qed
qed simp

lemma one_loop_once: "\<not> retry \<Longrightarrow> length (snd (one_loop cs cmd expected retry rs starts)) \<le> 1"
  by (induction rs arbitrary: starts) (auto split: prod.splits option.splits bool.splits)

lemma one_loop_complete:
  assumes "one_loop cs cmd expected True rs starts = (None, subs)" "starts < length cs"
    and "\<forall>r \<in> set rs. \<forall>s \<in> set (polled r). \<forall>k. fst (n_committed s k) \<noteq> None"
    and "r \<in> set rs"
  shows "(\<nexists>k. accepts_cmd cs r k) \<or> (\<exists>k. accepts_cmd cs r k \<and> (\<forall>s \<in> set (polled r). \<not> agreement cmd expected k s))"
  using assms
proof (induction rs arbitrary: starts subs)
  case (Cons r' rs)
  obtain res starts' where t: "try_servers cs (starting r') (length cs) starts = (res, starts')" by (metis surj_pair)
  note v = try_servers_all[OF t Cons.prems(2)]
  have p: "\<forall>r \<in> set rs. \<forall>s \<in> set (polled r). \<forall>k. fst (n_committed s k) \<noteq> None"
    and p': "\<forall>s \<in> set (polled r'). fst (n_committed s k) \<noteq> None" for k
    using Cons.prems(3) by auto
  show ?case
  proof (cases res)
    case None
    then have "one_loop cs cmd expected True rs starts' = (None, subs)" using Cons.prems(1) t by simp
    then have "r \<in> set rs \<Longrightarrow> ?thesis" using Cons.IH[OF _ _ p] v by blast
    then show ?thesis using Cons.prems(4) v None by auto
  next
    case (Some k)
    note w = await_spec[where cmd = cmd and expected = expected and index = k and ss = "polled r'"]
    have "await_agreement cmd expected k (polled r') \<noteq> None"
    proof
      assume "await_agreement cmd expected k (polled r') = None"
      then show False using w p'[of k] by simp
    qed
    moreover have "await_agreement cmd expected k (polled r') \<noteq> Some True" using Cons.prems(1) t Some by auto
    ultimately have f: "await_agreement cmd expected k (polled r') = Some False" by auto
    then obtain subs' where "one_loop cs cmd expected True rs starts' = (None, subs')"
      using Cons.prems(1) t Some by (auto split: prod.splits)
    then have "r \<in> set rs \<Longrightarrow> ?thesis" using Cons.IH[OF _ _ p] v by blast
    moreover have "r = r' \<Longrightarrow> ?thesis" using w f v Some by auto
    ultimately show ?thesis using Cons.prems(4) by auto
  qed
qed simp

subsection \<open>The properties\<close>

text \<open>C12. The storage checks state-machine safety and nothing else. Whatever messages the peers send, in whatever order
  the storage sees them, all of them are accepted exactly when each carries an entry, no index ever gets two
  different entries, and each peer commits an index after the one before it. As long as all are accepted
  \<^verbatim>\<open>n_committed\<close> does not panic and returns the number of peers that committed the index and their common entry.\<close>

theorem commit_monitor:
  assumes "\<forall>(i, m) \<in> set ms. i < n"
  shows "(fst (apply_many dec ms (Some (storage_new n))) \<longleftrightarrow> decodable dec ms \<and> commit_safe (commits dec ms)) \<and>
    (\<forall>s. apply_many dec ms (Some (storage_new n)) = (True, s) \<longrightarrow>
       (\<exists>v. n_committed s index = (Some (card {i. \<exists>e. (i, index, e) \<in> set (commits dec ms)}, v), s) \<and>
         (\<forall>e. v = Some e \<longleftrightarrow> (\<exists>i. (i, index, e) \<in> set (commits dec ms)))))"
proof (intro conjI allI impI)
  show "fst (apply_many dec ms (Some (storage_new n))) \<longleftrightarrow> decodable dec ms \<and> commit_safe (commits dec ms)"
    using apply_many_safe[OF recorded_new commit_safe_Nil assms] by simp
next
  fix s
  assume "apply_many dec ms (Some (storage_new n)) = (True, s)"
  then obtain st where "s = Some st" "recorded n (commits dec ms) st"
    using apply_many_recorded[OF recorded_new assms] by auto
  then show "\<exists>v. n_committed s index = (Some (card {i. \<exists>e. (i, index, e) \<in> set (commits dec ms)}, v), s) \<and>
      (\<forall>e. v = Some e \<longleftrightarrow> (\<exists>i. (i, index, e) \<in> set (commits dec ms)))"
    using n_committed_recorded by blast
qed

definition byte_entry :: "byte list \<Rightarrow> (unit, raft_entry) outcome" where
  "byte_entry bs = (case bs of [b] \<Rightarrow> Ok (REntry (ucast b)) | _ \<Rightarrow> Err ())"

definition two_peers :: "(nat \<times> apply_msg) list" where
  "two_peers =
     [(0, \<lparr>command_valid = True, command = [7], command_index = 1\<rparr>),
      (1, \<lparr>command_valid = True, command = [7], command_index = 1\<rparr>),
      (0, \<lparr>command_valid = True, command = [8], command_index = 2\<rparr>)]"

lemma two_peers_accepted: "fst (apply_many byte_entry two_peers (Some (storage_new 3)))"
  by (simp add: two_peers_def byte_entry_def apply_one_def apply_entry_def storage_new_def numeral_3_eq_3)

lemma two_peers_commits: "commits byte_entry two_peers = [(0, 1, REntry 7), (1, 1, REntry 7), (0, 2, REntry 8)]"
  by (simp add: two_peers_def byte_entry_def commits_def)

theorem commit_monitor_witness:
  "commit_safe (commits byte_entry two_peers) \<and>
   fst (n_committed (snd (apply_many byte_entry two_peers (Some (storage_new 3)))) 1) = Some (2, Some (REntry 7))"
proof -
  have b: "\<forall>(i, m) \<in> set two_peers. i < 3" by (simp add: two_peers_def)
  note m = commit_monitor[OF b, of byte_entry 1]
  obtain s where s: "apply_many byte_entry two_peers (Some (storage_new 3)) = (True, s)"
    using two_peers_accepted by (metis prod.collapse)
  then obtain v where v: "n_committed s 1 = (Some (card {i. \<exists>e. (i, 1, e) \<in> set (commits byte_entry two_peers)}, v), s)"
      "v = Some (REntry 7) \<longleftrightarrow> (\<exists>i. (i, 1, REntry 7) \<in> set (commits byte_entry two_peers))"
    using m by blast
  have "{i. \<exists>e. (i, 1, e) \<in> set (commits byte_entry two_peers)} = {0, 1}" by (auto simp: two_peers_commits)
  then show ?thesis using m two_peers_accepted s v by (auto simp: two_peers_commits)
qed

text \<open>C23. \<^verbatim>\<open>check_one_leader\<close> returns a peer exactly when, at one of its ten looks, all connected peers exist, some claim to
  be leader, no two of them for the same term, and the peer claims it for the highest term, nobody having claimed it
  at an earlier look. Otherwise it panics. The order in which the hash map is iterated does not matter.\<close>

theorem check_one_leader_exact:
  assumes "\<And>ls. mset (ord ls) = mset ls"
  shows "check_one_leader ord cs view = Some l \<longleftrightarrow>
    (\<exists>u < 10. (\<forall>v \<le> u. present cs (view v)) \<and> (\<forall>v < u. claims cs (view v) = {}) \<and> elected (claims cs (view u)) l)"
  using check_leader_iters_spec[OF assms, where t = 0 and k = 10] by (simp add: check_one_leader_def)

definition late_leader :: "nat \<Rightarrow> nat \<Rightarrow> rstate option" where
  "late_leader t i = Some \<lparr>rs_term = (if i = 2 then 4 else 3), rs_is_leader = (t = 1 \<and> i \<noteq> 0)\<rparr>"

theorem check_one_leader_exact_witness:
  "check_one_leader rev [True, True, True] late_leader = Some 2 \<and>
   (\<exists>u < 10. (\<forall>v \<le> u. present [True, True, True] (late_leader v)) \<and> (\<forall>v < u. claims [True, True, True] (late_leader v) = {}) \<and>
      elected (claims [True, True, True] (late_leader u)) 2)"
proof -
  have "check_one_leader rev [True, True, True] late_leader = Some 2"
    by (simp add: check_one_leader_def late_leader_def eval_nat_numeral)
  then show ?thesis using check_one_leader_exact[of rev "[True, True, True]" late_leader 2] by simp
qed

text \<open>\<^verbatim>\<open>check_terms\<close> means to check that everyone agrees on the term, but takes the term zero for not yet set: it
  accepts_cmd exactly when the terms of the connected peers, in their order, agree after any number of leading zeros. So
  a peer at term zero before one at a later term passes, and in the other order the check panics.\<close>

theorem check_terms_zeros:
  "check_terms cs view = Some t \<longleftrightarrow> present cs view \<and> agreed (connected_terms view 0 cs) t"
  using check_terms_loop_spec[of view 0 cs 0 t] by (simp add: check_terms_def present_def)

text \<open>\<^verbatim>\<open>wait\<close> sleeps at most 30.71 seconds. It returns an entry only if, at one of its questions, enough peers had
  committed the index with this entry, and it returns no entry only if a peer has moved to a later term or if the
  caller asked for zero peers.\<close>

theorem wait_bounded:
  "snd (wait polls views index n start_term) \<le> 30710 \<and>
   (\<forall>e. fst (wait polls views index n start_term) = Some (Some e) \<longrightarrow> reached polls index n (Some e)) \<and>
   (fst (wait polls views index n start_term) = Some None \<longrightarrow>
     (\<exists>u. moved_on start_term (views u)) \<or> reached polls index n None)"
proof -
  note l = wait_loop_spec[where polls = polls and views = views and index = index and n = n and start_term = start_term
      and k = 30 and t = 0 and to = 10 and slept = 0, unfolded sleep_bound_30]
  show ?thesis
  proof (cases "wait_loop polls views index n start_term 30 0 10 0")
    case (Inl r)
    then show ?thesis using l by (cases r) (auto simp: wait_def)
  next
    case (Inr td)
    then obtain t d where td: "wait_loop polls views index n start_term 30 0 10 0 = Inr (t, d)" by (cases td) auto
    then have "d \<le> 30710" using l by simp
    moreover have "reached polls index n cmd"
      if "fst (n_committed (polls t) index) = Some (nd, cmd)" "\<not> nd < n" for nd cmd
      using that unfolding reached_def by (intro exI[of _ t] exI[of _ nd]) simp
    ultimately show ?thesis unfolding wait_def td by (auto split: option.split)
  qed
qed

text \<open>C27. \<^verbatim>\<open>one\<close> asks every connected peer before it gives an iteration up. An index it returns was given to the command by a
  connected peer, and the storage then showed the command at this index at as many peers as expected; without
  \<^verbatim>\<open>retry\<close> at most one peer accepts_cmd the command. With \<^verbatim>\<open>retry\<close>, and as long as the storage is consistent, it fails
  only if in every iteration either no connected peer accepted the command, or one did and the expected number of
  peers was never seen.\<close>

theorem one_agreement:
  assumes "cs \<noteq> []" and "one cs cmd expected retry rs = (res, subs)"
  shows "(\<not> retry \<longrightarrow> length subs \<le> 1) \<and>
    (case res of
       Some index \<Rightarrow> subs \<noteq> [] \<and> last subs = index \<and>
         (\<exists>r \<in> set rs. accepts_cmd cs r index \<and> (\<exists>s \<in> set (polled r). agreement cmd expected index s))
     | None \<Rightarrow> retry \<longrightarrow> (\<forall>r \<in> set rs. \<forall>s \<in> set (polled r). \<forall>k. fst (n_committed s k) \<noteq> None) \<longrightarrow>
         (\<forall>r \<in> set rs. (\<nexists>k. accepts_cmd cs r k) \<or> (\<exists>k. accepts_cmd cs r k \<and> (\<forall>s \<in> set (polled r). \<not> agreement cmd expected k s))))"
proof -
  have l: "0 < length cs" using assms(1) by simp
  have o: "one_loop cs cmd expected retry rs 0 = (res, subs)" using assms(2) by (simp add: one_def)
  have once: "\<not> retry \<longrightarrow> length subs \<le> 1" using one_loop_once[of retry cs cmd expected rs 0] unfolding o by simp
  show ?thesis
  proof (cases res)
    case None
    have "(\<nexists>k. accepts_cmd cs r k) \<or> (\<exists>k. accepts_cmd cs r k \<and> (\<forall>s \<in> set (polled r). \<not> agreement cmd expected k s))"
      if "retry" "\<forall>r \<in> set rs. \<forall>s \<in> set (polled r). \<forall>k. fst (n_committed s k) \<noteq> None" "r \<in> set rs" for r
      by (rule one_loop_complete[where subs = subs and starts = 0, OF _ l that(2,3)]) (use o None that(1) in simp)
    then show ?thesis using once unfolding None option.case by blast
  next
    case (Some index)
    show ?thesis using one_loop_sound[OF o[unfolded Some] l] once unfolding Some option.case by blast
  qed
qed

definition agreeing :: "unit round list" where
  "agreeing =
     [\<lparr>starting = (\<lambda>i. Some (Inl ())), polled = []\<rparr>,
      \<lparr>starting = (\<lambda>i. if i = 1 then Some (Inr (1, 3)) else Some (Inl ())),
       polled = [Some (storage_new 3), snd (apply_many byte_entry two_peers (Some (storage_new 3)))]\<rparr>]"

theorem one_agreement_witness:
  "one [True, True, False] (REntry 7) 2 True agreeing = (Some 1, [1]) \<and>
   accepts_cmd [True, True, False] (agreeing ! 1) 1"
proof -
  have o: "one [True, True, False] (REntry 7) 2 True agreeing = (Some 1, [1])"
    by code_simp
  have "\<exists>r \<in> set agreeing. accepts_cmd [True, True, False] r 1"
    using one_agreement[OF list.discI[OF refl] o] unfolding option.case by blast
  then have "accepts_cmd [True, True, False] (agreeing ! 1) 1" by (auto simp: agreeing_def accepts_cmd_def)
  then show ?thesis using o by blast
qed

end
