(* ===== verification/LabRpc.thy ===== *)
theory LabRpc
  imports LabCodec GoStd
begin

text \<open>
  The simulated network of the labs: \<^verbatim>\<open>courses/dss/labrpc/src/\<close> with \<^verbatim>\<open>server.rs\<close>, \<^verbatim>\<open>client.rs\<close>, \<^verbatim>\<open>network.rs\<close>,
  \<^verbatim>\<open>error.rs\<close> and the \<^verbatim>\<open>service!\<close> macro of \<^verbatim>\<open>macros.rs\<close>. The processing of one request is a state machine whose states
  are its points of suspension; other threads may change the network between any two steps. Random numbers are
  arguments of the step that draws them. The endpoints are behind a mutex, so a panic while the lock is held
  poisons it, and every later \<^verbatim>\<open>lock().unwrap()\<close> panics: \<^const>\<open>None\<close> is a panic of the calling thread.
\<close>

subsection \<open>Errors\<close>

datatype 'e rpc_error =
    Unimplemented string | Encode | Decode 'e | Recv | Timeout | Stopped | Other string

datatype 'e cause = CauseEncode | CauseDecode 'e | CauseRecv

definition error_source :: "'e rpc_error \<Rightarrow> 'e cause option" where
  "error_source err =
     (case err of Encode \<Rightarrow> Some CauseEncode | Decode e \<Rightarrow> Some (CauseDecode e) | Recv \<Rightarrow> Some CauseRecv | _ \<Rightarrow> None)"

type_synonym 'e reply = "('e rpc_error, byte list) outcome"

text \<open>The future a handler returns: its result, or \<^const>\<open>None\<close> if it never completes.\<close>

type_synonym 'e handler = "byte list \<Rightarrow> 'e reply option"
type_synonym 'e factory = "string \<Rightarrow> 'e handler"

subsection \<open>Servers\<close>

record 'e builder =
  b_name :: string
  b_services :: "string \<Rightarrow> 'e factory option"

record 'e server =
  sv_name :: string
  sv_id :: nat
  sv_services :: "string \<Rightarrow> 'e factory option"

definition builder_new :: "string \<Rightarrow> 'e builder" where
  "builder_new name = \<lparr>b_name = name, b_services = (\<lambda>_. None)\<rparr>"

definition add_service :: "string \<Rightarrow> 'e factory \<Rightarrow> 'e builder \<Rightarrow> ('e rpc_error, unit) outcome \<times> 'e builder" where
  "add_service service_name factory b =
     (case b_services b service_name of
        Some _ \<Rightarrow> (Err (Other (service_name @ '' has already registered'')), b)
      | None \<Rightarrow> (Ok (), b\<lparr>b_services := (b_services b)(service_name \<mapsto> factory)\<rparr>))"

text \<open>\<open>id_alloc\<close> is the global counter of servers.\<close>

definition build :: "'e builder \<Rightarrow> nat \<Rightarrow> 'e server \<times> nat" where
  "build b id_alloc = (\<lparr>sv_name = b_name b, sv_id = id_alloc, sv_services = b_services b\<rparr>, Suc id_alloc)"

text \<open>\<^verbatim>\<open>split('.')\<close> always yields a first part; the parts after the second are ignored.\<close>

definition dispatch :: "'e server \<Rightarrow> string \<Rightarrow> byte list \<Rightarrow> 'e reply option" where
  "dispatch sv fq_name req =
     (case split_on (CHR ''.'') fq_name of
        [] \<Rightarrow> Some (Err (Unimplemented (''unknown '' @ fq_name)))
      | service_name # rest \<Rightarrow>
          (case rest of
             [] \<Rightarrow> Some (Err (Unimplemented (''unknown '' @ fq_name)))
           | method_name # _ \<Rightarrow>
               (case sv_services sv service_name of
                  Some factory \<Rightarrow> factory method_name req
                | None \<Rightarrow> Some (Err (Unimplemented (''unknown '' @ fq_name))))))"

subsection \<open>Clients\<close>

record 'e hooks =
  before_dispatch :: "string \<Rightarrow> byte list \<Rightarrow> ('e rpc_error, unit) outcome"
  after_dispatch :: "string \<Rightarrow> 'e reply \<Rightarrow> 'e reply"

record rpc =
  client_name :: string
  fq_name :: string
  req :: "byte list option"

subsection \<open>The network\<close>

text \<open>
  \<open>served\<close> is the counter of each server, by its id, and \<open>hook\<close> the cell of each client, by its name,
  which is a mutex of its own; clients are taken to have distinct names.
\<close>

record 'e net =
  reliable :: bool
  long_delays :: bool
  long_reordering :: bool
  enabled :: "string \<Rightarrow> bool option"
  servers :: "string \<Rightarrow> 'e server option option"
  connections :: "string \<Rightarrow> string option option"
  rpc_count :: nat
  poisoned :: bool
  served :: "nat \<Rightarrow> nat"
  hook :: "string \<Rightarrow> 'e hooks option"
  hook_poisoned :: "string \<Rightarrow> bool"

definition net_create :: "'e net" where
  "net_create =
     \<lparr>reliable = True, long_delays = False, long_reordering = False, enabled = (\<lambda>_. None), servers = (\<lambda>_. None),
      connections = (\<lambda>_. None), rpc_count = 0, poisoned = False, served = (\<lambda>_. 0), hook = (\<lambda>_. None), hook_poisoned = (\<lambda>_. False)\<rparr>"

definition lock :: "'e net \<Rightarrow> ('a option \<times> 'e net) \<Rightarrow> 'a option \<times> 'e net" where
  "lock n body = (if poisoned n then (None, n) else body)"

definition add_server :: "'e server \<Rightarrow> 'e net \<Rightarrow> unit option \<times> 'e net" where
  "add_server sv n = lock n (Some (), n\<lparr>servers := (servers n)(sv_name sv \<mapsto> Some sv)\<rparr>)"

definition delete_server :: "string \<Rightarrow> 'e net \<Rightarrow> unit option \<times> 'e net" where
  "delete_server name n =
     lock n (Some (), case servers n name of Some _ \<Rightarrow> n\<lparr>servers := (servers n)(name \<mapsto> None)\<rparr> | None \<Rightarrow> n)"

definition create_client :: "string \<Rightarrow> 'e net \<Rightarrow> string option \<times> 'e net" where
  "create_client name n =
     lock n (Some name, n\<lparr>enabled := (enabled n)(name \<mapsto> False), connections := (connections n)(name \<mapsto> None),
       hook := (hook n)(name := None), hook_poisoned := (hook_poisoned n)(name := False)\<rparr>)"

definition connect :: "string \<Rightarrow> string \<Rightarrow> 'e net \<Rightarrow> unit option \<times> 'e net" where
  "connect cl server_name n = lock n (Some (), n\<lparr>connections := (connections n)(cl \<mapsto> Some server_name)\<rparr>)"

definition enable :: "string \<Rightarrow> bool \<Rightarrow> 'e net \<Rightarrow> unit option \<times> 'e net" where
  "enable cl yes n = lock n (Some (), n\<lparr>enabled := (enabled n)(cl \<mapsto> yes)\<rparr>)"

definition set_reliable :: "bool \<Rightarrow> 'e net \<Rightarrow> 'e net" where
  "set_reliable yes n = n\<lparr>reliable := yes\<rparr>"

definition set_long_reordering :: "bool \<Rightarrow> 'e net \<Rightarrow> 'e net" where
  "set_long_reordering yes n = n\<lparr>long_reordering := yes\<rparr>"

definition set_long_delays :: "bool \<Rightarrow> 'e net \<Rightarrow> 'e net" where
  "set_long_delays yes n = n\<lparr>long_delays := yes\<rparr>"

definition set_hooks :: "string \<Rightarrow> 'e hooks \<Rightarrow> 'e net \<Rightarrow> unit option \<times> 'e net" where
  "set_hooks cl h n = (if hook_poisoned n cl then (None, n) else (Some (), n\<lparr>hook := (hook n)(cl \<mapsto> h)\<rparr>))"

definition clear_hooks :: "string \<Rightarrow> 'e net \<Rightarrow> unit option \<times> 'e net" where
  "clear_hooks cl n = (if hook_poisoned n cl then (None, n) else (Some (), n\<lparr>hook := (hook n)(cl := None)\<rparr>))"

definition server_count :: "string \<Rightarrow> 'e net \<Rightarrow> nat option \<times> 'e net" where
  "server_count name n =
     lock n (case servers n name of
               Some (Some sv) \<Rightarrow> (Some (served n (sv_id sv)), n)
             | _ \<Rightarrow> (None, n\<lparr>poisoned := True\<rparr>))"

definition total_count :: "'e net \<Rightarrow> nat" where
  "total_count n = rpc_count n"

record 'e end_point =
  ei_enabled :: bool
  ei_reliable :: bool
  ei_long_reordering :: bool
  ei_server :: "'e server option"

definition end_info :: "string \<Rightarrow> 'e net \<Rightarrow> 'e end_point option \<times> 'e net" where
  "end_info cl n =
     lock n
       (let server = (case connections n cl of
                        Some (Some server_name) \<Rightarrow> servers n server_name
                      | _ \<Rightarrow> Some None)
        in case server of
             None \<Rightarrow> (None, n\<lparr>poisoned := True\<rparr>)
           | Some server \<Rightarrow>
               (case enabled n cl of
                  None \<Rightarrow> (None, n\<lparr>poisoned := True\<rparr>)
                | Some e \<Rightarrow>
                    (Some \<lparr>ei_enabled = e, ei_reliable = reliable n, ei_long_reordering = long_reordering n, ei_server = server\<rparr>, n)))"

definition is_server_dead :: "string \<Rightarrow> string \<Rightarrow> nat \<Rightarrow> 'e net \<Rightarrow> bool option \<times> 'e net" where
  "is_server_dead cl server_name server_id n =
     lock n
       (case enabled n cl of
          None \<Rightarrow> (None, n\<lparr>poisoned := True\<rparr>)
        | Some e \<Rightarrow>
            (Some (\<not> e \<or> (case servers n server_name of
                             None \<Rightarrow> True
                           | Some None \<Rightarrow> True
                           | Some (Some sv) \<Rightarrow> sv_id sv \<noteq> server_id)), n))"

subsection \<open>Processing a request\<close>

text \<open>The random numbers one request may draw, in the ranges the generator gives them.\<close>

record draws =
  d_short :: nat
  d_drop :: nat
  d_drop_reply :: nat
  d_reorder :: nat
  d_upper :: nat
  d_delay :: nat
  d_timeout :: nat

datatype 'e rpc_phase =
    Start
  | WaitTimeout nat
  | WaitDrop nat
  | WaitShort "nat option" bool "nat option" "'e server"
  | Running bool "nat option" "'e server" "'e reply option"
  | WaitReorder nat "byte list"
  | Done "'e reply"
  | Crashed

text \<open>\<^verbatim>\<open>Network::process_rpc\<close> up to its first suspension.\<close>

definition begin_rpc :: "draws \<Rightarrow> rpc \<Rightarrow> 'e net \<Rightarrow> 'e rpc_phase \<times> 'e net" where
  "begin_rpc d r n =
     (case end_info (client_name r) (n\<lparr>rpc_count := Suc (rpc_count n)\<rparr>) of
        (None, n') \<Rightarrow> (Crashed, n')
      | (Some ei, n') \<Rightarrow>
          (case (ei_enabled ei, ei_server ei) of
             (True, Some server) \<Rightarrow>
               (let short_delay = (if \<not> ei_reliable ei then Some (d_short d mod 27) else None)
                in if \<not> ei_reliable ei \<and> d_drop d mod 1000 < 100 then (WaitDrop (the short_delay), n')
                   else (let drop_reply = (\<not> ei_reliable ei \<and> d_drop_reply d mod 1000 < 100);
                             reordering = (if ei_long_reordering ei \<and> d_reorder d mod 900 < 600
                                           then (let upper_bound = 1 + d_upper d mod 2000 in Some (200 + d_delay d mod upper_bound))
                                           else None)
                         in (WaitShort short_delay drop_reply reordering server, n')))
           | _ \<Rightarrow> (WaitTimeout (if long_delays n' then d_timeout d mod 7000 else d_timeout d mod 100), n')))"

text \<open>The function \<^verbatim>\<open>process_rpc\<close>: from the end of the short delay to the start of the handler, and from the result
  of the \<^verbatim>\<open>select!\<close> to the end.\<close>

definition hook_panic :: "string \<Rightarrow> 'e net \<Rightarrow> 'e net" where
  "hook_panic cl n = n\<lparr>hook_poisoned := (hook_poisoned n)(cl := True)\<rparr>"

definition dispatch_rpc :: "rpc \<Rightarrow> bool \<Rightarrow> nat option \<Rightarrow> 'e server \<Rightarrow> 'e net \<Rightarrow> 'e rpc_phase \<times> 'e net" where
  "dispatch_rpc r drop_reply reordering sv n =
     (case req r of
        None \<Rightarrow> (Crashed, n)
      | Some body \<Rightarrow>
          (let go = (Running drop_reply reordering sv (dispatch sv (fq_name r) body),
                     n\<lparr>served := (served n)(sv_id sv := Suc (served n (sv_id sv)))\<rparr>)
           in if hook_poisoned n (client_name r) then (Crashed, n)
              else case hook n (client_name r) of
                None \<Rightarrow> go
              | Some h \<Rightarrow> (case before_dispatch h (fq_name r) body of
                             Ok _ \<Rightarrow> go
                           | Err e \<Rightarrow> (Done (Err e), n)
                           | Panic \<Rightarrow> (Crashed, hook_panic (client_name r) n))))"

definition finish_reply :: "rpc \<Rightarrow> bool \<Rightarrow> nat option \<Rightarrow> 'e server \<Rightarrow> byte list \<Rightarrow> 'e net \<Rightarrow> 'e rpc_phase \<times> 'e net" where
  "finish_reply r drop_reply reordering sv body n =
     (case is_server_dead (client_name r) (sv_name sv) (sv_id sv) n of
        (None, n') \<Rightarrow> (Crashed, n')
      | (Some dead, n') \<Rightarrow>
          (if dead then (Done (Err Stopped), n')
           else if drop_reply then (Done (Err Timeout), n')
           else case reordering of Some ms \<Rightarrow> (WaitReorder ms body, n') | None \<Rightarrow> (Done (Ok body), n')))"

definition finish_rpc :: "rpc \<Rightarrow> bool \<Rightarrow> nat option \<Rightarrow> 'e server \<Rightarrow> 'e reply \<Rightarrow> 'e net \<Rightarrow> 'e rpc_phase \<times> 'e net" where
  "finish_rpc r drop_reply reordering sv resp n =
     (if resp = Panic \<or> hook_poisoned n (client_name r) then (Crashed, n)
      else case hook n (client_name r) of
             None \<Rightarrow> (case resp of
                        Ok body \<Rightarrow> finish_reply r drop_reply reordering sv body n
                      | Err e \<Rightarrow> (Done (Err e), n)
                      | Panic \<Rightarrow> (Crashed, n))
           | Some h \<Rightarrow> (case after_dispatch h (fq_name r) resp of
                          Ok body \<Rightarrow> finish_reply r drop_reply reordering sv body n
                        | Err e \<Rightarrow> (Done (Err e), n)
                        | Panic \<Rightarrow> (Crashed, hook_panic (client_name r) n)))"

text \<open>The poll of \<^verbatim>\<open>server_dead\<close>, every 100 milliseconds while the handler runs.\<close>

definition server_dead :: "rpc \<Rightarrow> bool \<Rightarrow> nat option \<Rightarrow> 'e server \<Rightarrow> 'e reply option \<Rightarrow> 'e net \<Rightarrow> 'e rpc_phase \<times> 'e net" where
  "server_dead r drop_reply reordering sv fut n =
     (case is_server_dead (client_name r) (sv_name sv) (sv_id sv) n of
        (None, n') \<Rightarrow> (Crashed, n')
      | (Some True, n') \<Rightarrow> finish_rpc r drop_reply reordering sv (Err Stopped) n'
      | (Some False, n') \<Rightarrow> (Running drop_reply reordering sv fut, n'))"

inductive rpc_step :: "rpc \<Rightarrow> 'e rpc_phase \<times> 'e net \<Rightarrow> 'e rpc_phase \<times> 'e net \<Rightarrow> bool" for r where
  step_begin: "rpc_step r (Start, n) (begin_rpc d r n)"
| step_timeout: "rpc_step r (WaitTimeout ms, n) (Done (Err Timeout), n)"
| step_drop: "rpc_step r (WaitDrop s, n) (Done (Err Timeout), n)"
| step_dispatch: "rpc_step r (WaitShort sd dr ro sv, n) (dispatch_rpc r dr ro sv n)"
| step_reply: "rpc_step r (Running dr ro sv (Some resp), n) (finish_rpc r dr ro sv resp n)"
| step_poll: "rpc_step r (Running dr ro sv fut, n) (server_dead r dr ro sv fut n)"
| step_reorder: "rpc_step r (WaitReorder ms body, n) (Done (Ok body), n)"

inductive_cases step_StartE: "rpc_step r (Start, n) s'"
inductive_cases step_ShortE: "rpc_step r (WaitShort sd dr ro sv, n) s'"
inductive_cases step_RunningE: "rpc_step r (Running dr ro sv fut, n) s'"
inductive_cases step_DoneE: "rpc_step r (Done x, n) s'"
inductive_cases step_CrashedE: "rpc_step r (Crashed, n) s'"

text \<open>What other threads may do to the network meanwhile: calls of its methods and steps of other requests.\<close>

datatype 'e net_op =
    AddServer "'e server" | DeleteServer string | CreateClient string | Connect string string | Enable string bool
  | Count string | SetReliable bool | SetLongReordering bool | SetLongDelays bool | SetHooks string "'e hooks" | ClearHooks string

fun apply_op :: "'e net_op \<Rightarrow> 'e net \<Rightarrow> 'e net" where
  "apply_op (AddServer sv) n = snd (add_server sv n)"
| "apply_op (DeleteServer name) n = snd (delete_server name n)"
| "apply_op (CreateClient name) n = snd (create_client name n)"
| "apply_op (Connect cl name) n = snd (connect cl name n)"
| "apply_op (Enable cl yes) n = snd (enable cl yes n)"
| "apply_op (Count name) n = snd (server_count name n)"
| "apply_op (SetReliable yes) n = set_reliable yes n"
| "apply_op (SetLongReordering yes) n = set_long_reordering yes n"
| "apply_op (SetLongDelays yes) n = set_long_delays yes n"
| "apply_op (SetHooks cl h) n = snd (set_hooks cl h n)"
| "apply_op (ClearHooks cl) n = snd (clear_hooks cl n)"

inductive run :: "('e net_op \<Rightarrow> bool) \<Rightarrow> rpc \<Rightarrow> 'e rpc_phase \<times> 'e net \<Rightarrow> 'e rpc_phase \<times> 'e net \<Rightarrow> bool"
  for allowed r s where
  run_refl: "run allowed r s s"
| run_own: "run allowed r s (p, n) \<Longrightarrow> rpc_step r (p, n) s' \<Longrightarrow> run allowed r s s'"
| run_op: "run allowed r s (p, n) \<Longrightarrow> allowed op \<Longrightarrow> run allowed r s (p, apply_op op n)"
| run_other: "run allowed r s (p, n) \<Longrightarrow> rpc_step r' (q, n) (q', n') \<Longrightarrow> run allowed r s (p, n')"

subsection \<open>Killed servers\<close>

definition gone :: "string \<Rightarrow> nat \<Rightarrow> 'e net \<Rightarrow> bool" where
  "gone name i n \<longleftrightarrow> (case servers n name of Some (Some sv) \<Rightarrow> sv_id sv \<noteq> i | _ \<Rightarrow> True)"

text \<open>A request is executing from the choice of its server to the check of \<^verbatim>\<open>is_server_dead\<close> after its handler. A request
  that passed the check and whose reply is held back for reordering is not: nothing is checked after the delay.\<close>

fun executing :: "'e server \<Rightarrow> 'e rpc_phase \<Rightarrow> bool" where
  "executing sv (WaitShort sd dr ro sv') = (sv' = sv)"
| "executing sv (Running dr ro sv' fut) = (sv' = sv)"
| "executing sv _ = False"

fun sent_to :: "'e server \<Rightarrow> 'e rpc_phase \<Rightarrow> bool" where
  "sent_to sv Start = False"
| "sent_to sv (WaitShort sd dr ro sv') = (sv' = sv)"
| "sent_to sv (Running dr ro sv' fut) = (sv' = sv)"
| "sent_to sv _ = True"

fun failed :: "'e rpc_phase \<Rightarrow> bool" where
  "failed (Done (Ok _)) = False"
| "failed (Done _) = True"
| "failed Crashed = True"
| "failed _ = False"

lemma is_server_dead_state: "\<exists>b. is_server_dead cl name i n = (b, if b = None \<and> \<not> poisoned n then n\<lparr>poisoned := True\<rparr> else n)"
  unfolding is_server_dead_def lock_def by (auto split: option.splits)

lemma finish_reply_servers: "servers (snd (finish_reply r dr ro sv body n)) = servers n"
  using is_server_dead_state[of "client_name r" "sv_name sv" "sv_id sv" n] unfolding finish_reply_def
  by (auto split: option.splits)

lemma finish_servers: "servers (snd (finish_rpc r dr ro sv resp n)) = servers n"
  unfolding finish_rpc_def by (auto simp: finish_reply_servers hook_panic_def split: outcome.splits option.splits)

lemma finish_reply_gone: "gone (sv_name sv) (sv_id sv) n \<Longrightarrow> failed (fst (finish_reply r dr ro sv body n))"
  unfolding finish_reply_def is_server_dead_def lock_def gone_def by (auto split: option.splits prod.splits)

lemma finish_gone: "gone (sv_name sv) (sv_id sv) n \<Longrightarrow> failed (fst (finish_rpc r dr ro sv resp n))"
  unfolding finish_rpc_def by (auto simp: finish_reply_gone split: outcome.splits option.splits)

lemma poll_servers: "servers (snd (server_dead r dr ro sv fut n)) = servers n"
  using is_server_dead_state[of "client_name r" "sv_name sv" "sv_id sv" n] finish_servers unfolding server_dead_def
  by (auto split: option.splits bool.splits)

lemma poll_gone:
  "gone (sv_name sv) (sv_id sv) n \<Longrightarrow> executing sv (fst (server_dead r dr ro sv fut n)) \<or> failed (fst (server_dead r dr ro sv fut n))"
  using is_server_dead_state[of "client_name r" "sv_name sv" "sv_id sv" n] unfolding server_dead_def
  by (auto simp: finish_gone split: option.splits bool.splits)

lemma begin_servers: "servers (snd (begin_rpc d r n)) = servers n"
  unfolding begin_rpc_def end_info_def lock_def
  by (auto simp: Let_def split: option.splits prod.splits bool.splits if_splits)

lemma dispatch_servers: "servers (snd (dispatch_rpc r dr ro sv n)) = servers n"
  unfolding dispatch_rpc_def by (auto simp: Let_def hook_panic_def split: option.splits outcome.splits)

lemma step_servers: "rpc_step r s s' \<Longrightarrow> servers (snd s') = servers (snd s)"
  by (induction rule: rpc_step.induct) (simp_all add: begin_servers dispatch_servers finish_servers poll_servers)

lemma step_gone:
  assumes "rpc_step r s s'" "executing sv (fst s) \<or> failed (fst s)" "gone (sv_name sv) (sv_id sv) (snd s)"
  shows "executing sv (fst s') \<or> failed (fst s')"
  using assms
proof (induction rule: rpc_step.induct)
  case (step_dispatch sd dr ro sv' n)
  then show ?case by (auto simp: dispatch_rpc_def Let_def split: option.splits outcome.splits)
qed (auto simp: finish_gone poll_gone)

lemma op_gone: "gone name i n \<Longrightarrow> (\<And>sv. op = AddServer sv \<Longrightarrow> sv_id sv \<noteq> i) \<Longrightarrow> gone name i (apply_op op n)"
  by (cases op) (auto simp: gone_def add_server_def delete_server_def create_client_def connect_def enable_def server_count_def
      set_reliable_def set_long_reordering_def set_long_delays_def set_hooks_def clear_hooks_def lock_def split: option.splits)

lemma run_gone:
  assumes "run allowed r s s'" "executing sv (fst s) \<or> failed (fst s)" "gone (sv_name sv) (sv_id sv) (snd s)"
    and "\<And>sv'. allowed (AddServer sv') \<Longrightarrow> sv_id sv' \<noteq> sv_id sv"
  shows "(executing sv (fst s') \<or> failed (fst s')) \<and> gone (sv_name sv) (sv_id sv) (snd s')"
  using assms(1)
proof (induction rule: run.induct)
  case (run_own p n s')
  then show ?case using step_gone[OF run_own.hyps(2), of sv] step_servers[OF run_own.hyps(2)] by (simp add: gone_def)
next
  case (run_op p n op)
  then have "gone (sv_name sv) (sv_id sv) (apply_op op n)" using assms(4) by (intro op_gone) auto
  then show ?case using run_op by simp
next
  case (run_other p n r' q q' n')
  then show ?case using step_servers[OF run_other.hyps(2)] by (simp add: gone_def)
qed (use assms in simp)

text \<open>The phases that no other thread and no server can influence: waiting for the end of a delay.\<close>

fun settled :: "'e rpc_phase \<Rightarrow> 'e reply option" where
  "settled (WaitTimeout ms) = Some (Err Timeout)"
| "settled (WaitDrop s) = Some (Err Timeout)"
| "settled (WaitReorder ms body) = Some (Ok body)"
| "settled (Done x) = Some x"
| "settled _ = None"

lemma step_settled: "rpc_step r s s' \<Longrightarrow> settled (fst s) = Some x \<Longrightarrow> settled (fst s') = Some x"
  by (induction rule: rpc_step.induct) simp_all

lemma run_settled: "run allowed r s s' \<Longrightarrow> settled (fst s) = Some x \<Longrightarrow> settled (fst s') = Some x"
  by (induction rule: run.induct) (auto dest: step_settled)

lemma gone_reply_iff:
  assumes "sent_to sv p" "gone (sv_name sv) (sv_id sv) n" "\<And>sv'. allowed (AddServer sv') \<Longrightarrow> sv_id sv' \<noteq> sv_id sv"
  shows "(\<exists>n'. run allowed r (p, n) (Done (Ok body), n')) \<longleftrightarrow> p = Done (Ok body) \<or> (\<exists>ms. p = WaitReorder ms body)"
proof
  assume "\<exists>n'. run allowed r (p, n) (Done (Ok body), n')"
  then obtain n' where run: "run allowed r (p, n) (Done (Ok body), n')" by blast
  have "\<not> (executing sv p \<or> failed p)" using run_gone[OF run] assms(2,3) by auto
  moreover have "settled p = Some x \<Longrightarrow> x = Ok body" for x using run_settled[OF run, of x] by simp
  ultimately show "p = Done (Ok body) \<or> (\<exists>ms. p = WaitReorder ms body)" using assms(1) by (cases p) auto
next
  assume "p = Done (Ok body) \<or> (\<exists>ms. p = WaitReorder ms body)"
  then show "\<exists>n'. run allowed r (p, n) (Done (Ok body), n')"
    using run_refl[of allowed r "(p, n)"] run_own[OF run_refl step_reorder, of allowed r _ body n] by blast
qed

subsection \<open>Calls and services\<close>

text \<open>\<^verbatim>\<open>Client::call\<close>: the request it sends, and the result it makes of the reply. A request whose processing panicked
  drops its reply channel.\<close>

definition call_request ::
  "('w, 'e, 'q) prost \<Rightarrow> ('w, 'e, 'q) message \<Rightarrow> bool \<Rightarrow> string \<Rightarrow> string \<Rightarrow> 'q \<Rightarrow> ('e rpc_error, rpc) outcome" where
  "call_request P M receiver_alive name fq args =
     (case lab_encode P M args [] of
        (Err _, _) \<Rightarrow> Err Encode
      | (Panic, _) \<Rightarrow> Panic
      | (Ok _, buf) \<Rightarrow>
          (if receiver_alive then Ok \<lparr>client_name = name, fq_name = fq, req = Some buf\<rparr> else Err Stopped))"

definition call_reply :: "('w, 'e, 'p) prost \<Rightarrow> ('w, 'e, 'p) message \<Rightarrow> 'e rpc_phase \<Rightarrow> ('e rpc_error, 'p) outcome option" where
  "call_reply P M phase =
     (case phase of
        Done (Ok resp) \<Rightarrow> Some (case lab_decode P M resp of Ok x \<Rightarrow> Ok x | Err e \<Rightarrow> Err (Decode e) | Panic \<Rightarrow> Panic)
      | Done (Err e) \<Rightarrow> Some (Err e)
      | Done Panic \<Rightarrow> Some (Err Recv)
      | Crashed \<Rightarrow> Some (Err Recv)
      | _ \<Rightarrow> None)"

text \<open>What \<^verbatim>\<open>service!\<close> generates: the stub name of a method, the handler of a method, and the factory of a service.\<close>

definition stub_name :: "string \<Rightarrow> string \<Rightarrow> string" where
  "stub_name svc_name method_name = svc_name @ ''.'' @ method_name"

definition method_handler ::
  "('w, 'e, 'q) prost \<Rightarrow> ('w, 'e, 'q) message \<Rightarrow> ('w, 'e, 'p) prost \<Rightarrow> ('w, 'e, 'p) message \<Rightarrow>
   ('q \<Rightarrow> ('e rpc_error, 'p) outcome option) \<Rightarrow> 'e handler" where
  "method_handler P M P' M' f rq =
     (case lab_decode P M rq of
        Err e \<Rightarrow> Some (Err (Decode e))
      | Panic \<Rightarrow> Some Panic
      | Ok request \<Rightarrow>
          (case f request of
             None \<Rightarrow> None
           | Some (Ok resp) \<Rightarrow>
               Some (case lab_encode P' M' resp [] of (Ok _, rsp) \<Rightarrow> Ok rsp | (Err _, _) \<Rightarrow> Err Encode | (Panic, _) \<Rightarrow> Panic)
           | Some (Err e) \<Rightarrow> Some (Err e)
           | Some Panic \<Rightarrow> Some Panic))"

definition service_handler :: "string \<Rightarrow> (string \<times> 'e handler) list \<Rightarrow> 'e factory" where
  "service_handler svc_name methods name rq =
     (case map_of methods name of
        Some h \<Rightarrow> h rq
      | None \<Rightarrow> Some (Err (Unimplemented (''unknown '' @ name @ '' in '' @ svc_name))))"

definition register_service :: "string \<Rightarrow> (string \<times> 'e handler) list \<Rightarrow> 'e builder \<Rightarrow> ('e rpc_error, unit) outcome \<times> 'e builder" where
  "register_service svc_name methods b = add_service svc_name (service_handler svc_name methods) b"

subsection \<open>A reliable network\<close>

definition connected :: "string \<Rightarrow> 'e server \<Rightarrow> 'e net \<Rightarrow> bool" where
  "connected cl sv n \<longleftrightarrow> \<not> poisoned n \<and> enabled n cl = Some True \<and> connections n cl = Some (Some (sv_name sv)) \<and>
     servers n (sv_name sv) = Some (Some sv)"

definition quiet :: "string \<Rightarrow> 'e net \<Rightarrow> bool" where
  "quiet cl n \<longleftrightarrow> reliable n \<and> \<not> long_reordering n \<and> hook n cl = None \<and> \<not> hook_poisoned n cl"

lemma connected_alive: "connected cl sv n \<Longrightarrow> is_server_dead cl (sv_name sv) (sv_id sv) n = (Some False, n)"
  by (simp add: connected_def is_server_dead_def lock_def)

lemma connected_info:
  "connected cl sv n \<Longrightarrow> end_info cl n =
     (Some \<lparr>ei_enabled = True, ei_reliable = reliable n, ei_long_reordering = long_reordering n, ei_server = Some sv\<rparr>, n)"
  by (simp add: connected_def end_info_def lock_def)

lemma connected_upd [simp]:
  "connected cl sv (n\<lparr>rpc_count := c\<rparr>) = connected cl sv n" "connected cl sv (n\<lparr>served := v\<rparr>) = connected cl sv n"
  "quiet cl (n\<lparr>rpc_count := c\<rparr>) = quiet cl n" "quiet cl (n\<lparr>served := v\<rparr>) = quiet cl n"
  by (simp_all add: connected_def quiet_def)

definition after_begin :: "'e net \<Rightarrow> 'e net" where
  "after_begin n = n\<lparr>rpc_count := Suc (rpc_count n)\<rparr>"

definition after_dispatched :: "'e server \<Rightarrow> 'e net \<Rightarrow> 'e net" where
  "after_dispatched sv n = (after_begin n)\<lparr>served := (served n)(sv_id sv := Suc (served n (sv_id sv)))\<rparr>"

lemma quiet_steps:
  assumes "connected (client_name r) sv n" "quiet (client_name r) n" "req r = Some body" "dispatch sv (fq_name r) body = Some (Ok out)"
  shows "begin_rpc d r n = (WaitShort None False None sv, after_begin n)"
    "dispatch_rpc r False None sv (after_begin n) = (Running False None sv (Some (Ok out)), after_dispatched sv n)"
    "finish_rpc r False None sv (Ok out) (after_dispatched sv n) = (Done (Ok out), after_dispatched sv n)"
    "server_dead r False None sv fut (after_dispatched sv n) = (Running False None sv fut, after_dispatched sv n)"
proof -
  have c: "connected (client_name r) sv (after_begin n)" "connected (client_name r) sv (after_dispatched sv n)"
    "quiet (client_name r) (after_begin n)" "quiet (client_name r) (after_dispatched sv n)"
    using assms(1,2) by (simp_all add: after_begin_def after_dispatched_def)
  note fold = after_begin_def[symmetric]
  show "begin_rpc d r n = (WaitShort None False None sv, after_begin n)"
    using connected_info[OF c(1)] c(3) by (simp add: begin_rpc_def fold quiet_def)
  show "dispatch_rpc r False None sv (after_begin n) = (Running False None sv (Some (Ok out)), after_dispatched sv n)"
    using assms(3,4) c(3) by (simp add: dispatch_rpc_def quiet_def after_dispatched_def) (simp add: after_begin_def)
  show "finish_rpc r False None sv (Ok out) (after_dispatched sv n) = (Done (Ok out), after_dispatched sv n)"
    using connected_alive[OF c(2)] c(4) by (simp add: finish_rpc_def finish_reply_def quiet_def)
  show "server_dead r False None sv fut (after_dispatched sv n) = (Running False None sv fut, after_dispatched sv n)"
    using connected_alive[OF c(2)] by (simp add: server_dead_def)
qed

lemma quiet_run:
  assumes "connected (client_name r) sv n" "quiet (client_name r) n" "req r = Some body" "dispatch sv (fq_name r) body = Some (Ok out)"
  shows "(rpc_step r)\<^sup>*\<^sup>* (Start, n) (Done (Ok out), after_dispatched sv n)"
    "(rpc_step r)\<^sup>*\<^sup>* (Start, n) s \<Longrightarrow>
       s \<in> {(Start, n), (WaitShort None False None sv, after_begin n), (Running False None sv (Some (Ok out)), after_dispatched sv n),
            (Done (Ok out), after_dispatched sv n)}"
proof -
  note q = quiet_steps[OF assms]
  have "rpc_step r (Start, n) (WaitShort None False None sv, after_begin n)" using step_begin[of r n] unfolding q(1) .
  moreover have "rpc_step r (WaitShort None False None sv, after_begin n) (Running False None sv (Some (Ok out)), after_dispatched sv n)"
    using step_dispatch[of r None False None sv "after_begin n"] unfolding q(2) .
  moreover have "rpc_step r (Running False None sv (Some (Ok out)), after_dispatched sv n) (Done (Ok out), after_dispatched sv n)"
    using step_reply[of r False None sv "Ok out" "after_dispatched sv n"] unfolding q(3) .
  ultimately show "(rpc_step r)\<^sup>*\<^sup>* (Start, n) (Done (Ok out), after_dispatched sv n)"
    by (meson converse_rtranclp_into_rtranclp rtranclp.rtrancl_refl)
  show "s \<in> {(Start, n), (WaitShort None False None sv, after_begin n), (Running False None sv (Some (Ok out)), after_dispatched sv n),
      (Done (Ok out), after_dispatched sv n)}" if "(rpc_step r)\<^sup>*\<^sup>* (Start, n) s"
    using that
  proof (induction rule: rtranclp_induct)
    case (step y z)
    then show ?case
      by (auto simp: q elim!: step_StartE step_ShortE step_RunningE step_DoneE)
  qed simp
qed

subsection \<open>A call through a service\<close>

definition transports :: "('w, 'e, 'm) prost \<Rightarrow> ('w, 'e, 'm) message \<Rightarrow> 'm \<Rightarrow> bool" where
  "transports P M x \<longleftrightarrow>
     (case lab_encode P M x [] of (Ok _, buf) \<Rightarrow> (case lab_decode P M buf of Ok y \<Rightarrow> y = x | _ \<Rightarrow> False) | _ \<Rightarrow> False)"

lemma transportsE:
  assumes "transports P M x"
  obtains buf where "lab_encode P M x [] = (Ok (), buf)" "lab_decode P M buf = Ok x"
  using assms unfolding transports_def by (auto split: prod.splits outcome.splits)

lemma msg_transports:
  assumes "scalars_ok P F" "messages_ok P F mrg" "utf8_valid (into_bytes (m_name m))" "msg_encoded_len P m < 2 ^ 63"
  shows "transports P (msg_impl P) m"
  using msg_roundtrip[OF assms] by (simp add: transports_def)

lemma dispatch_stub:
  assumes "CHR ''.'' \<notin> set svc" "CHR ''.'' \<notin> set m" "sv_services sv svc = Some (service_handler svc methods)"
  shows "dispatch sv (stub_name svc m) body = service_handler svc methods m body"
proof -
  have "split_on CHR ''.'' (stub_name svc m) = [svc, m]"
    using split_on_Cons[OF assms(1), of m] split_on_plain[OF assms(2)] by (simp add: stub_name_def)
  then show ?thesis using assms(3) by (simp add: dispatch_def)
qed

lemma registered_service:
  "register_service svc methods b = (Ok (), b') \<Longrightarrow> sv_services (fst (build b' i)) svc = Some (service_handler svc methods)"
  by (auto simp: register_service_def add_service_def build_def split: option.splits)

subsection \<open>Counting\<close>

fun dispatched :: "'e rpc_phase \<Rightarrow> bool" where
  "dispatched (Running _ _ _ _) = True"
| "dispatched (WaitReorder _ _) = True"
| "dispatched (Done (Ok _)) = True"
| "dispatched _ = False"

fun undispatched :: "'e rpc_phase \<Rightarrow> bool" where
  "undispatched Start = True"
| "undispatched (WaitTimeout _) = True"
| "undispatched (WaitDrop _) = True"
| "undispatched (WaitShort _ _ _ _) = True"
| "undispatched _ = False"

definition served_once :: "'e net \<Rightarrow> 'e rpc_phase \<Rightarrow> 'e net \<Rightarrow> bool" where
  "served_once n p n' \<longleftrightarrow>
     rpc_count n' = rpc_count n + (if p = Start then 0 else 1) \<and>
     (served n' = served n \<and> \<not> dispatched p \<or> (\<exists>i. served n' = (served n)(i := Suc (served n i))) \<and> \<not> undispatched p)"

lemma begin_counts:
  "rpc_count (snd (begin_rpc d r n)) = Suc (rpc_count n)" "served (snd (begin_rpc d r n)) = served n"
  "fst (begin_rpc d r n) \<noteq> Start" "\<not> dispatched (fst (begin_rpc d r n))"
  unfolding begin_rpc_def end_info_def lock_def
  by (auto simp: Let_def split: option.splits prod.splits bool.splits if_splits)

lemma finish_reply_counts:
  "rpc_count (snd (finish_reply r dr ro sv body n)) = rpc_count n" "served (snd (finish_reply r dr ro sv body n)) = served n"
  "\<not> undispatched (fst (finish_reply r dr ro sv body n))"
  using is_server_dead_state[of "client_name r" "sv_name sv" "sv_id sv" n] unfolding finish_reply_def
  by (auto split: option.splits if_splits)

lemma finish_counts:
  "rpc_count (snd (finish_rpc r dr ro sv resp n)) = rpc_count n" "served (snd (finish_rpc r dr ro sv resp n)) = served n"
  "\<not> undispatched (fst (finish_rpc r dr ro sv resp n))"
  unfolding finish_rpc_def
  by (auto simp: finish_reply_counts hook_panic_def split: outcome.splits option.splits)

lemma poll_counts:
  "rpc_count (snd (server_dead r dr ro sv fut n)) = rpc_count n" "served (snd (server_dead r dr ro sv fut n)) = served n"
  "\<not> undispatched (fst (server_dead r dr ro sv fut n))"
  using is_server_dead_state[of "client_name r" "sv_name sv" "sv_id sv" n] unfolding server_dead_def
  by (auto simp: finish_counts split: option.splits bool.splits)

lemma dispatch_counts:
  "served (snd (dispatch_rpc r dr ro sv n)) =
     (if dispatched (fst (dispatch_rpc r dr ro sv n)) then (served n)(sv_id sv := Suc (served n (sv_id sv))) else served n)"
  "rpc_count (snd (dispatch_rpc r dr ro sv n)) = rpc_count n" "\<not> undispatched (fst (dispatch_rpc r dr ro sv n))"
  unfolding dispatch_rpc_def by (auto simp: Let_def hook_panic_def split: option.splits outcome.splits)

lemma undispatched_Start: "\<not> undispatched p \<Longrightarrow> p \<noteq> Start"
  by auto

lemma step_served_once:
  assumes "rpc_step r s s'" "served_once n0 (fst s) (snd s)"
  shows "served_once n0 (fst s') (snd s')"
  using assms
proof (induction rule: rpc_step.induct)
  case (step_begin n d)
  then show ?case using begin_counts[of d r n] by (simp add: served_once_def)
next
  case (step_dispatch sd dr ro sv n)
  then show ?case using dispatch_counts[of r dr ro sv n] undispatched_Start[OF dispatch_counts(3), of r dr ro sv n]
    by (auto simp: served_once_def)
next
  case (step_reply dr ro sv resp n)
  then show ?case using finish_counts[of r dr ro sv resp n] undispatched_Start[OF finish_counts(3), of r dr ro sv resp n]
    by (auto simp: served_once_def)
next
  case (step_poll dr ro sv fut n)
  then show ?case using poll_counts[of r dr ro sv fut n] undispatched_Start[OF poll_counts(3), of r dr ro sv fut n]
    by (auto simp: served_once_def)
qed (auto simp: served_once_def)

subsection \<open>Panics and delays\<close>

definition stuck :: "'e net \<Rightarrow> bool" where
  "stuck n \<longleftrightarrow> (\<forall>sv. fst (add_server sv n) = None) \<and> (\<forall>name. fst (delete_server name n) = None) \<and>
     (\<forall>name. fst (create_client name n) = None) \<and> (\<forall>cl name. fst (connect cl name n) = None) \<and>
     (\<forall>cl yes. fst (enable cl yes n) = None) \<and> (\<forall>name. fst (server_count name n) = None) \<and>
     (\<forall>d r. fst (begin_rpc d r n) = Crashed) \<and> (\<forall>r dr ro sv body. fst (finish_reply r dr ro sv body n) = Crashed) \<and>
     (\<forall>r dr ro sv fut. fst (server_dead r dr ro sv fut n) = Crashed)"

lemma poisoned_stuck: "poisoned n \<Longrightarrow> stuck n"
  by (simp add: stuck_def add_server_def delete_server_def create_client_def connect_def enable_def server_count_def
      begin_rpc_def end_info_def finish_reply_def server_dead_def is_server_dead_def lock_def)

lemma apply_op_poisoned: "poisoned n \<Longrightarrow> poisoned (apply_op op n)"
  by (cases op) (simp_all add: add_server_def delete_server_def create_client_def connect_def enable_def server_count_def
      set_reliable_def set_long_reordering_def set_long_delays_def set_hooks_def clear_hooks_def lock_def)

lemma fold_poisoned: "poisoned n \<Longrightarrow> poisoned (fold apply_op ops n)"
  by (induction ops arbitrary: n) (simp_all add: apply_op_poisoned)

text \<open>The time in milliseconds a suspended request waits for.\<close>

fun wait_ms :: "'e rpc_phase \<Rightarrow> nat" where
  "wait_ms (WaitTimeout ms) = ms"
| "wait_ms (WaitDrop s) = 1000 * s"
| "wait_ms (WaitShort (Some s) _ _ _) = 1000 * s"
| "wait_ms (WaitReorder ms _) = ms"
| "wait_ms _ = 0"

subsection \<open>An example network\<close>

definition echo_handlers :: "(string \<times> string list handler) list" where
  "echo_handlers =
     [(''echo'', method_handler proto_prost (msg_impl proto_prost) proto_prost (msg_impl proto_prost) (\<lambda>m. Some (Ok m)))]"

definition echo_builder :: "string list builder" where
  "echo_builder = snd (register_service ''junk'' echo_handlers (builder_new ''s''))"

definition echo_net :: "bool \<Rightarrow> string list net" where
  "echo_net rel =
     (let n = snd (add_server (fst (build echo_builder 0)) net_create);
          n = snd (create_client ''c'' n);
          n = snd (connect ''c'' ''s'' n);
          n = snd (enable ''c'' True n)
      in set_reliable rel n)"

lemma echo_connected: "connected ''c'' (fst (build echo_builder 0)) (echo_net rel)"
  by (simp add: connected_def echo_net_def add_server_def create_client_def connect_def enable_def net_create_def lock_def
      set_reliable_def echo_builder_def build_def register_service_def add_service_def builder_new_def)

lemma echo_quiet: "quiet ''c'' (echo_net True)"
  by (simp add: quiet_def echo_net_def add_server_def create_client_def connect_def enable_def net_create_def lock_def
      set_reliable_def)

lemma echo_registered: "register_service ''junk'' echo_handlers (builder_new ''s'') = (Ok (), echo_builder)"
  by (simp add: echo_builder_def register_service_def add_service_def builder_new_def)

section \<open>Properties\<close>

text \<open>C9. A call of a method on a quiet network returns what the method returns: the service is registered and its server
  connected, the network is reliable, and the codec transports the argument and the result. Then the request
  the client sends can reach the end of its processing with the reply that decodes to the result, whatever random numbers
  are drawn it cannot end otherwise, and the server has counted one request.\<close>

theorem call_returns:
  assumes "register_service svc methods b = (Ok (), b')" "CHR ''.'' \<notin> set svc" "CHR ''.'' \<notin> set m"
    and "map_of methods m = Some (method_handler P M P' M' f)" "f args = Some (Ok res)"
    and "transports P M args" "transports P' M' res"
    and "connected cl (fst (build b' i)) n" "quiet cl n"
  shows "\<exists>r p n'. call_request P M True cl (stub_name svc m) args = Ok r \<and> (rpc_step r)\<^sup>*\<^sup>* (Start, n) (p, n') \<and>
     call_reply P' M' p = Some (Ok res) \<and> served n' i = Suc (served n i) \<and> total_count n' = Suc (total_count n) \<and>
     (\<forall>q nn. (rpc_step r)\<^sup>*\<^sup>* (Start, n) (q, nn) \<longrightarrow> call_reply P' M' q = None \<or> q = p \<and> nn = n')"
proof -
  obtain a where a: "lab_encode P M args [] = (Ok (), a)" "lab_decode P M a = Ok args" using transportsE[OF assms(6)] .
  obtain c where c: "lab_encode P' M' res [] = (Ok (), c)" "lab_decode P' M' c = Ok res" using transportsE[OF assms(7)] .
  let ?sv = "fst (build b' i)" and ?r = "\<lparr>client_name = cl, fq_name = stub_name svc m, req = Some a\<rparr>"
  have d: "dispatch ?sv (fq_name ?r) a = Some (Ok c)"
    using dispatch_stub[OF assms(2,3) registered_service[OF assms(1)], of i a] assms(4,5) a c
    by (simp add: service_handler_def method_handler_def)
  have q: "connected (client_name ?r) ?sv n" "quiet (client_name ?r) n" "req ?r = Some a" using assms(8,9) by simp_all
  note run = quiet_run[OF q d]
  have "\<forall>p nn. (rpc_step ?r)\<^sup>*\<^sup>* (Start, n) (p, nn) \<longrightarrow>
      call_reply P' M' p = None \<or> p = Done (Ok c) \<and> nn = after_dispatched ?sv n"
    using run(2) by (fastforce simp: call_reply_def)
  moreover have "call_request P M True cl (stub_name svc m) args = Ok ?r" using a by (simp add: call_request_def)
  moreover have "call_reply P' M' (Done (Ok c)) = Some (Ok res)" using c by (simp add: call_reply_def)
  moreover have "served (after_dispatched ?sv n) i = Suc (served n i)" "total_count (after_dispatched ?sv n) = Suc (total_count n)"
    by (simp_all add: after_dispatched_def after_begin_def total_count_def build_def)
  ultimately show ?thesis using run(1) by blast
qed

theorem call_returns_witness:
  "\<exists>r p n'. call_request proto_prost (msg_impl proto_prost) True ''c'' ''junk.echo'' answer = Ok r \<and>
     (rpc_step r)\<^sup>*\<^sup>* (Start, echo_net True) (p, n') \<and> call_reply proto_prost (msg_impl proto_prost) p = Some (Ok answer) \<and>
     served n' 0 = Suc (served (echo_net True) 0)"
proof -
  have t: "transports proto_prost (msg_impl proto_prost) answer"
    using msg_transports[OF proto_scalars proto_messages answer_ok] .
  have "stub_name ''junk'' ''echo'' = ''junk.echo''" by (simp add: stub_name_def)
  then show ?thesis
    using call_returns[OF echo_registered _ _ _ _ t t echo_connected echo_quiet, of "''echo''" "\<lambda>m. Some (Ok m)"]
    by (auto simp: echo_handlers_def)
qed

text \<open>C10. Replies and killed servers: the server a request was sent to is deleted or replaced, and the other threads do
  anything short of adding that very server again. A request that is waiting for or running its handler at that time never returns a
  reply: its call does not end, or ends with an error. The requests that do return a reply are exactly
  those that passed the check before the server was killed: they are done, or their reply is held back for reordering, and
  then it can be delivered although the server is gone.\<close>

theorem killed_reply_exact:
  assumes "sent_to sv p" "gone (sv_name sv) (sv_id sv) n" "\<And>sv'. allowed (AddServer sv') \<Longrightarrow> sv_id sv' \<noteq> sv_id sv"
  shows "((\<exists>n'. run allowed r (p, n) (Done (Ok body), n')) \<longleftrightarrow> p = Done (Ok body) \<or> (\<exists>ms. p = WaitReorder ms body)) \<and>
     (executing sv p \<longrightarrow> run allowed r (p, n) (p', n') \<longrightarrow>
        call_reply P M p' = None \<or> (\<exists>e. call_reply P M p' = Some (Err e)))"
proof -
  have "call_reply P M p' = None \<or> (\<exists>e. call_reply P M p' = Some (Err e))" if "executing sv p" "run allowed r (p, n) (p', n')"
  proof -
    have "executing sv p' \<or> failed p'" using run_gone[OF that(2)] that(1) assms(2,3) by simp
    then show ?thesis
    proof
      assume "failed p'"
      then show ?thesis by (cases p') (auto simp: call_reply_def elim!: failed.elims)
    qed (cases p'; simp add: call_reply_def)
  qed
  then show ?thesis using gone_reply_iff[OF assms] by blast
qed

definition killed_net :: "string list net" where
  "killed_net = snd (delete_server ''s'' (echo_net True))"

definition echo_call :: rpc where
  "echo_call = \<lparr>client_name = ''c'', fq_name = ''junk.echo'', req = None\<rparr>"

lemma killed_gone: "gone ''s'' 0 killed_net" "enabled killed_net ''c'' = Some True" "\<not> poisoned killed_net"
    "hook killed_net ''c'' = None" "\<not> hook_poisoned killed_net ''c''"
  by (simp_all add: killed_net_def gone_def delete_server_def echo_net_def add_server_def create_client_def connect_def enable_def
      net_create_def lock_def set_reliable_def echo_builder_def build_def register_service_def add_service_def builder_new_def)

theorem killed_reply_exact_witness:
  "run (\<lambda>_. False) echo_call (Running False None (fst (build echo_builder 0)) (Some (Ok [1])), killed_net)
     (Done (Err Stopped), killed_net) \<and>
   \<not> (\<exists>n'. run (\<lambda>_. False) echo_call (Running False None (fst (build echo_builder 0)) (Some (Ok [1])), killed_net) (Done (Ok [1]), n')) \<and>
   (\<exists>n'. run (\<lambda>_. False) echo_call (WaitReorder 200 [1], killed_net) (Done (Ok [1]), n'))"
proof -
  let ?sv = "fst (build echo_builder 0)"
  have sv: "sv_name ?sv = ''s''" "sv_id ?sv = 0"
    by (simp_all add: echo_builder_def build_def register_service_def add_service_def builder_new_def)
  have f: "finish_rpc echo_call False None ?sv (Ok [1]) killed_net = (Done (Err Stopped), killed_net)"
    using killed_gone unfolding finish_rpc_def finish_reply_def is_server_dead_def lock_def sv
    by (auto simp: echo_call_def gone_def split: option.splits)
  have "run (\<lambda>_. False) echo_call (Running False None ?sv (Some (Ok [1])), killed_net) (Done (Err Stopped), killed_net)"
    using run_own[OF run_refl step_reply[of echo_call False None ?sv "Ok [1]" killed_net]] unfolding f .
  moreover have "\<not> (\<exists>n'. run (\<lambda>_. False) echo_call (Running False None ?sv (Some (Ok [1])), killed_net) (Done (Ok [1]), n'))"
    using killed_reply_exact[of ?sv "Running False None ?sv (Some (Ok [1]))" killed_net "\<lambda>_. False" echo_call "[1]", THEN conjunct1] killed_gone(1)
    by (simp add: sv)
  moreover have "\<exists>n'. run (\<lambda>_. False) echo_call (WaitReorder 200 [1], killed_net) (Done (Ok [1]), n')"
    using killed_reply_exact[of ?sv "WaitReorder 200 [1]" killed_net "\<lambda>_. False" echo_call "[1]", THEN conjunct1] killed_gone(1) by (simp add: sv)
  ultimately show ?thesis by blast
qed

text \<open>C34. A request is handed to a server at most once and counted exactly once: along the steps of its processing, the
  total is one more from its first step on; the counter of at most one server is one more; it is when a reply is
  returned, and no server has counted a request that was dropped or whose client was disabled.\<close>

theorem rpc_at_most_once:
  assumes "(rpc_step r)\<^sup>*\<^sup>* (Start, n) (p, n')"
  shows "total_count n' = total_count n + (if p = Start then 0 else 1) \<and>
     (served n' = served n \<or> (\<exists>i. served n' = (served n)(i := Suc (served n i)))) \<and>
     (\<forall>body. p = Done (Ok body) \<longrightarrow> served n' \<noteq> served n) \<and> (undispatched p \<longrightarrow> served n' = served n)"
proof -
  have "served_once n (fst (p, n')) (snd (p, n'))" using assms
    by (induction rule: rtranclp_induct) (simp_all add: step_served_once, simp add: served_once_def)
  moreover have "served n \<noteq> (served n)(i := Suc (served n i))" for i
    by (metis fun_upd_same n_not_Suc_n)
  ultimately show ?thesis by (auto simp: served_once_def total_count_def)
qed


theorem rpc_at_most_once_witness:
  "\<exists>r body n'. (rpc_step r)\<^sup>*\<^sup>* (Start, echo_net True) (Done (Ok body), n') \<and>
     total_count n' = Suc (total_count (echo_net True)) \<and> served n' \<noteq> served (echo_net True)"
proof -
  let ?a = "field_bytes proto_format answer" and ?sv = "fst (build echo_builder 0)"
  let ?r = "\<lparr>client_name = ''c'', fq_name = stub_name ''junk'' ''echo'', req = Some ?a\<rparr>"
  note t = msg_roundtrip[OF proto_scalars proto_messages answer_ok]
  have d: "dispatch ?sv (fq_name ?r) ?a = Some (Ok ?a)"
    using dispatch_stub[OF _ _ registered_service[OF echo_registered], of "''echo''" 0 ?a] t
    by (simp add: echo_handlers_def service_handler_def method_handler_def)
  have "(rpc_step ?r)\<^sup>*\<^sup>* (Start, echo_net True) (Done (Ok ?a), after_dispatched ?sv (echo_net True))"
    using quiet_run(1)[of ?r, OF _ _ _ d] echo_connected echo_quiet by simp
  then show ?thesis using rpc_at_most_once by fastforce
qed

text \<open>C38. A panic under the lock stops the network: asking for the count of a server that was deleted, or never added, panics
  while the endpoints are locked. From then on, whatever is done to the network, every operation that takes that lock panics, every
  new request dies, and so does a request that is being executed when it polls its server or when its handler has succeeded. The
  switches for reliability and delays, and the hooks of a client, do not take that lock and are not affected; nor is a request that only waits for
  the end of a delay.\<close>

theorem count_poisons:
  assumes "\<nexists>sv. servers n name = Some (Some sv)"
  shows "fst (server_count name n) = None \<and> stuck (fold apply_op ops (snd (server_count name n)))"
proof -
  have "fst (server_count name n) = None" "poisoned (snd (server_count name n))"
    using assms by (auto simp: server_count_def lock_def split: option.splits)
  then show ?thesis using fold_poisoned poisoned_stuck by blast
qed

theorem count_poisons_witness: "fst (server_count ''s'' killed_net) = None \<and> stuck (snd (server_count ''s'' killed_net))"
proof -
  have "servers killed_net ''s'' = Some None"
    by (simp add: killed_net_def delete_server_def echo_net_def add_server_def create_client_def connect_def enable_def
        net_create_def lock_def set_reliable_def echo_builder_def build_def register_service_def add_service_def builder_new_def)
  then show ?thesis using count_poisons[of killed_net "''s''" "[]"] by simp
qed

text \<open>The delay of an unreliable network is in seconds: a request on a connected client of an unreliable network waits a
  thousand times the number drawn as its milliseconds, up to 26 seconds, before it is dropped or dispatched.\<close>

theorem unreliable_delay_seconds:
  assumes "connected (client_name r) sv n" "\<not> reliable n"
  shows "wait_ms (fst (begin_rpc d r n)) = 1000 * (d_short d mod 27)"
proof -
  have "connected (client_name r) sv (n\<lparr>rpc_count := Suc (rpc_count n)\<rparr>)" using assms(1) by simp
  from connected_info[OF this] show ?thesis using assms(2) by (simp add: begin_rpc_def Let_def)
qed

theorem unreliable_delay_seconds_witness:
  "wait_ms (fst (begin_rpc \<lparr>d_short = 26, d_drop = 500, d_drop_reply = 500, d_reorder = 0, d_upper = 0, d_delay = 0,
     d_timeout = 0\<rparr> echo_call (echo_net False))) = 26000"
  using unreliable_delay_seconds[of echo_call "fst (build echo_builder 0)" "echo_net False"] echo_connected[of False]
  by (simp add: echo_call_def echo_net_def set_reliable_def)

end
