(* ===== verification/RaftConfig.thy ===== *)
theory RaftConfig
  imports RaftCheck LabRpc
begin

text \<open>
  The test bed of the Raft lab (\<^verbatim>\<open>courses/dss/raft/src/raft/config.rs\<close>, \<^verbatim>\<open>persister.rs\<close>): a group of peers on the simulated
  network, which a test starts, crashes, disconnects and connects. The peers themselves are the exercise of the lab
  and a parameter. The persisters are shared between the test bed and the instances of the peers, so that they live
  in cells of a store and \<open>c_saved\<close> holds their addresses. The counter of names is taken not to wrap. A panic ends the
  test: an operation that panics is \<^const>\<open>None\<close>.
\<close>

subsection \<open>Persisters\<close>

record simple_persister =
  p_state :: "byte list"
  p_snapshot :: "byte list"

definition persister_new :: simple_persister where
  "persister_new = \<lparr>p_state = [], p_snapshot = []\<rparr>"

definition raft_state :: "simple_persister \<Rightarrow> byte list" where
  "raft_state p = p_state p"

definition snapshot :: "simple_persister \<Rightarrow> byte list" where
  "snapshot p = p_snapshot p"

definition save_raft_state :: "byte list \<Rightarrow> simple_persister \<Rightarrow> simple_persister" where
  "save_raft_state state p = p\<lparr>p_state := state\<rparr>"

text \<open>The method takes the lock twice: two steps, between which other threads may take it.\<close>

definition save_steps :: "byte list \<Rightarrow> byte list \<Rightarrow> (simple_persister \<Rightarrow> simple_persister) list" where
  "save_steps state snap = [\<lambda>p. p\<lparr>p_state := state\<rparr>, \<lambda>p. p\<lparr>p_snapshot := snap\<rparr>]"

definition save_state_and_snapshot :: "byte list \<Rightarrow> byte list \<Rightarrow> simple_persister \<Rightarrow> simple_persister" where
  "save_state_and_snapshot state snap p = fold (\<lambda>f. f) (save_steps state snap) p"

subsection \<open>What a restart promises\<close>

text \<open>
  The contract about persisters that the two test beds share. Restarting a peer gives it a persister that did not exist
  before, with what is kept of the content of the old one, and leaves the other peers' alone. Instances of the past still
  hold the old persisters and may write to them at any time.
\<close>

locale persisting =
  fixes running :: "'c \<Rightarrow> bool"
    and peers :: "'c \<Rightarrow> nat"
    and cells :: "'c \<Rightarrow> nat \<Rightarrow> simple_persister"
    and saved :: "'c \<Rightarrow> nat list"
    and next_cell :: "'c \<Rightarrow> nat"
    and store :: "nat \<Rightarrow> simple_persister \<Rightarrow> 'c \<Rightarrow> 'c"
    and restart :: "nat \<Rightarrow> 'c \<Rightarrow> 'c option"
    and keep :: "simple_persister \<Rightarrow> simple_persister"
  assumes store_cells: "cells (store a p c) = (cells c)(a := p)"
    and store_saved: "saved (store a p c) = saved c"
    and store_running: "running c \<Longrightarrow> running (store a p c)"
    and restarts: "running c \<Longrightarrow> i < peers c \<Longrightarrow>
      \<exists>c'. restart i c = Some c' \<and> running c' \<and> next_cell c \<le> saved c' ! i \<and> cells c' (saved c' ! i) = keep (cells c (saved c ! i))"
begin

definition writes :: "(nat \<times> simple_persister) list \<Rightarrow> 'c \<Rightarrow> 'c" where
  "writes = fold (\<lambda>(a, p). store a p)"

lemma writes_elsewhere:
  assumes "\<forall>(a, p) \<in> set ws. a \<noteq> b"
  shows "saved (writes ws c) = saved c" "cells (writes ws c) b = cells c b"
  using assms by (induction ws arbitrary: c) (auto simp: writes_def store_saved store_cells)

lemma writes_running: "running c \<Longrightarrow> running (writes ws c)"
  by (induction ws arbitrary: c) (auto simp: writes_def store_running)

lemma old_writes_lost:
  assumes "running c" "i < peers c" "\<forall>(a, p) \<in> set ws. a < next_cell c"
  shows "\<exists>c'. restart i c = Some c' \<and> running (writes ws c') \<and>
    cells (writes ws c') (saved (writes ws c') ! i) = keep (cells c (saved c ! i))"
proof -
  obtain c' where c': "restart i c = Some c'" "running c'" "next_cell c \<le> saved c' ! i"
      "cells c' (saved c' ! i) = keep (cells c (saved c ! i))"
    using restarts[OF assms(1,2)] by blast
  have "\<forall>(a, p) \<in> set ws. a \<noteq> saved c' ! i" using assms(3) c'(3) by auto
  from writes_elsewhere[OF this] show ?thesis using c' writes_running[OF c'(2)] by auto
qed

end

subsection \<open>The test bed\<close>

text \<open>What the test bed uses of the peers: \<^verbatim>\<open>Raft::new\<close> with \<^verbatim>\<open>Node::new\<close>, given the names of the clients, the number of
  the peer and the address of its persister, and the handlers that the service of a node consists of.\<close>

record ('n, 'e) raft_impl =
  raft_new :: "string list \<Rightarrow> nat \<Rightarrow> nat \<Rightarrow> 'n"
  raft_methods :: "'n \<Rightarrow> (string \<times> 'e handler) list"

record ('n, 'e) config =
  c_net :: "'e net"
  c_n :: nat
  c_rafts :: "'n option list"
  c_connected :: "bool list"
  c_saved :: "nat list"
  c_endnames :: "string list list"
  c_storage :: "storage option"
  c_start :: nat
  c_t0 :: nat
  c_rpcs0 :: nat
  c_cmds0 :: nat
  c_cells :: "nat \<Rightarrow> simple_persister"
  c_next_cell :: nat
  c_id :: nat
  c_server_id :: nat

definition uniqstring :: "nat \<Rightarrow> string \<times> nat" where
  "uniqstring ID = (show_nat ID, Suc ID)"

fun uniqstrings :: "nat \<Rightarrow> nat \<Rightarrow> string list \<times> nat" where
  "uniqstrings 0 ID = ([], ID)"
| "uniqstrings (Suc k) ID =
     (case uniqstring ID of (name, ID') \<Rightarrow> (case uniqstrings k ID' of (names, ID'') \<Rightarrow> (name # names, ID'')))"

text \<open>A loop of calls of \<^verbatim>\<open>net.enable\<close>.\<close>

fun enable_all :: "bool \<Rightarrow> string list \<Rightarrow> 'e net \<Rightarrow> 'e net option" where
  "enable_all yes [] n = Some n"
| "enable_all yes (name # names) n =
     (case enable name yes n of (Some _, n') \<Rightarrow> enable_all yes names n' | (None, _) \<Rightarrow> None)"

definition disconnect_peer :: "nat \<Rightarrow> ('n, 'e) config \<Rightarrow> ('n, 'e) config option" where
  "disconnect_peer i c =
     (if i < length (c_connected c) \<and> i < length (c_endnames c) \<and> list_all (\<lambda>names. i < length names) (c_endnames c)
      then Option.bind (enable_all False (c_endnames c ! i) (c_net c)) (\<lambda>n.
           Option.bind (enable_all False (map (\<lambda>names. names ! i) (c_endnames c)) n) (\<lambda>n.
           Some (c\<lparr>c_connected := (c_connected c)[i := False], c_net := n\<rparr>)))
      else None)"

definition connect_peer :: "nat \<Rightarrow> ('n, 'e) config \<Rightarrow> ('n, 'e) config option" where
  "connect_peer i c =
     (if i < length (c_connected c)
      then let cs = (c_connected c)[i := True]; js = filter (\<lambda>j. cs ! j) [0..<length cs]
           in if list_all (\<lambda>j. i < length (c_endnames c) \<and> j < length (c_endnames c ! i) \<and>
                               j < length (c_endnames c) \<and> i < length (c_endnames c ! j)) js
              then Option.bind (enable_all True (map (\<lambda>j. c_endnames c ! i ! j) js) (c_net c)) (\<lambda>n.
                   Option.bind (enable_all True (map (\<lambda>j. c_endnames c ! j ! i) js) n) (\<lambda>n.
                   Some (c\<lparr>c_connected := cs, c_net := n\<rparr>)))
              else None
      else None)"

definition crash1 :: "nat \<Rightarrow> ('n, 'e) config \<Rightarrow> ('n, 'e) config option" where
  "crash1 i c =
     Option.bind (disconnect_peer i c) (\<lambda>c.
       case delete_server (show_nat i) (c_net c) of
         (None, _) \<Rightarrow> None
       | (Some _, n) \<Rightarrow>
           if i < length (c_saved c) \<and> i < length (c_rafts c)
           then let p = save_raft_state (raft_state (c_cells c (c_saved c ! i))) persister_new; a = c_next_cell c
                in Some (c\<lparr>c_net := n, c_cells := (c_cells c)(a := p), c_next_cell := Suc a,
                           c_saved := (c_saved c)[i := a], c_rafts := (c_rafts c)[i := None]\<rparr>)
           else None)"

text \<open>A fresh client for each name, connected to the peer with the number of its position.\<close>

fun open_ends :: "nat \<Rightarrow> string list \<Rightarrow> 'e net \<Rightarrow> 'e net option" where
  "open_ends j [] n = Some n"
| "open_ends j (name # names) n =
     (case create_client name n of
        (None, _) \<Rightarrow> None
      | (Some cli, n1) \<Rightarrow>
          (case connect name (show_nat j) n1 of
             (None, _) \<Rightarrow> None
           | (Some _, n2) \<Rightarrow> open_ends (Suc j) names n2))"

definition start1 :: "('n, 'e) raft_impl \<Rightarrow> nat \<Rightarrow> ('n, 'e) config \<Rightarrow> ('n, 'e) config option" where
  "start1 R i c =
     Option.bind (crash1 i c) (\<lambda>c.
       case uniqstrings (c_n c) (c_id c) of (names, ID) \<Rightarrow>
       Option.bind (open_ends 0 names (c_net c)) (\<lambda>n.
         let node = raft_new R names i (c_saved c ! i)
         in case register_service ''raft'' (raft_methods R node) (builder_new (show_nat i)) of
              (Ok _, builder) \<Rightarrow>
                (case build builder (c_server_id c) of (srv, sid) \<Rightarrow>
                   (case add_server srv n of
                      (None, _) \<Rightarrow> None
                    | (Some _, n) \<Rightarrow>
                        Some (c\<lparr>c_net := n, c_id := ID, c_server_id := sid, c_endnames := (c_endnames c)[i := names],
                                c_rafts := (c_rafts c)[i := Some node]\<rparr>)))
            | _ \<Rightarrow> None))"

fun for_peers :: "(nat \<Rightarrow> 'c \<Rightarrow> 'c option) \<Rightarrow> nat list \<Rightarrow> 'c \<Rightarrow> 'c option" where
  "for_peers f [] c = Some c"
| "for_peers f (i # is) c = Option.bind (f i c) (for_peers f is)"

text \<open>\<open>ID\<close> and \<open>sid\<close> are the global counters of names and of servers, \<open>now\<close> the clock in milliseconds.\<close>

definition config_new :: "('n, 'e) raft_impl \<Rightarrow> nat \<Rightarrow> bool \<Rightarrow> nat \<Rightarrow> nat \<Rightarrow> nat \<Rightarrow> ('n, 'e) config option" where
  "config_new R n unreliable ID sid now =
     (let net = set_long_delays True (set_reliable (\<not> unreliable) net_create);
          cfg = \<lparr>c_net = net, c_n = n, c_rafts = replicate n None, c_connected = replicate n True, c_saved = [0..<n],
                 c_endnames = replicate n (replicate n []), c_storage = Some (storage_new n), c_start = now, c_t0 = now,
                 c_rpcs0 = 0, c_cmds0 = 0, c_cells = (\<lambda>_. persister_new), c_next_cell = n, c_id = ID, c_server_id = sid\<rparr>
      in Option.bind (for_peers (start1 R) [0..<n] cfg) (for_peers connect_peer [0..<n]))"

text \<open>A write of some instance to its persister.\<close>

definition late_write :: "nat \<Rightarrow> simple_persister \<Rightarrow> ('n, 'e) config \<Rightarrow> ('n, 'e) config" where
  "late_write a p c = c\<lparr>c_cells := (c_cells c)(a := p)\<rparr>"

subsection \<open>Statistics and the time limit\<close>

definition config_rpc_count :: "nat \<Rightarrow> ('n, 'e) config \<Rightarrow> nat option" where
  "config_rpc_count i c = fst (server_count (show_nat i) (c_net c))"

definition rpc_total :: "('n, 'e) config \<Rightarrow> nat" where
  "rpc_total c = total_count (c_net c)"

definition check_timeout :: "nat \<Rightarrow> ('n, 'e) config \<Rightarrow> unit option" where
  "check_timeout now c = (if now - c_start c > 120 * 1000 then None else Some ())"

definition config_begin :: "nat \<Rightarrow> ('n, 'e) config \<Rightarrow> ('n, 'e) config option" where
  "config_begin now c =
     (case c_storage c of
        None \<Rightarrow> None
      | Some s \<Rightarrow> Some (c\<lparr>c_t0 := now, c_rpcs0 := rpc_total c, c_cmds0 := 0, c_storage := Some (s\<lparr>max_index0 := max_index s\<rparr>)\<rparr>))"

text \<open>The numbers \<^verbatim>\<open>end\<close> prints: time, peers, requests and agreements.\<close>

definition config_end :: "nat \<Rightarrow> ('n, 'e) config \<Rightarrow> (nat \<times> nat \<times> nat \<times> nat) option" where
  "config_end now c =
     Option.bind (check_timeout now c) (\<lambda>_.
       case c_storage c of
         None \<Rightarrow> None
       | Some s \<Rightarrow> Some (now - c_t0 c, c_n c, rpc_total c - c_rpcs0 c, max_index s - max_index0 s))"

subsection \<open>Names of clients\<close>

text \<open>The rows in \<open>S\<close> hold distinct names with numbers below \<open>ID\<close>; the others have not been filled yet.\<close>

definition names_wf :: "nat set \<Rightarrow> nat \<Rightarrow> nat \<Rightarrow> string list list \<Rightarrow> bool" where
  "names_wf S n ID rows \<longleftrightarrow>
     length rows = n \<and> (\<forall>i < n. length (rows ! i) = n) \<and> S \<subseteq> {..<n} \<and>
     (\<forall>i < n. i \<notin> S \<longrightarrow> rows ! i = replicate n []) \<and>
     (\<forall>i \<in> S. \<forall>j < n. \<exists>k < ID. rows ! i ! j = show_nat k) \<and>
     (\<forall>i \<in> S. \<forall>k \<in> S. \<forall>j < n. \<forall>l < n. rows ! i ! j = rows ! k ! l \<longrightarrow> i = k \<and> j = l)"

lemma names_wfD:
  assumes "names_wf S n ID rows"
  shows "length rows = n" "i < n \<Longrightarrow> length (rows ! i) = n" "i \<in> S \<Longrightarrow> i < n"
    and "i < n \<Longrightarrow> i \<notin> S \<Longrightarrow> rows ! i = replicate n []"
    and "i \<in> S \<Longrightarrow> j < n \<Longrightarrow> \<exists>k < ID. rows ! i ! j = show_nat k"
    and "i \<in> S \<Longrightarrow> k \<in> S \<Longrightarrow> j < n \<Longrightarrow> l < n \<Longrightarrow> rows ! i ! j = rows ! k ! l \<longleftrightarrow> i = k \<and> j = l"
  using assms unfolding names_wf_def by blast+

lemma name_not_Nil: "names_wf S n ID rows \<Longrightarrow> i \<in> S \<Longrightarrow> j < n \<Longrightarrow> rows ! i ! j \<noteq> []"
  using names_wfD(5) show_nat_not_Nil by metis

lemma name_in_row:
  assumes w: "names_wf S n ID rows" and i: "i \<in> S" "j < n" "k < n"
  shows "rows ! i ! j \<in> set (rows ! k) \<longleftrightarrow> k = i"
proof (cases "k \<in> S")
  case True
  show ?thesis
  proof
    assume "rows ! i ! j \<in> set (rows ! k)"
    then obtain l where "l < n" "rows ! i ! j = rows ! k ! l" using names_wfD(2)[OF w i(3)] by (auto simp: in_set_conv_nth)
    then show "k = i" using names_wfD(6)[OF w i(1) True i(2)] by blast
  qed (use names_wfD(2)[OF w i(3)] i(2) in auto)
next
  case False
  then show ?thesis using names_wfD(4)[OF w i(3)] name_not_Nil[OF w i(1,2)] i by auto
qed

lemma name_in_column:
  assumes w: "names_wf S n ID rows" and i: "i \<in> S" "j < n" "k < n"
  shows "rows ! i ! j \<in> (\<lambda>row. row ! k) ` set rows \<longleftrightarrow> k = j"
proof
  assume "rows ! i ! j \<in> (\<lambda>row. row ! k) ` set rows"
  then obtain l where l: "l < n" "rows ! i ! j = rows ! l ! k" using names_wfD(1)[OF w] by (auto simp: in_set_conv_nth)
  show "k = j"
  proof (cases "l \<in> S")
    case True
    then show ?thesis using names_wfD(6)[OF w i(1) True i(2,3)] l by simp
  next
    case False
    then show ?thesis using names_wfD(4)[OF w l(1)] name_not_Nil[OF w i(1,2)] l i(3) by simp
  qed
next
  assume "k = j"
  then show "rows ! i ! j \<in> (\<lambda>row. row ! k) ` set rows" using names_wfD(1,3)[OF w] i(1) by auto
qed

lemma uniqstrings_eq: "uniqstrings k ID = (map show_nat [ID..<ID + k], ID + k)"
proof (induction k arbitrary: ID)
  case (Suc k)
  then show ?case by (simp add: uniqstring_def upt_rec)
qed simp

lemma names_wf_fresh:
  assumes w: "names_wf S n ID rows" and i: "i < n"
  shows "names_wf (insert i S) n (ID + n) (rows[i := map show_nat [ID..<ID + n]])"
proof -
  let ?rows = "rows[i := map show_nat [ID..<ID + n]]"
  have at: "?rows ! k ! j = (if k = i then show_nat (ID + j) else rows ! k ! j)" if "k < n" "j < n" for k j
    using that i names_wfD(1)[OF w] by (cases "k = i") simp_all
  have old: "rows ! k ! j \<noteq> show_nat (ID + l)" if "k \<in> S" "j < n" for k j l
    using names_wfD(5)[OF w that] by fastforce
  have "k = k' \<and> j = l" if "k \<in> insert i S" "k' \<in> insert i S" "j < n" "l < n" "?rows ! k ! j = ?rows ! k' ! l" for k k' j l
  proof -
    have n: "k < n" "k' < n" using that(1,2) names_wfD(3)[OF w] i by blast+
    have eq: "(if k = i then show_nat (ID + j) else rows ! k ! j) = (if k' = i then show_nat (ID + l) else rows ! k' ! l)"
      using that(5) unfolding at[OF n(1) that(3)] at[OF n(2) that(4)] .
    show ?thesis
    proof (cases "k = i")
      case True
      then show ?thesis using eq that old[of k' l j] by (cases "k' = i") auto
    next
      case False
      then have k: "k \<in> S" using that(1) by simp
      show ?thesis
      proof (cases "k' = i")
        case True
        then show ?thesis using eq old[OF k that(3), of l] False by simp
      next
        case no: False
        then show ?thesis using eq names_wfD(6)[OF w k _ that(3,4), of k'] that(2) False by simp
      qed
    qed
  qed
  moreover have "\<exists>m < ID + n. ?rows ! k ! j = show_nat m" if "k \<in> insert i S" "j < n" for k j
  proof (cases "k = i")
    case True
    then show ?thesis using that i by (auto simp: at)
  next
    case False
    then show ?thesis using that i names_wfD(3,5)[OF w, of k] by (auto simp: at intro: trans_less_add1)
  qed
  moreover have "length ?rows = n" "\<And>k. k < n \<Longrightarrow> length (?rows ! k) = n"
      "\<And>k. k < n \<Longrightarrow> k \<notin> insert i S \<Longrightarrow> ?rows ! k = replicate n []" "insert i S \<subseteq> {..<n}"
    using names_wfD(1-4)[OF w] i by (auto simp: nth_list_update)
  ultimately show ?thesis unfolding names_wf_def by blast
qed

subsection \<open>Effects on the network\<close>

lemma enable_all_eq:
  "\<not> poisoned n \<Longrightarrow> enable_all yes names n = Some (n\<lparr>enabled := \<lambda>x. if x \<in> set names then Some yes else enabled n x\<rparr>)"
proof (induction names arbitrary: n)
  case (Cons name names)
  have "(\<lambda>x. if x \<in> set names then Some yes else ((enabled n)(name \<mapsto> yes)) x) =
      (\<lambda>x. if x \<in> set (name # names) then Some yes else enabled n x)" by auto
  then show ?case using Cons by (simp add: enable_def lock_def del: fun_upd_apply cong: if_cong)
qed simp

lemma open_ends_eq:
  assumes "\<not> poisoned n" "distinct names"
  shows "\<exists>n'. open_ends j names n = Some n' \<and> \<not> poisoned n' \<and> servers n' = servers n \<and>
    enabled n' = (\<lambda>x. if x \<in> set names then Some False else enabled n x) \<and>
    (\<forall>x. x \<notin> set names \<longrightarrow> connections n' x = connections n x) \<and>
    (\<forall>k < length names. connections n' (names ! k) = Some (Some (show_nat (j + k))))"
  using assms
proof (induction names arbitrary: j n)
  case (Cons name names)
  define n1 where "n1 = snd (connect name (show_nat j) (snd (create_client name n)))"
  have n1: "\<not> poisoned n1" "servers n1 = servers n" "enabled n1 = (enabled n)(name \<mapsto> False)"
      "connections n1 = (connections n)(name \<mapsto> Some (show_nat j))"
      "open_ends j (name # names) n = open_ends (Suc j) names n1"
    using Cons.prems(1) by (simp_all add: n1_def connect_def create_client_def lock_def)
  have d: "distinct names" "name \<notin> set names" using Cons.prems(2) by simp_all
  obtain n' where n': "open_ends (Suc j) names n1 = Some n'" "\<not> poisoned n'" "servers n' = servers n1"
      "enabled n' = (\<lambda>x. if x \<in> set names then Some False else enabled n1 x)"
      "\<forall>x. x \<notin> set names \<longrightarrow> connections n' x = connections n1 x"
      "\<forall>k < length names. connections n' (names ! k) = Some (Some (show_nat (Suc j + k)))"
    using Cons.IH[OF n1(1) d(1), of "Suc j"] by (elim exE conjE)
  have "enabled n' = (\<lambda>x. if x \<in> set (name # names) then Some False else enabled n x)" using n'(4) n1(3) by auto
  moreover have "connections n' x = connections n x" if "x \<notin> set (name # names)" for x
    using n'(5)[THEN spec, of x] that n1(4) by simp
  moreover have "connections n' ((name # names) ! k) = Some (Some (show_nat (j + k)))" if "k < length (name # names)" for k
    using n'(5)[THEN spec, of name] n'(6) d(2) that n1(4) by (cases k) simp_all
  ultimately show ?case using n'(1,2,3) n1(2,5) by auto
qed simp

subsection \<open>The invariant of the test bed\<close>

text \<open>The peers in \<open>S\<close> have been started at least once. A link is enabled when both its ends are connected, no client but
  those of the present instances is enabled, every client is connected to the server of its peer, and a server is there
  as long as its peer is.\<close>

definition config_wf :: "nat set \<Rightarrow> ('n, 'e) config \<Rightarrow> bool" where
  "config_wf S c \<longleftrightarrow>
     names_wf S (c_n c) (c_id c) (c_endnames c) \<and>
     length (c_connected c) = c_n c \<and> length (c_rafts c) = c_n c \<and> length (c_saved c) = c_n c \<and>
     \<not> poisoned (c_net c) \<and>
     (\<forall>i \<in> S. \<forall>j < c_n c. enabled (c_net c) (c_endnames c ! i ! j) = Some (c_connected c ! i \<and> c_connected c ! j) \<and>
        connections (c_net c) (c_endnames c ! i ! j) = Some (Some (show_nat j))) \<and>
     (\<forall>x. enabled (c_net c) x = Some True \<longrightarrow> (\<exists>i \<in> S. \<exists>j < c_n c. x = c_endnames c ! i ! j)) \<and>
     (\<forall>x s. connections (c_net c) x = Some (Some s) \<longrightarrow> (\<exists>j < c_n c. s = show_nat j)) \<and>
     (\<forall>j < c_n c. case servers (c_net c) (show_nat j) of None \<Rightarrow> j \<notin> S | Some sv \<Rightarrow> j \<in> S \<and> (sv = None \<longleftrightarrow> c_rafts c ! j = None)) \<and>
     (\<forall>a \<in> set (c_saved c). a < c_next_cell c)"

lemma config_wfD:
  assumes "config_wf S c"
  shows "names_wf S (c_n c) (c_id c) (c_endnames c)" "length (c_connected c) = c_n c" "length (c_rafts c) = c_n c"
    and "length (c_saved c) = c_n c" "\<not> poisoned (c_net c)"
    and "i \<in> S \<Longrightarrow> j < c_n c \<Longrightarrow> enabled (c_net c) (c_endnames c ! i ! j) = Some (c_connected c ! i \<and> c_connected c ! j)"
    and "i \<in> S \<Longrightarrow> j < c_n c \<Longrightarrow> connections (c_net c) (c_endnames c ! i ! j) = Some (Some (show_nat j))"
    and "enabled (c_net c) x = Some True \<Longrightarrow> \<exists>i \<in> S. \<exists>j < c_n c. x = c_endnames c ! i ! j"
    and "connections (c_net c) x = Some (Some s) \<Longrightarrow> \<exists>j < c_n c. s = show_nat j"
    and "j < c_n c \<Longrightarrow> (case servers (c_net c) (show_nat j) of None \<Rightarrow> j \<notin> S | Some sv \<Rightarrow> j \<in> S \<and> (sv = None \<longleftrightarrow> c_rafts c ! j = None))"
    and "\<forall>a \<in> set (c_saved c). a < c_next_cell c"
  using assms unfolding config_wf_def by blast+

lemma config_wfI:
  assumes "names_wf S (c_n c) (c_id c) (c_endnames c)" "length (c_connected c) = c_n c" "length (c_rafts c) = c_n c"
    and "length (c_saved c) = c_n c" "\<not> poisoned (c_net c)"
    and "\<And>i j. i \<in> S \<Longrightarrow> j < c_n c \<Longrightarrow> enabled (c_net c) (c_endnames c ! i ! j) = Some (c_connected c ! i \<and> c_connected c ! j)"
    and "\<And>i j. i \<in> S \<Longrightarrow> j < c_n c \<Longrightarrow> connections (c_net c) (c_endnames c ! i ! j) = Some (Some (show_nat j))"
    and "\<And>x. enabled (c_net c) x = Some True \<Longrightarrow> \<exists>i \<in> S. \<exists>j < c_n c. x = c_endnames c ! i ! j"
    and "\<And>x s. connections (c_net c) x = Some (Some s) \<Longrightarrow> \<exists>j < c_n c. s = show_nat j"
    and "\<And>j. j < c_n c \<Longrightarrow> (case servers (c_net c) (show_nat j) of None \<Rightarrow> j \<notin> S | Some sv \<Rightarrow> j \<in> S \<and> (sv = None \<longleftrightarrow> c_rafts c ! j = None))"
    and "\<forall>a \<in> set (c_saved c). a < c_next_cell c"
  shows "config_wf S c"
  unfolding config_wf_def using assms by blast

definition cut_net :: "nat \<Rightarrow> string list list \<Rightarrow> 'e net \<Rightarrow> 'e net" where
  "cut_net i rows n =
     n\<lparr>enabled := (\<lambda>x. if x \<in> (\<lambda>row. row ! i) ` set rows \<or> x \<in> set (rows ! i) then Some False else enabled n x)\<rparr>"

lemma disconnect_eq:
  assumes w: "config_wf S c" and i: "i < c_n c"
  shows "disconnect_peer i c = Some (c\<lparr>c_connected := (c_connected c)[i := False], c_net := cut_net i (c_endnames c) (c_net c)\<rparr>)"
proof -
  note nw = config_wfD(1)[OF w]
  have g: "i < length (c_connected c)" "i < length (c_endnames c)" "list_all (\<lambda>names. i < length names) (c_endnames c)"
    using config_wfD(2)[OF w] names_wfD(1,2)[OF nw] i by (auto simp: list_all_length)
  define n1 where "n1 = c_net c\<lparr>enabled := \<lambda>x. if x \<in> set (c_endnames c ! i) then Some False else enabled (c_net c) x\<rparr>"
  have 1: "enable_all False (c_endnames c ! i) (c_net c) = Some n1"
    unfolding n1_def by (rule enable_all_eq[OF config_wfD(5)[OF w]])
  have p: "\<not> poisoned n1" using config_wfD(5)[OF w] by (simp add: n1_def)
  have 2: "enable_all False (map (\<lambda>names. names ! i) (c_endnames c)) n1 = Some (cut_net i (c_endnames c) (c_net c))"
  proof -
    have "(\<lambda>x. if x \<in> set (map (\<lambda>names. names ! i) (c_endnames c)) then Some False else enabled n1 x) =
        (\<lambda>x. if x \<in> (\<lambda>row. row ! i) ` set (c_endnames c) \<or> x \<in> set (c_endnames c ! i) then Some False else enabled (c_net c) x)"
      by (rule ext) (auto simp: n1_def)
    then show ?thesis unfolding enable_all_eq[OF p] cut_net_def by (simp add: n1_def)
  qed
  show ?thesis using g unfolding disconnect_peer_def by (simp add: 1 2)
qed

lemma cut_net_simps [simp]:
  "poisoned (cut_net i rows n) = poisoned n" "connections (cut_net i rows n) = connections n" "servers (cut_net i rows n) = servers n"
  by (simp_all add: cut_net_def)

lemma cut_net_link:
  assumes w: "names_wf S n ID rows" and i: "k \<in> S" "j < n" "i < n"
  shows "enabled (cut_net i rows net) (rows ! k ! j) = (if k = i \<or> j = i then Some False else enabled net (rows ! k ! j))"
  using name_in_row[OF w i] name_in_column[OF w i] by (auto simp: cut_net_def)

lemma disconnect_wf:
  assumes w: "config_wf S c" and i: "i < c_n c"
  shows "config_wf S (c\<lparr>c_connected := (c_connected c)[i := False], c_net := cut_net i (c_endnames c) (c_net c)\<rparr>)"
proof -
  define c' where "c' = c\<lparr>c_connected := (c_connected c)[i := False], c_net := cut_net i (c_endnames c) (c_net c)\<rparr>"
  have sel: "c_n c' = c_n c" "c_id c' = c_id c" "c_endnames c' = c_endnames c" "c_connected c' = (c_connected c)[i := False]"
      "c_rafts c' = c_rafts c" "c_saved c' = c_saved c" "c_net c' = cut_net i (c_endnames c) (c_net c)" "c_next_cell c' = c_next_cell c"
    by (simp_all add: c'_def)
  have "config_wf S c'"
  proof (rule config_wfI; simp only: sel cut_net_simps)
    fix k j
    assume k: "k \<in> S" "j < c_n c"
    have "k < c_n c" using names_wfD(3)[OF config_wfD(1)[OF w] k(1)] .
    then show "enabled (cut_net i (c_endnames c) (c_net c)) (c_endnames c ! k ! j) =
        Some ((c_connected c)[i := False] ! k \<and> (c_connected c)[i := False] ! j)"
      using cut_net_link[OF config_wfD(1)[OF w] k i, of "c_net c"] config_wfD(2,6)[OF w] k i by (auto simp: nth_list_update)
  next
    fix x
    assume "enabled (cut_net i (c_endnames c) (c_net c)) x = Some True"
    then have "enabled (c_net c) x = Some True" by (simp add: cut_net_def split: if_splits)
    then show "\<exists>k \<in> S. \<exists>j < c_n c. x = c_endnames c ! k ! j" by (rule config_wfD(8)[OF w])
  qed (use config_wfD[OF w] in auto)
  then show ?thesis unfolding c'_def .
qed

definition down_net :: "nat \<Rightarrow> ('n, 'e) config \<Rightarrow> 'e net" where
  "down_net i c = snd (delete_server (show_nat i) (cut_net i (c_endnames c) (c_net c)))"

definition crashed_config :: "nat \<Rightarrow> ('n, 'e) config \<Rightarrow> ('n, 'e) config" where
  "crashed_config i c = c\<lparr>c_connected := (c_connected c)[i := False], c_net := down_net i c,
     c_cells := (c_cells c)(c_next_cell c := save_raft_state (raft_state (c_cells c (c_saved c ! i))) persister_new),
     c_next_cell := Suc (c_next_cell c), c_saved := (c_saved c)[i := c_next_cell c], c_rafts := (c_rafts c)[i := None]\<rparr>"

lemma crashed_sel [simp]:
  "c_n (crashed_config i c) = c_n c" "c_id (crashed_config i c) = c_id c" "c_endnames (crashed_config i c) = c_endnames c"
  "c_connected (crashed_config i c) = (c_connected c)[i := False]" "c_rafts (crashed_config i c) = (c_rafts c)[i := None]"
  "c_saved (crashed_config i c) = (c_saved c)[i := c_next_cell c]" "c_net (crashed_config i c) = down_net i c"
  "c_next_cell (crashed_config i c) = Suc (c_next_cell c)" "c_storage (crashed_config i c) = c_storage c"
  "c_cells (crashed_config i c) =
     (c_cells c)(c_next_cell c := save_raft_state (raft_state (c_cells c (c_saved c ! i))) persister_new)"
  by (simp_all add: crashed_config_def)

lemma crash1_eq:
  assumes w: "config_wf S c" and i: "i < c_n c"
  shows "crash1 i c = Some (crashed_config i c)"
  using config_wfD(3-5)[OF w] i
  unfolding crash1_def disconnect_eq[OF w i] crashed_config_def down_net_def
  by (simp add: delete_server_def lock_def Let_def split: option.split)

lemma down_net_sel:
  assumes "\<not> poisoned (c_net c)"
  shows "\<not> poisoned (down_net i c)" "connections (down_net i c) = connections (c_net c)"
    and "enabled (down_net i c) = enabled (cut_net i (c_endnames c) (c_net c))"
    and "servers (down_net i c) name = (if name = show_nat i then map_option (\<lambda>_. None) (servers (c_net c) name) else servers (c_net c) name)"
  using assms by (auto simp: down_net_def delete_server_def lock_def split: option.split)

lemma crash_wf:
  assumes w: "config_wf S c" and i: "i < c_n c"
  shows "config_wf S (crashed_config i c)"
proof -
  note d = down_net_sel[OF config_wfD(5)[OF w]]
  note dw = config_wfD[OF disconnect_wf[OF w i], simplified]
  show ?thesis
  proof (rule config_wfI; simp only: crashed_sel d)
    fix j
    assume j: "j < c_n c"
    then show "case if show_nat j = show_nat i then map_option (\<lambda>_. None) (servers (c_net c) (show_nat j)) else servers (c_net c) (show_nat j) of
        None \<Rightarrow> j \<notin> S | Some sv \<Rightarrow> j \<in> S \<and> (sv = None \<longleftrightarrow> (c_rafts c)[i := None] ! j = None)"
      using config_wfD(10)[OF w j] config_wfD(3)[OF w] i by (auto split: option.splits)
  next
    show "\<forall>a \<in> set ((c_saved c)[i := c_next_cell c]). a < Suc (c_next_cell c)"
      using config_wfD(11)[OF w] set_update_subset_insert[of "c_saved c" i "c_next_cell c"] by fastforce
  qed (use config_wfD[OF w] dw in auto)
qed

lemma start1_ok:
  assumes w: "config_wf S c" and i: "i < c_n c"
  defines "names \<equiv> map show_nat [c_id c..<c_id c + c_n c]"
  shows "\<exists>c'. start1 R i c = Some c' \<and> config_wf (insert i S) c' \<and> c_n c' = c_n c \<and> c_connected c' = (c_connected c)[i := False] \<and>
    c_endnames c' = (c_endnames c)[i := names] \<and> c_saved c' = (c_saved c)[i := c_next_cell c] \<and>
    c_cells c' = c_cells (crashed_config i c) \<and> c_next_cell c' = Suc (c_next_cell c) \<and>
    c_rafts c' = (c_rafts c)[i := Some (raft_new R names i (c_next_cell c))] \<and>
    (\<forall>j. j \<noteq> i \<longrightarrow> servers (c_net c') (show_nat j) = servers (c_net c) (show_nat j))"
proof -
  note cw = config_wfD[OF crash_wf[OF w i]]
  have l: "length names = c_n c" "distinct names" by (simp_all add: names_def distinct_map inj_on_def)
  obtain n where n: "open_ends 0 names (down_net i c) = Some n" "\<not> poisoned n" "servers n = servers (down_net i c)"
      "enabled n = (\<lambda>x. if x \<in> set names then Some False else enabled (down_net i c) x)"
      "\<forall>x. x \<notin> set names \<longrightarrow> connections n x = connections (down_net i c) x"
      "\<forall>k < length names. connections n (names ! k) = Some (Some (show_nat (0 + k)))"
    using open_ends_eq[OF _ l(2), of "down_net i c" 0] cw(5) unfolding crashed_sel by blast
  define node where "node = raft_new R names i (c_next_cell c)"
  define srv where "srv = \<lparr>sv_name = show_nat i, sv_id = c_server_id c, sv_services = [''raft'' \<mapsto> service_handler ''raft'' (raft_methods R node)]\<rparr>"
  define c' where "c' = crashed_config i c\<lparr>c_net := n\<lparr>servers := (servers n)(show_nat i \<mapsto> Some srv)\<rparr>, c_id := c_id c + c_n c,
      c_server_id := Suc (c_server_id c), c_endnames := (c_endnames c)[i := names], c_rafts := (c_rafts c)[i := Some node]\<rparr>"
  have s: "start1 R i c = Some c'"
    using n(1,2) i config_wfD(4)[OF w]
    unfolding start1_def crash1_eq[OF w i] uniqstrings_eq
    by (simp add: Let_def register_service_def add_service_def builder_new_def build_def add_server_def lock_def names_def[symmetric]
        node_def c'_def srv_def crashed_config_def)
  have sel: "c_n c' = c_n c" "c_id c' = c_id c + c_n c" "c_endnames c' = (c_endnames c)[i := names]"
      "c_connected c' = (c_connected c)[i := False]" "c_rafts c' = (c_rafts c)[i := Some node]"
      "c_saved c' = (c_saved c)[i := c_next_cell c]" "c_next_cell c' = Suc (c_next_cell c)"
      "c_cells c' = c_cells (crashed_config i c)" "poisoned (c_net c') = poisoned n" "enabled (c_net c') = enabled n"
      "connections (c_net c') = connections n" "servers (c_net c') = (servers n)(show_nat i \<mapsto> Some srv)"
    by (simp_all add: c'_def)
  note down = down_net_sel[OF config_wfD(5)[OF w]]
  note nw = config_wfD(1)[OF w]
  have row: "(c_endnames c)[i := names] ! k = (if k = i then names else c_endnames c ! k)" if "k \<in> insert i S" for k
    using that i names_wfD(1,3)[OF nw] by (auto simp: nth_list_update)
  have old: "c_endnames c ! k ! j \<notin> set names" if "k \<in> S" "j < c_n c" for k j
    using names_wfD(5)[OF nw that] by (auto simp: names_def)
  have "config_wf (insert i S) c'"
  proof (rule config_wfI; simp only: sel)
    show "names_wf (insert i S) (c_n c) (c_id c + c_n c) ((c_endnames c)[i := names])"
      unfolding names_def by (rule names_wf_fresh[OF nw i])
  next
    fix k j
    assume k: "k \<in> insert i S" "j < c_n c"
    show "enabled n ((c_endnames c)[i := names] ! k ! j) = Some ((c_connected c)[i := False] ! k \<and> (c_connected c)[i := False] ! j)"
      using k cw(6)[of k j] old[of k j] i config_wfD(2)[OF w] l(1) unfolding row[OF k(1)] n(4) crashed_sel by auto
    show "connections n ((c_endnames c)[i := names] ! k ! j) = Some (Some (show_nat j))"
      using k cw(7)[of k j] old[of k j] n(5,6) l(1) unfolding row[OF k(1)] crashed_sel by auto
  next
    fix x
    assume "enabled n x = Some True"
    then have "enabled (down_net i c) x = Some True" using n(4) by (simp split: if_splits)
    then obtain k j where k: "k \<in> S" "j < c_n c" "x = c_endnames c ! k ! j" using cw(8)[unfolded crashed_sel] by blast
    then have "k \<noteq> i" using cw(6)[unfolded crashed_sel, OF k(1,2)] \<open>enabled (down_net i c) x = Some True\<close> i config_wfD(2)[OF w] by auto
    then show "\<exists>k \<in> insert i S. \<exists>j < c_n c. x = (c_endnames c)[i := names] ! k ! j"
      using k by (intro bexI[of _ k] exI[of _ j]) simp_all
  next
    fix x s
    assume x: "connections n x = Some (Some s)"
    show "\<exists>j < c_n c. s = show_nat j"
    proof (cases "x \<in> set names")
      case True
      then show ?thesis using x n(6) l(1) by (auto simp: in_set_conv_nth)
    next
      case False
      then show ?thesis using x n(5) cw(9)[unfolded crashed_sel] by auto
    qed
  next
    fix j
    assume "j < c_n c"
    then show "case ((servers n)(show_nat i \<mapsto> Some srv)) (show_nat j) of
        None \<Rightarrow> j \<notin> insert i S | Some sv \<Rightarrow> j \<in> insert i S \<and> (sv = None \<longleftrightarrow> (c_rafts c)[i := Some node] ! j = None)"
      using cw(10)[unfolded crashed_sel, of j] config_wfD(3)[OF w] n(3) i by (cases "j = i") (auto split: option.splits)
  qed (use cw n(2) in simp_all)
  then show ?thesis using s sel n(3) down(4) by (intro exI[of _ c']) (simp add: node_def)
qed

lemma connect_ok:
  assumes w: "config_wf {..<c_n c} c" and i: "i < c_n c"
  shows "\<exists>c'. connect_peer i c = Some c' \<and> config_wf {..<c_n c'} c' \<and> c_n c' = c_n c \<and> c_connected c' = (c_connected c)[i := True] \<and>
    c_rafts c' = c_rafts c \<and> c_saved c' = c_saved c \<and> c_cells c' = c_cells c \<and> c_next_cell c' = c_next_cell c"
proof -
  define cs where "cs = (c_connected c)[i := True]"
  define js where "js = filter (\<lambda>j. cs ! j) [0..<length cs]"
  define E where "E = (\<lambda>i j. c_endnames c ! i ! j)"
  note nw = config_wfD(1)[OF w]
  have l: "length cs = c_n c" "cs ! i" using config_wfD(2)[OF w] i by (simp_all add: cs_def)
  have js: "set js = {j. j < c_n c \<and> cs ! j}" by (auto simp: js_def l)
  have g: "list_all (\<lambda>j. i < length (c_endnames c) \<and> j < length (c_endnames c ! i) \<and>
      j < length (c_endnames c) \<and> i < length (c_endnames c ! j)) js"
    unfolding list_all_iff js using names_wfD(1,2)[OF nw] i by simp
  define n1 where "n1 = c_net c\<lparr>enabled := \<lambda>x. if x \<in> set (map (E i) js) then Some True else enabled (c_net c) x\<rparr>"
  define n2 where "n2 = n1\<lparr>enabled := \<lambda>x. if x \<in> set (map (\<lambda>j. E j i) js) then Some True else enabled n1 x\<rparr>"
  define c' where "c' = c\<lparr>c_connected := cs, c_net := n2\<rparr>"
  have n1: "enable_all True (map (\<lambda>j. c_endnames c ! i ! j) js) (c_net c) = Some n1"
    unfolding n1_def E_def by (rule enable_all_eq[OF config_wfD(5)[OF w]])
  have n2: "enable_all True (map (\<lambda>j. c_endnames c ! j ! i) js) n1 = Some n2"
    unfolding n2_def E_def by (rule enable_all_eq) (use config_wfD(5)[OF w] in \<open>simp add: n1_def\<close>)
  have s: "connect_peer i c = Some c'"
    using i config_wfD(2)[OF w] g unfolding connect_peer_def Let_def cs_def[symmetric] js_def[symmetric]
    by (simp add: n1 n2 c'_def)
  have sel: "c_n c' = c_n c" "c_id c' = c_id c" "c_endnames c' = c_endnames c" "c_connected c' = cs" "c_rafts c' = c_rafts c"
      "c_saved c' = c_saved c" "c_next_cell c' = c_next_cell c" "c_cells c' = c_cells c" "c_net c' = n2"
      "poisoned n2 = poisoned (c_net c)" "connections n2 = connections (c_net c)" "servers n2 = servers (c_net c)"
    by (simp_all add: c'_def n2_def n1_def)
  have en: "enabled n2 x = (if (\<exists>j < c_n c. cs ! j \<and> (x = E i j \<or> x = E j i)) then Some True else enabled (c_net c) x)" for x
    by (auto simp: n2_def n1_def js image_iff)
  have "config_wf {..<c_n c} c'"
  proof (rule config_wfI; simp only: sel)
    fix k j
    assume k: "k \<in> {..<c_n c}" "j < c_n c"
    have eq: "E k j = E k' j' \<longleftrightarrow> k = k' \<and> j = j'" if "k' < c_n c" "j' < c_n c" for k' j'
      using names_wfD(6)[OF nw k(1) _ k(2) that(2), of k'] that by (simp add: E_def)
    have "(\<exists>j' < c_n c. cs ! j' \<and> (E k j = E i j' \<or> E k j = E j' i)) \<longleftrightarrow> (k = i \<and> cs ! j) \<or> (j = i \<and> cs ! k)"
      using eq i k by auto
    then show "enabled n2 (c_endnames c ! k ! j) = Some (cs ! k \<and> cs ! j)"
      using config_wfD(6)[OF w k] l i k config_wfD(2)[OF w] unfolding E_def[symmetric] en
      by (auto simp: E_def cs_def nth_list_update)
  next
    fix x
    assume "enabled n2 x = Some True"
    then consider j where "j < c_n c" "x = E i j" | j where "j < c_n c" "x = E j i" | "enabled (c_net c) x = Some True"
      unfolding en by (auto split: if_splits)
    then show "\<exists>k \<in> {..<c_n c}. \<exists>j < c_n c. x = c_endnames c ! k ! j"
      using config_wfD(8)[OF w, of x] i unfolding E_def by cases blast+
  qed (use config_wfD[OF w] l in auto)
  then show ?thesis using s sel by (intro exI[of _ c']) (simp add: cs_def)
qed

subsection \<open>Runs of the test bed\<close>

definition same_ends :: "'e net \<Rightarrow> 'e net \<Rightarrow> bool" where
  "same_ends n n' \<longleftrightarrow> poisoned n' = poisoned n \<and> enabled n' = enabled n \<and> connections n' = connections n \<and> servers n' = servers n"

lemma same_ends_refl [simp]: "same_ends n n"
  by (simp add: same_ends_def)

lemma end_info_known:
  assumes "\<not> poisoned n" "enabled n cl = Some e" "\<And>s. connections n cl = Some (Some s) \<Longrightarrow> servers n s \<noteq> None"
  shows "\<exists>ei. end_info cl n = (Some ei, n)"
  using assms by (auto simp: end_info_def lock_def Let_def split: option.splits)

lemma begin_rpc_ends:
  assumes "\<not> poisoned n" "enabled n (client_name r) = Some e"
    and "\<And>s. connections n (client_name r) = Some (Some s) \<Longrightarrow> servers n s \<noteq> None"
  shows "same_ends n (snd (begin_rpc d r n))"
proof -
  let ?n = "n\<lparr>rpc_count := Suc (rpc_count n)\<rparr>"
  obtain ei where "end_info (client_name r) ?n = (Some ei, ?n)" using end_info_known[of ?n "client_name r" e] assms by auto
  then show ?thesis by (simp add: begin_rpc_def Let_def same_ends_def split: option.split bool.split)
qed

lemma dead_check_ends: "\<not> poisoned n \<Longrightarrow> enabled n cl = Some e \<Longrightarrow> \<exists>b. is_server_dead cl name i n = (Some b, n)"
  by (simp add: is_server_dead_def lock_def)

lemma finish_reply_ends:
  assumes "\<not> poisoned n" "enabled n (client_name r) = Some e"
  shows "same_ends n (snd (finish_reply r dr ro sv body n))"
proof -
  obtain b where "is_server_dead (client_name r) (sv_name sv) (sv_id sv) n = (Some b, n)" using dead_check_ends[OF assms] by blast
  then show ?thesis by (simp add: finish_reply_def split: option.split)
qed

lemma finish_rpc_ends:
  assumes "\<not> poisoned n" "enabled n (client_name r) = Some e"
  shows "same_ends n (snd (finish_rpc r dr ro sv resp n))"
  using finish_reply_ends[OF assms]
  by (simp add: finish_rpc_def hook_panic_def split: option.split outcome.split) (simp add: same_ends_def)

lemma rpc_step_ends:
  assumes "rpc_step r (p, n) (p', n')" "\<not> poisoned n" "enabled n (client_name r) = Some e"
    and "\<And>s. connections n (client_name r) = Some (Some s) \<Longrightarrow> servers n s \<noteq> None"
  shows "same_ends n n'"
  using assms(1)
proof cases
  case (step_begin d)
  then show ?thesis using begin_rpc_ends[OF assms(2-4), of d] by (metis snd_conv)
next
  case (step_dispatch sd dr ro sv)
  then have "n' = snd (dispatch_rpc r dr ro sv n)" by (metis snd_conv)
  then show ?thesis
    by (simp add: dispatch_rpc_def hook_panic_def same_ends_def Let_def split: option.split outcome.split)
next
  case (step_reply dr ro sv resp)
  then show ?thesis using finish_rpc_ends[OF assms(2,3), of dr ro sv resp] by (metis snd_conv)
next
  case (step_poll dr ro sv fut)
  then have n': "n' = snd (server_dead r dr ro sv fut n)" by (metis snd_conv)
  obtain b where "is_server_dead (client_name r) (sv_name sv) (sv_id sv) n = (Some b, n)" using dead_check_ends[OF assms(2,3)] by blast
  then show ?thesis using finish_rpc_ends[OF assms(2,3), of dr ro sv "Err Stopped"]
    unfolding n' server_dead_def by (cases b) simp_all
qed simp_all

text \<open>What may happen to a test bed: the test starts, crashes, connects and disconnects peers, requests of the clients
  make steps, and instances of the peers, present or past, write to their persisters. Each call of the test is one step,
  \<^verbatim>\<open>Config::new\<close> included, so requests come before it has connected all peers only in the property on early requests below. A call of
  \<^verbatim>\<open>rpc_count\<close> is no step: when it returns it changes nothing, and when it panics the test is over.\<close>

lemma config_rpc_count_reads: "config_rpc_count i c = Some k \<Longrightarrow> snd (server_count (show_nat i) (c_net c)) = c_net c"
  by (auto simp: config_rpc_count_def server_count_def lock_def split: option.splits if_splits)

inductive config_run :: "('n, 'e) raft_impl \<Rightarrow> ('n, 'e) config \<Rightarrow> bool" for R where
  run_new: "config_new R n unreliable ID sid now = Some c \<Longrightarrow> config_run R c"
| run_start: "config_run R c \<Longrightarrow> i < c_n c \<Longrightarrow> start1 R i c = Some c' \<Longrightarrow> config_run R c'"
| run_crash: "config_run R c \<Longrightarrow> i < c_n c \<Longrightarrow> crash1 i c = Some c' \<Longrightarrow> config_run R c'"
| run_connect: "config_run R c \<Longrightarrow> i < c_n c \<Longrightarrow> connect_peer i c = Some c' \<Longrightarrow> config_run R c'"
| run_disconnect: "config_run R c \<Longrightarrow> i < c_n c \<Longrightarrow> disconnect_peer i c = Some c' \<Longrightarrow> config_run R c'"
| run_rpc: "config_run R c \<Longrightarrow> enabled (c_net c) (client_name r) \<noteq> None \<Longrightarrow> rpc_step r (p, c_net c) (p', n') \<Longrightarrow>
    config_run R (c\<lparr>c_net := n'\<rparr>)"
| run_persist: "config_run R c \<Longrightarrow> config_run R (late_write a p c)"

lemma start_peers_ok:
  assumes "config_wf S c" "\<forall>i \<in> set xs. i < c_n c"
  shows "\<exists>c'. for_peers (start1 R) xs c = Some c' \<and> config_wf (S \<union> set xs) c' \<and> c_n c' = c_n c \<and>
    (\<forall>i < c_n c. i \<in> set xs \<or> c_rafts c ! i \<noteq> None \<longrightarrow> c_rafts c' ! i \<noteq> None)"
  using assms
proof (induction xs arbitrary: S c)
  case (Cons i xs)
  then have i: "i < c_n c" by simp
  obtain c1 where c1: "start1 R i c = Some c1" "config_wf (insert i S) c1" "c_n c1 = c_n c"
      "c_rafts c1 = (c_rafts c)[i := Some (raft_new R (map show_nat [c_id c..<c_id c + c_n c]) i (c_next_cell c))]"
    using start1_ok[OF Cons.prems(1) i, of R] by blast
  have "\<forall>i \<in> set xs. i < c_n c1" using Cons.prems(2) c1(3) by simp
  from Cons.IH[OF c1(2) this] obtain c' where c': "for_peers (start1 R) xs c1 = Some c'" "config_wf (insert i S \<union> set xs) c'"
      "c_n c' = c_n c1" "\<forall>k < c_n c1. k \<in> set xs \<or> c_rafts c1 ! k \<noteq> None \<longrightarrow> c_rafts c' ! k \<noteq> None" by blast
  have "c_rafts c1 ! k \<noteq> None" if "k < c_n c" "k = i \<or> c_rafts c ! k \<noteq> None" for k
    using that c1(4) i config_wfD(3)[OF Cons.prems(1)] by (cases "k = i") simp_all
  then have "\<forall>k < c_n c. k \<in> set (i # xs) \<or> c_rafts c ! k \<noteq> None \<longrightarrow> c_rafts c' ! k \<noteq> None"
    using c'(4) unfolding c1(3) by auto
  then show ?case using c1(1,3) c'(1-3) by (intro exI[of _ c']) simp
qed simp

lemma connect_peers_ok:
  assumes "config_wf {..<c_n c} c" "\<forall>i \<in> set xs. i < c_n c"
  shows "\<exists>c'. for_peers connect_peer xs c = Some c' \<and> config_wf {..<c_n c'} c' \<and> c_n c' = c_n c \<and> c_rafts c' = c_rafts c \<and>
    (\<forall>i < c_n c. i \<in> set xs \<or> c_connected c ! i \<longrightarrow> c_connected c' ! i)"
  using assms
proof (induction xs arbitrary: c)
  case (Cons i xs)
  then have i: "i < c_n c" by simp
  obtain c1 where c1: "connect_peer i c = Some c1" "config_wf {..<c_n c1} c1" "c_n c1 = c_n c" "c_rafts c1 = c_rafts c"
      "c_connected c1 = (c_connected c)[i := True]"
    using connect_ok[OF Cons.prems(1) i] by blast
  have "\<forall>i \<in> set xs. i < c_n c1" using Cons.prems(2) c1(3) by simp
  from Cons.IH[OF c1(2) this] obtain c' where c': "for_peers connect_peer xs c1 = Some c'" "config_wf {..<c_n c'} c'"
      "c_n c' = c_n c1" "c_rafts c' = c_rafts c1" "\<forall>k < c_n c1. k \<in> set xs \<or> c_connected c1 ! k \<longrightarrow> c_connected c' ! k" by blast
  have "c_connected c1 ! k" if "k < c_n c" "k = i \<or> c_connected c ! k" for k
    using that c1(5) i config_wfD(2)[OF Cons.prems(1)] by (cases "k = i") simp_all
  then have "\<forall>k < c_n c. k \<in> set (i # xs) \<or> c_connected c ! k \<longrightarrow> c_connected c' ! k"
    using c'(5) unfolding c1(3) by auto
  then show ?case using c1(1,3,4) c'(1-4) by (intro exI[of _ c']) simp
qed simp

definition config_init :: "nat \<Rightarrow> bool \<Rightarrow> nat \<Rightarrow> nat \<Rightarrow> nat \<Rightarrow> ('n, 'e) config" where
  "config_init n unreliable ID sid now =
     \<lparr>c_net = set_long_delays True (set_reliable (\<not> unreliable) net_create), c_n = n, c_rafts = replicate n None,
      c_connected = replicate n True, c_saved = [0..<n], c_endnames = replicate n (replicate n []),
      c_storage = Some (storage_new n), c_start = now, c_t0 = now, c_rpcs0 = 0, c_cmds0 = 0,
      c_cells = (\<lambda>_. persister_new), c_next_cell = n, c_id = ID, c_server_id = sid\<rparr>"

lemma config_init_wf: "config_wf {} (config_init n unreliable ID sid now)"
  by (rule config_wfI) (simp_all add: config_init_def names_wf_def set_long_delays_def set_reliable_def net_create_def)

lemma config_new_ok:
  "\<exists>c. config_new R n unreliable ID sid now = Some c \<and> config_wf {..<n} c \<and> c_n c = n \<and>
     (\<forall>i < n. c_connected c ! i \<and> c_rafts c ! i \<noteq> None)"
proof -
  let ?c = "config_init n unreliable ID sid now :: ('a, 'b) config"
  have n: "c_n ?c = n" by (simp add: config_init_def)
  obtain c1 where c1: "for_peers (start1 R) [0..<n] ?c = Some c1" "config_wf {..<n} c1" "c_n c1 = n" "\<forall>i < n. c_rafts c1 ! i \<noteq> None"
    using start_peers_ok[OF config_init_wf, of "[0..<n]" n unreliable ID sid now R] unfolding n by (auto simp: atLeast0LessThan)
  obtain c where c: "for_peers connect_peer [0..<n] c1 = Some c" "config_wf {..<c_n c} c" "c_n c = c_n c1" "c_rafts c = c_rafts c1"
      "\<forall>i < n. c_connected c ! i"
    using connect_peers_ok[of c1 "[0..<n]"] c1(2,3) by auto
  have "config_new R n unreliable ID sid now = Some c"
    using c1(1) c(1) unfolding config_new_def Let_def config_init_def by simp
  then show ?thesis using c c1 by auto
qed

lemma config_wf_net:
  assumes w: "config_wf S c" and s: "same_ends (c_net c) n"
  shows "config_wf S (c\<lparr>c_net := n\<rparr>)"
  using w s unfolding config_wf_def same_ends_def by (simp cong: option.case_cong)

lemma config_run_wf: "config_run R c \<Longrightarrow> config_wf {..<c_n c} c"
proof (induction rule: config_run.induct)
  case (run_new n unreliable ID sid now c)
  then show ?case using config_new_ok[of R n unreliable ID sid now] by auto
next
  case (run_start c i c')
  then show ?case using start1_ok[OF run_start.IH run_start.hyps(2), of R] by (auto simp: insert_absorb)
next
  case (run_crash c i c')
  then have "c' = crashed_config i c" using crash1_eq by fastforce
  then show ?case using crash_wf[OF run_crash.IH run_crash.hyps(2)] by simp
next
  case (run_connect c i c')
  then show ?case using connect_ok[OF run_connect.IH run_connect.hyps(2)] by auto
next
  case (run_disconnect c i c')
  then have "c' = c\<lparr>c_connected := (c_connected c)[i := False], c_net := cut_net i (c_endnames c) (c_net c)\<rparr>"
    using disconnect_eq by fastforce
  then show ?case using disconnect_wf[OF run_disconnect.IH run_disconnect.hyps(2)] by simp
next
  case (run_rpc c r p p' n')
  note d = config_wfD[OF run_rpc.IH]
  obtain e where e: "enabled (c_net c) (client_name r) = Some e" using run_rpc.hyps(2) by blast
  have "servers (c_net c) s \<noteq> None" if s: "connections (c_net c) (client_name r) = Some (Some s)" for s
  proof -
    obtain j where "j < c_n c" "s = show_nat j" using d(9)[OF s] by blast
    then show ?thesis using d(10)[of j] by (cases "servers (c_net c) (show_nat j)") auto
  qed
  then have "same_ends (c_net c) n'" using rpc_step_ends[OF run_rpc.hyps(3) d(5) e] by blast
  then show ?case using config_wf_net[OF run_rpc.IH] by simp
next
  case (run_persist c a p)
  then show ?case unfolding config_wf_def by (simp add: late_write_def cong: option.case_cong)
qed

lemma begin_rpc_timeout:
  assumes "\<not> poisoned n" "enabled n (client_name r) = Some e"
    and "\<And>s. connections n (client_name r) = Some (Some s) \<Longrightarrow> servers n s \<noteq> None"
  shows "fst (begin_rpc d r n) \<noteq> Crashed" (is ?A)
    and "(\<exists>ms. fst (begin_rpc d r n) = WaitTimeout ms) \<longleftrightarrow>
      \<not> (e \<and> (\<exists>s sv. connections n (client_name r) = Some (Some s) \<and> servers n s = Some (Some sv)))" (is ?B)
proof -
  show ?A using assms
    by (auto simp: begin_rpc_def end_info_def lock_def Let_def split: option.splits bool.splits)
  show ?B using assms
    by (auto simp: begin_rpc_def end_info_def lock_def Let_def split: option.splits bool.splits)
qed

lemma config_servers:
  assumes "config_wf S c" "j < c_n c" "j \<in> S"
  shows "servers (c_net c) (show_nat j) \<noteq> None" "(\<exists>sv. servers (c_net c) (show_nat j) = Some (Some sv)) \<longleftrightarrow> c_rafts c ! j \<noteq> None"
  using config_wfD(10)[OF assms(1,2)] assms(3) by (auto split: option.splits)

lemma start1_node:
  assumes w: "config_wf S c" and i: "i < c_n c"
  shows "\<exists>c'. start1 R i c = Some c' \<and> c_rafts c' ! i = Some (raft_new R (c_endnames c' ! i) i (c_saved c' ! i)) \<and>
    c_saved c' ! i = c_next_cell c \<and> c_cells c' (c_saved c' ! i) = save_raft_state (raft_state (c_cells c (c_saved c ! i))) persister_new"
  using start1_ok[OF w i, of R] names_wfD(1)[OF config_wfD(1)[OF w]] config_wfD(3,4)[OF w] i by auto

interpretation tb: persisting "config_run R" c_n c_cells c_saved c_next_cell late_write "start1 R"
  "\<lambda>p. save_raft_state (raft_state p) persister_new" for R :: "('n, 'e) raft_impl"
proof
  fix c :: "('n, 'e) config" and i
  assume "config_run R c" "i < c_n c"
  then show "\<exists>c'. start1 R i c = Some c' \<and> config_run R c' \<and> c_next_cell c \<le> c_saved c' ! i \<and>
      c_cells c' (c_saved c' ! i) = save_raft_state (raft_state (c_cells c (c_saved c ! i))) persister_new"
    using start1_node[OF config_run_wf, of R c i R] config_run.run_start[of R c i] by auto
qed (auto simp: late_write_def intro: config_run.run_persist[unfolded late_write_def])

text \<open>A peer that never does anything.\<close>

definition idle_raft :: "(nat, string list) raft_impl" where
  "idle_raft = \<lparr>raft_new = (\<lambda>names me a. me), raft_methods = (\<lambda>_. [])\<rparr>"

definition no_draws :: draws where
  "no_draws = \<lparr>d_short = 0, d_drop = 0, d_drop_reply = 0, d_reorder = 0, d_upper = 0, d_delay = 0, d_timeout = 0\<rparr>"

definition probe_rpc :: "string \<Rightarrow> rpc" where
  "probe_rpc name = \<lparr>client_name = name, fq_name = ''raft.request_vote'', req = Some []\<rparr>"

subsection \<open>The properties\<close>

text \<open>C14. In every run of the test bed, with requests in flight and peers writing to their persisters, a request of any client
  that was ever created finds the network usable, and it is given up as undeliverable exactly unless the client belongs
  to the present instance of a peer, this peer and the one it talks to are both connected, and the latter is running.
  In particular an instance from before a crash can never reach anybody again.\<close>

theorem raft_links:
  assumes "config_run R c" "enabled (c_net c) (client_name r) \<noteq> None"
  shows "fst (begin_rpc d r (c_net c)) \<noteq> Crashed \<and>
    ((\<exists>ms. fst (begin_rpc d r (c_net c)) = WaitTimeout ms) \<longleftrightarrow>
       \<not> (\<exists>i < c_n c. \<exists>j < c_n c. client_name r = c_endnames c ! i ! j \<and> c_connected c ! i \<and> c_connected c ! j \<and> c_rafts c ! j \<noteq> None))"
proof -
  note w = config_run_wf[OF assms(1)]
  obtain e where e: "enabled (c_net c) (client_name r) = Some e" using assms(2) by blast
  have s: "servers (c_net c) s \<noteq> None" if "connections (c_net c) (client_name r) = Some (Some s)" for s
    using config_wfD(9)[OF w that] config_servers(1)[OF w] by auto
  note b = begin_rpc_timeout[where d = d, OF config_wfD(5)[OF w] e s]
  have "e \<and> (\<exists>s sv. connections (c_net c) (client_name r) = Some (Some s) \<and> servers (c_net c) s = Some (Some sv)) \<longleftrightarrow>
      (\<exists>i < c_n c. \<exists>j < c_n c. client_name r = c_endnames c ! i ! j \<and> c_connected c ! i \<and> c_connected c ! j \<and> c_rafts c ! j \<noteq> None)"
    (is "?L \<longleftrightarrow> ?R")
  proof
    assume L: ?L
    then obtain i j where ij: "i < c_n c" "j < c_n c" "client_name r = c_endnames c ! i ! j"
      using config_wfD(8)[OF w, of "client_name r"] e by auto
    then have "c_connected c ! i \<and> c_connected c ! j" using config_wfD(6)[OF w, of i j] e L by simp
    moreover have "c_rafts c ! j \<noteq> None" using config_wfD(7)[OF w, of i j] config_servers(2)[OF w, of j] L ij by auto
    ultimately show ?R using ij by blast
  next
    assume ?R
    then obtain i j where ij: "i < c_n c" "j < c_n c" "client_name r = c_endnames c ! i ! j"
        "c_connected c ! i" "c_connected c ! j" "c_rafts c ! j \<noteq> None" by blast
    then show ?L using config_wfD(6,7)[OF w, of i j] config_servers(2)[OF w, of j] e by auto
  qed
  then show ?thesis using b by blast
qed

theorem raft_links_witness:
  "\<exists>c. config_new idle_raft 2 False 0 0 0 = Some c \<and>
     (\<nexists>ms. fst (begin_rpc no_draws (probe_rpc (c_endnames c ! 0 ! 1)) (c_net c)) = WaitTimeout ms)"
proof -
  obtain c where c: "config_new idle_raft 2 False 0 0 0 = Some c" "config_wf {..<2} c" "c_n c = 2"
      "\<forall>i < 2. c_connected c ! i \<and> c_rafts c ! i \<noteq> None"
    using config_new_ok[of idle_raft 2 False 0 0 0] by blast
  have "enabled (c_net c) (client_name (probe_rpc (c_endnames c ! 0 ! 1))) \<noteq> None"
    using config_wfD(6)[OF c(2), of 0 1] c(3) by (simp add: probe_rpc_def)
  note l = raft_links[OF config_run.run_new[OF c(1)] this, of no_draws]
  have "0 < c_n c" "1 < c_n c" "client_name (probe_rpc (c_endnames c ! 0 ! 1)) = c_endnames c ! 0 ! 1"
      "c_connected c ! 0" "c_connected c ! 1" "c_rafts c ! 1 \<noteq> None"
    using c(3,4) by (simp_all add: probe_rpc_def)
  then show ?thesis using l c(1) by blast
qed

text \<open>C26. Starting a peer again gives the new instance the Raft state that its predecessor saved last, and whatever instances
  of the past still write to the persisters they were given does not change it. The comment in the code speaks of the
  content of the old persister, but a saved snapshot is dropped.\<close>

theorem restart_state:
  assumes "config_run R c" "i < c_n c" "\<forall>(a, p) \<in> set ws. a < c_next_cell c"
  shows "\<exists>c'. start1 R i c = Some c' \<and> c_rafts c' ! i = Some (raft_new R (c_endnames c' ! i) i (c_saved c' ! i)) \<and>
    (let c2 = fold (\<lambda>(a, p). late_write a p) ws c'
     in config_run R c2 \<and> c_cells c2 (c_saved c2 ! i) = \<lparr>p_state = raft_state (c_cells c (c_saved c ! i)), p_snapshot = []\<rparr>)"
  using tb.old_writes_lost[OF assms] start1_node[OF config_run_wf[OF assms(1)] assms(2), of R]
  by (auto simp: Let_def tb.writes_def save_raft_state_def persister_new_def)

theorem restart_state_witness:
  "\<exists>c c'. config_run idle_raft c \<and> c_cells c (c_saved c ! 0) = \<lparr>p_state = [1], p_snapshot = [2]\<rparr> \<and> start1 idle_raft 0 c = Some c' \<and>
     c_cells c' (c_saved c' ! 0) = \<lparr>p_state = [1], p_snapshot = []\<rparr>"
proof -
  obtain c where c: "config_new idle_raft 2 False 0 0 0 = Some c" "c_n c = 2"
    using config_new_ok[of idle_raft 2 False 0 0 0] by blast
  define c1 where "c1 = late_write (c_saved c ! 0) \<lparr>p_state = [1], p_snapshot = [2]\<rparr> c"
  have r: "config_run idle_raft c1" unfolding c1_def by (rule config_run.run_persist[OF config_run.run_new[OF c(1)]])
  have i: "0 < c_n c1" using c(2) by (simp add: c1_def late_write_def)
  have p: "c_cells c1 (c_saved c1 ! 0) = \<lparr>p_state = [1], p_snapshot = [2]\<rparr>" by (simp add: c1_def late_write_def)
  show ?thesis using restart_state[OF r i, of "[]"] r p by (auto simp: raft_state_def)
qed

text \<open>C35. While the test bed is being set up the network is not ready for requests: a peer that sends a request to one
  that is not yet started makes the network look its server up under the lock, panic and poison the lock.\<close>

theorem early_request_poisons:
  assumes "for_peers (start1 R) [0..<k] (config_init n unreliable ID sid now) = Some c"
    and "i < k" "k \<le> j" "j < n" "client_name r = c_endnames c ! i ! j"
  shows "fst (begin_rpc d r (c_net c)) = Crashed \<and> poisoned (snd (begin_rpc d r (c_net c)))"
proof -
  have n: "c_n (config_init n unreliable ID sid now :: ('a, 'b) config) = n" by (simp add: config_init_def)
  have k: "\<forall>i \<in> set [0..<k]. i < c_n (config_init n unreliable ID sid now :: ('a, 'b) config)" using assms(3,4) n by simp
  have w: "config_wf {..<k} c" "c_n c = n"
    using start_peers_ok[OF config_init_wf k, of R] assms(1) n by (auto simp: atLeast0LessThan)
  have "servers (c_net c) (show_nat j) = None" using config_wfD(10)[OF w(1), of j] w(2) assms(3,4) by (auto split: option.splits)
  moreover have "connections (c_net c) (client_name r) = Some (Some (show_nat j))"
    using config_wfD(7)[OF w(1), of i j] assms w(2) by simp
  ultimately show ?thesis using config_wfD(5)[OF w(1)] by (simp add: begin_rpc_def end_info_def lock_def)
qed

theorem early_request_poisons_witness:
  "\<exists>c. for_peers (start1 idle_raft) [0..<1] (config_init 2 False 0 0 0) = Some c \<and>
     poisoned (snd (begin_rpc no_draws (probe_rpc (c_endnames c ! 0 ! 1)) (c_net c)))"
proof -
  have "\<forall>i \<in> set [0..<1]. i < c_n (config_init 2 False 0 0 0 :: (nat, string list) config)" by (simp add: config_init_def)
  then obtain c where c: "for_peers (start1 idle_raft) [0..<1] (config_init 2 False 0 0 0) = Some c"
    using start_peers_ok[OF config_init_wf] by blast
  from early_request_poisons[OF this, of 0 1 "probe_rpc (c_endnames c ! 0 ! 1)" no_draws] show ?thesis
    using c by (intro exI[of _ c]) (simp add: probe_rpc_def)
qed

end
