(* ===== verification/KvRaftConfig.thy ===== *)
theory KvRaftConfig
  imports RaftConfig
begin

text \<open>
  The test bed of the key-value Raft lab (\<^verbatim>\<open>courses/dss/raft/src/kvraft/config.rs\<close>): servers that each run a Raft peer, clerks,
  and the partitions that tests put the servers into. As for the Raft lab the servers and clerks are the exercise and a
  parameter, and a panic is \<^const>\<open>None\<close>.
\<close>

subsection \<open>The test bed\<close>

text \<open>\<^verbatim>\<open>KvServer::new\<close> with \<^verbatim>\<open>Node::new\<close>, given clients, number, persister and the limit on the log, and the handlers of its
  two services.\<close>

record ('s, 'e) kv_impl =
  kv_new :: "string list \<Rightarrow> nat \<Rightarrow> nat \<Rightarrow> nat option \<Rightarrow> 's"
  kv_raft_methods :: "'s \<Rightarrow> (string \<times> 'e handler) list"
  kv_methods :: "'s \<Rightarrow> (string \<times> 'e handler) list"

record ('s, 'e) kvconfig =
  k_net :: "'e net"
  k_n :: nat
  k_kvservers :: "'s option list"
  k_saved :: "nat list"
  k_endnames :: "string list list"
  k_clerks :: "string \<Rightarrow> string list option"
  k_next_client_id :: nat
  k_maxraftstate :: "nat option"
  k_start :: nat
  k_t0 :: nat
  k_rpcs0 :: nat
  k_ops :: nat
  k_cells :: "nat \<Rightarrow> simple_persister"
  k_next_cell :: nat
  k_id :: nat
  k_server_id :: nat

fun largest :: "nat list \<Rightarrow> nat \<Rightarrow> nat" where
  "largest [] best = best"
| "largest (n # ns) best = largest ns (if n > best then n else best)"

definition log_size :: "('s, 'e) kvconfig \<Rightarrow> nat" where
  "log_size c = largest (map (\<lambda>a. length (raft_state (k_cells c a))) (k_saved c)) 0"

definition snapshot_size :: "('s, 'e) kvconfig \<Rightarrow> nat" where
  "snapshot_size c = largest (map (\<lambda>a. length (snapshot (k_cells c a))) (k_saved c)) 0"

definition kv_connect :: "nat \<Rightarrow> nat list \<Rightarrow> ('s, 'e) kvconfig \<Rightarrow> ('s, 'e) kvconfig option" where
  "kv_connect i to c =
     (let E = k_endnames c
      in if list_all (\<lambda>j. i < length E \<and> j < length (E ! i) \<and> j < length E \<and> i < length (E ! j)) to
         then Option.bind (enable_all True (map (\<lambda>j. E ! i ! j) to) (k_net c)) (\<lambda>n.
              Option.bind (enable_all True (map (\<lambda>j. E ! j ! i) to) n) (\<lambda>n.
              Some (c\<lparr>k_net := n\<rparr>)))
         else None)"

definition kv_disconnect :: "nat \<Rightarrow> nat list \<Rightarrow> ('s, 'e) kvconfig \<Rightarrow> ('s, 'e) kvconfig option" where
  "kv_disconnect i from c =
     (let E = k_endnames c
      in if list_all (\<lambda>j. i < length E \<and> (E ! i \<noteq> [] \<longrightarrow> j < length (E ! i)) \<and> j < length E \<and> (E ! j \<noteq> [] \<longrightarrow> i < length (E ! j))) from
         then Option.bind (enable_all False (map (\<lambda>j. E ! i ! j) (filter (\<lambda>j. E ! i \<noteq> []) from)) (k_net c)) (\<lambda>n.
              Option.bind (enable_all False (map (\<lambda>j. E ! j ! i) (filter (\<lambda>j. E ! j \<noteq> []) from)) n) (\<lambda>n.
              Some (c\<lparr>k_net := n\<rparr>)))
         else None)"

definition kv_all :: "('s, 'e) kvconfig \<Rightarrow> nat list" where
  "kv_all c = [0..<k_n c]"

definition connect_all :: "('s, 'e) kvconfig \<Rightarrow> ('s, 'e) kvconfig option" where
  "connect_all c = for_peers (\<lambda>i c. kv_connect i (kv_all c) c) [0..<k_n c] c"

definition partition_servers :: "nat list \<Rightarrow> nat list \<Rightarrow> ('s, 'e) kvconfig \<Rightarrow> ('s, 'e) kvconfig option" where
  "partition_servers p1 p2 c =
     Option.bind (for_peers (\<lambda>i c. Option.bind (kv_disconnect i p2 c) (kv_connect i p1)) p1 c)
       (for_peers (\<lambda>i c. Option.bind (kv_disconnect i p1 c) (kv_connect i p2)) p2)"

text \<open>\<open>shuffle\<close> is the permutation the generator of random numbers chooses. The result is the name of the clerk and the clients
  it is given.\<close>

definition connect_client_by_name :: "string \<Rightarrow> nat list \<Rightarrow> ('s, 'e) kvconfig \<Rightarrow> ('s, 'e) kvconfig option" where
  "connect_client_by_name ck_name to c =
     (case k_clerks c ck_name of
        None \<Rightarrow> None
      | Some endnames \<Rightarrow>
          if list_all (\<lambda>j. j < length endnames) to
          then Option.bind (enable_all True (map (\<lambda>j. endnames ! j) to) (k_net c)) (\<lambda>n. Some (c\<lparr>k_net := n\<rparr>))
          else None)"

definition make_client ::
  "(string list \<Rightarrow> string list) \<Rightarrow> nat list \<Rightarrow> ('s, 'e) kvconfig \<Rightarrow> ((string \<times> string list) \<times> ('s, 'e) kvconfig) option" where
  "make_client shuffle to c =
     (case uniqstrings (k_n c) (k_id c) of (endnames, ID) \<Rightarrow>
        Option.bind (open_ends 0 endnames (k_net c)) (\<lambda>n.
          let ends = shuffle endnames
          in case uniqstring ID of (ck_name, ID) \<Rightarrow>
               let c = c\<lparr>k_net := n, k_id := ID, k_clerks := (k_clerks c)(ck_name \<mapsto> endnames), k_next_client_id := Suc (k_next_client_id c)\<rparr>
               in Option.bind (connect_client_by_name ck_name to c) (\<lambda>c. Some ((ck_name, ends), c))))"

definition delete_client :: "string \<Rightarrow> ('s, 'e) kvconfig \<Rightarrow> ('s, 'e) kvconfig" where
  "delete_client ck_name c = c\<lparr>k_clerks := (k_clerks c)(ck_name := None)\<rparr>"

text \<open>A fresh persister with a copy of the content of the old one. The two methods that read it take the lock separately; here they
  read at one instant, and \<open>torn_copy\<close> below is the copy with a save in between.\<close>

definition copy_persister :: "nat \<Rightarrow> ('s, 'e) kvconfig \<Rightarrow> ('s, 'e) kvconfig" where
  "copy_persister i c =
     (let old = k_cells c (k_saved c ! i);
          p = save_state_and_snapshot (raft_state old) (snapshot old) persister_new;
          a = k_next_cell c
      in c\<lparr>k_cells := (k_cells c)(a := p), k_next_cell := Suc a, k_saved := (k_saved c)[i := a]\<rparr>)"

definition shutdown_server :: "nat \<Rightarrow> ('s, 'e) kvconfig \<Rightarrow> ('s, 'e) kvconfig option" where
  "shutdown_server i c =
     Option.bind (kv_disconnect i (kv_all c) c) (\<lambda>c.
       case delete_server (show_nat i) (k_net c) of
         (None, _) \<Rightarrow> None
       | (Some _, n) \<Rightarrow>
           if i < length (k_saved c) \<and> i < length (k_kvservers c)
           then let c = copy_persister i (c\<lparr>k_net := n\<rparr>) in Some (c\<lparr>k_kvservers := (k_kvservers c)[i := None]\<rparr>)
           else None)"

definition start_server :: "('s, 'e) kv_impl \<Rightarrow> nat \<Rightarrow> ('s, 'e) kvconfig \<Rightarrow> ('s, 'e) kvconfig option" where
  "start_server K i c =
     (if i < length (k_endnames c) \<and> i < length (k_saved c) \<and> i < length (k_kvservers c)
      then case uniqstrings (k_n c) (k_id c) of (names, ID) \<Rightarrow>
           Option.bind (open_ends 0 names (k_net c)) (\<lambda>n.
             let c = copy_persister i (c\<lparr>k_net := n, k_id := ID, k_endnames := (k_endnames c)[i := names]\<rparr>);
                 kv = kv_new K names i (k_saved c ! i) (k_maxraftstate c)
             in case register_service ''raft'' (kv_raft_methods K kv) (builder_new (show_nat i)) of
                  (Ok _, b1) \<Rightarrow>
                    (case register_service ''kv'' (kv_methods K kv) b1 of
                       (Ok _, b2) \<Rightarrow>
                         (case build b2 (k_server_id c) of (srv, sid) \<Rightarrow>
                            (case add_server srv (k_net c) of
                               (None, _) \<Rightarrow> None
                             | (Some _, n) \<Rightarrow> Some (c\<lparr>k_net := n, k_server_id := sid, k_kvservers := (k_kvservers c)[i := Some kv]\<rparr>)))
                     | _ \<Rightarrow> None)
                | _ \<Rightarrow> None)
      else None)"

definition kvconfig_new :: "('s, 'e) kv_impl \<Rightarrow> nat \<Rightarrow> bool \<Rightarrow> nat option \<Rightarrow> nat \<Rightarrow> nat \<Rightarrow> nat \<Rightarrow> ('s, 'e) kvconfig option" where
  "kvconfig_new K n unreliable maxraftstate ID sid now =
     (let cfg = \<lparr>k_net = net_create, k_n = n, k_kvservers = replicate n None, k_saved = [0..<n],
                 k_endnames = replicate n (replicate n []), k_clerks = (\<lambda>_. None), k_next_client_id = n + 1000,
                 k_maxraftstate = maxraftstate, k_start = now, k_t0 = now, k_rpcs0 = 0, k_ops = 0,
                 k_cells = (\<lambda>_. persister_new), k_next_cell = n, k_id = ID, k_server_id = sid\<rparr>
      in Option.bind (for_peers (start_server K) [0..<n] cfg) (\<lambda>c.
         Option.bind (connect_all c) (\<lambda>c.
         Some (c\<lparr>k_net := set_reliable (\<not> unreliable) (k_net c)\<rparr>))))"

text \<open>A write of some instance to its persister.\<close>

definition kv_late_write :: "nat \<Rightarrow> simple_persister \<Rightarrow> ('s, 'e) kvconfig \<Rightarrow> ('s, 'e) kvconfig" where
  "kv_late_write a p c = c\<lparr>k_cells := (k_cells c)(a := p)\<rparr>"

text \<open>Shutting a server down and starting it again, as the tests do.\<close>

definition restart_server :: "('s, 'e) kv_impl \<Rightarrow> nat \<Rightarrow> ('s, 'e) kvconfig \<Rightarrow> ('s, 'e) kvconfig option" where
  "restart_server K i c = Option.bind (shutdown_server i c) (start_server K i)"

text \<open>\<open>lead i\<close> is what server \<open>i\<close> answers when it is asked whether it is the leader.\<close>

fun find_leader :: "(nat \<Rightarrow> bool) \<Rightarrow> nat \<Rightarrow> 's option list \<Rightarrow> nat option" where
  "find_leader lead i [] = None"
| "find_leader lead i (kv # kvs) = (if kv \<noteq> None \<and> lead i then Some i else find_leader lead (Suc i) kvs)"

definition leader :: "(nat \<Rightarrow> bool) \<Rightarrow> ('s, 'e) kvconfig \<Rightarrow> nat option" where
  "leader lead c = find_leader lead 0 (k_kvservers c)"

fun split_servers :: "nat \<Rightarrow> nat \<Rightarrow> nat list \<Rightarrow> nat list \<Rightarrow> nat list \<Rightarrow> nat list \<times> nat list" where
  "split_servers n l [] p1 p2 = (p1, p2 @ [l])"
| "split_servers n l (i # is) p1 p2 =
     (if i \<noteq> l
      then if length p1 < n div 2 + 1 then split_servers n l is (p1 @ [i]) p2 else split_servers n l is p1 (p2 @ [i])
      else split_servers n l is p1 p2)"

definition make_partition :: "(nat \<Rightarrow> bool) \<Rightarrow> ('s, 'e) kvconfig \<Rightarrow> nat list \<times> nat list" where
  "make_partition lead c =
     split_servers (k_n c) (case leader lead c of Some l \<Rightarrow> l | None \<Rightarrow> 0) [0..<k_n c] [] []"

subsection \<open>Statistics and the time limit\<close>

definition kv_count_op :: "('s, 'e) kvconfig \<Rightarrow> ('s, 'e) kvconfig" where
  "kv_count_op c = c\<lparr>k_ops := Suc (k_ops c)\<rparr>"

definition kv_check_timeout :: "nat \<Rightarrow> ('s, 'e) kvconfig \<Rightarrow> unit option" where
  "kv_check_timeout now c = (if now - k_start c > 120 * 1000 then None else Some ())"

definition kv_begin :: "nat \<Rightarrow> ('s, 'e) kvconfig \<Rightarrow> ('s, 'e) kvconfig" where
  "kv_begin now c = c\<lparr>k_t0 := now, k_rpcs0 := total_count (k_net c), k_ops := 0\<rparr>"

definition kv_end :: "nat \<Rightarrow> ('s, 'e) kvconfig \<Rightarrow> (nat \<times> nat \<times> nat \<times> nat) option" where
  "kv_end now c =
     Option.bind (kv_check_timeout now c) (\<lambda>_. Some (now - k_t0 c, k_n c, total_count (k_net c) - k_rpcs0 c, k_ops c))"

subsection \<open>The invariant\<close>

text \<open>The servers in \<open>S\<close> have been started at least once.\<close>

definition kv_wf :: "nat set \<Rightarrow> ('s, 'e) kvconfig \<Rightarrow> bool" where
  "kv_wf S c \<longleftrightarrow>
     names_wf S (k_n c) (k_id c) (k_endnames c) \<and> length (k_kvservers c) = k_n c \<and> length (k_saved c) = k_n c \<and>
     \<not> poisoned (k_net c) \<and> (\<forall>a \<in> set (k_saved c). a < k_next_cell c) \<and>
     (\<forall>ck names. k_clerks c ck = Some names \<longrightarrow> length names = k_n c) \<and>
     (\<forall>x s. connections (k_net c) x = Some (Some s) \<longrightarrow> (\<exists>j < k_n c. s = show_nat j)) \<and>
     (\<forall>j \<in> S. servers (k_net c) (show_nat j) \<noteq> None)"

lemma kv_wfD:
  assumes "kv_wf S c"
  shows "names_wf S (k_n c) (k_id c) (k_endnames c)" "length (k_kvservers c) = k_n c" "length (k_saved c) = k_n c"
    and "\<not> poisoned (k_net c)" "\<forall>a \<in> set (k_saved c). a < k_next_cell c"
    and "k_clerks c ck = Some names \<Longrightarrow> length names = k_n c"
    and "connections (k_net c) x = Some (Some s) \<Longrightarrow> \<exists>j < k_n c. s = show_nat j"
    and "j \<in> S \<Longrightarrow> servers (k_net c) (show_nat j) \<noteq> None"
  using assms unfolding kv_wf_def by blast+

text \<open>Enabling or disabling clients, all that the links between servers are changed by.\<close>

definition set_links :: "string set \<Rightarrow> bool \<Rightarrow> ('s, 'e) kvconfig \<Rightarrow> ('s, 'e) kvconfig" where
  "set_links A yes c = c\<lparr>k_net := k_net c\<lparr>enabled := \<lambda>x. if x \<in> A then Some yes else enabled (k_net c) x\<rparr>\<rparr>"

lemma set_links_sel [simp]:
  "k_n (set_links A yes c) = k_n c" "k_endnames (set_links A yes c) = k_endnames c" "k_id (set_links A yes c) = k_id c"
  "k_saved (set_links A yes c) = k_saved c" "k_cells (set_links A yes c) = k_cells c" "k_clerks (set_links A yes c) = k_clerks c"
  "k_kvservers (set_links A yes c) = k_kvservers c" "k_next_cell (set_links A yes c) = k_next_cell c"
  "enabled (k_net (set_links A yes c)) x = (if x \<in> A then Some yes else enabled (k_net c) x)"
  by (simp_all add: set_links_def)

lemma set_links_wf: "kv_wf S c \<Longrightarrow> kv_wf S (set_links A yes c)"
  by (simp add: kv_wf_def set_links_def)

lemma enable_twice:
  assumes "\<not> poisoned (k_net c)"
  shows "Option.bind (enable_all yes xs (k_net c)) (\<lambda>n. Option.bind (enable_all yes ys n) (\<lambda>n. Some (c\<lparr>k_net := n\<rparr>))) =
    Some (set_links (set xs \<union> set ys) yes c)"
proof -
  define n1 where "n1 = k_net c\<lparr>enabled := \<lambda>x. if x \<in> set xs then Some yes else enabled (k_net c) x\<rparr>"
  have 1: "enable_all yes xs (k_net c) = Some n1" unfolding n1_def by (rule enable_all_eq[OF assms])
  have p: "\<not> poisoned n1" using assms by (simp add: n1_def)
  have "(\<lambda>x. if x \<in> set ys then Some yes else enabled n1 x) =
      (\<lambda>x. if x \<in> set xs \<union> set ys then Some yes else enabled (k_net c) x)" by (rule ext) (auto simp: n1_def)
  then show ?thesis unfolding 1 bind.simps enable_all_eq[OF p] by (simp add: set_links_def n1_def)
qed

definition between :: "string list list \<Rightarrow> nat \<Rightarrow> nat list \<Rightarrow> string set" where
  "between E i js = (\<lambda>j. E ! i ! j) ` set js \<union> (\<lambda>j. E ! j ! i) ` set js"

lemma kv_connect_eq:
  assumes w: "kv_wf S c" and i: "i < k_n c" and to: "set to \<subseteq> {..<k_n c}"
  shows "kv_connect i to c = Some (set_links (between (k_endnames c) i to) True c)"
proof -
  note nw = names_wfD(1,2)[OF kv_wfD(1)[OF w]]
  have "list_all (\<lambda>j. i < length (k_endnames c) \<and> j < length (k_endnames c ! i) \<and> j < length (k_endnames c) \<and> i < length (k_endnames c ! j)) to"
    using nw i to by (auto simp: list_all_iff)
  then show ?thesis using enable_twice[OF kv_wfD(4)[OF w]] by (simp add: kv_connect_def Let_def between_def)
qed

lemma kv_disconnect_eq:
  assumes w: "kv_wf S c" and i: "i < k_n c" and fr: "set fr \<subseteq> {..<k_n c}"
  shows "kv_disconnect i fr c = Some (set_links (between (k_endnames c) i fr) False c)"
proof -
  note nw = names_wfD(1,2)[OF kv_wfD(1)[OF w]]
  have ne: "k_endnames c ! j \<noteq> []" if "j < k_n c" for j using nw(2)[OF that] that by auto
  have "list_all (\<lambda>j. i < length (k_endnames c) \<and> (k_endnames c ! i \<noteq> [] \<longrightarrow> j < length (k_endnames c ! i)) \<and>
      j < length (k_endnames c) \<and> (k_endnames c ! j \<noteq> [] \<longrightarrow> i < length (k_endnames c ! j))) fr"
    using nw i fr by (auto simp: list_all_iff)
  moreover have "filter (\<lambda>j. k_endnames c ! i \<noteq> []) fr = fr" using ne[OF i] by (simp add: filter_True)
  moreover have "filter (\<lambda>j. k_endnames c ! j \<noteq> []) fr = fr" using ne fr by (intro filter_True) auto
  ultimately show ?thesis using enable_twice[OF kv_wfD(4)[OF w]] by (simp add: kv_disconnect_def Let_def between_def)
qed

subsection \<open>Partitions\<close>

definition across :: "string list list \<Rightarrow> nat set \<Rightarrow> nat list \<Rightarrow> string set" where
  "across E A js = (\<Union>i \<in> A. between E i js)"

lemma across_iff:
  assumes w: "names_wf {..<n} n ID E" and A: "A \<subseteq> {..<n}" "set js \<subseteq> {..<n}" and ab: "a < n" "b < n"
  shows "E ! a ! b \<in> across E A js \<longleftrightarrow> (a \<in> A \<and> b \<in> set js) \<or> (b \<in> A \<and> a \<in> set js)"
proof -
  have inj: "E ! a ! b = E ! k ! l \<longleftrightarrow> a = k \<and> b = l" if "k < n" "l < n" for k l
    using names_wfD(6)[OF w _ _ ab(2) that(2), of a k] ab that by simp
  have "E ! a ! b \<in> across E A js \<longleftrightarrow> (\<exists>i \<in> A. \<exists>j \<in> set js. E ! a ! b = E ! i ! j \<or> E ! a ! b = E ! j ! i)"
    by (auto simp: across_def between_def)
  also have "\<dots> \<longleftrightarrow> (\<exists>i \<in> A. \<exists>j \<in> set js. (a = i \<and> b = j) \<or> (a = j \<and> b = i))"
    using inj A by (intro bex_cong refl) (auto simp: subset_eq)
  finally show ?thesis by blast
qed

lemma across_form: "x \<in> across E A js \<Longrightarrow> \<exists>i \<in> A. \<exists>j \<in> set js. x = E ! i ! j \<or> x = E ! j ! i"
  by (auto simp: across_def between_def)

lemma set_links_absorb:
  assumes "F' \<inter> T = {}"
  shows "set_links T' True (set_links F' False (set_links T True (set_links F False c))) =
    set_links (T \<union> T') True (set_links (F \<union> F') False c)"
proof -
  have "(\<lambda>x. if x \<in> T' then Some True else if x \<in> F' then Some False else if x \<in> T then Some True
        else if x \<in> F then Some False else enabled (k_net c) x) =
      (\<lambda>x. if x \<in> T \<union> T' then Some True else if x \<in> F \<union> F' then Some False else enabled (k_net c) x)"
    by (rule ext) (use assms in auto)
  then show ?thesis by (simp add: set_links_def cong: if_cong)
qed

lemma across_disjoint:
  assumes w: "names_wf {..<n} n ID E" and A: "A \<subseteq> set own" "i \<in> set own" "set own \<subseteq> {..<n}" "set other \<subseteq> {..<n}"
    and d: "set own \<inter> set other = {}"
  shows "across E A other \<inter> between E i own = {}"
proof -
  have "x \<notin> between E i own" if x: "x \<in> across E A other" for x
  proof
    assume b: "x \<in> between E i own"
    obtain k l where k: "k \<in> A" "l \<in> set other" "x = E ! k ! l \<or> x = E ! l ! k" using across_form[OF x] by blast
    then have kl: "k < n" "l < n" "l \<notin> set own" using A d by auto
    have s: "{i} \<subseteq> {..<n}" using A by auto
    have b': "x \<in> across E {i} own" using b by (simp add: across_def)
    from k(3) show False
      using b' across_iff[OF w s A(3) kl(1,2)] across_iff[OF w s A(3) kl(2,1)] kl(3) A(2) by auto
  qed
  then show ?thesis by blast
qed

lemma sides_eq:
  assumes "kv_wf {..<k_n c} c" "set xs \<subseteq> set own" "set own \<subseteq> {..<k_n c}" "set other \<subseteq> {..<k_n c}" "set own \<inter> set other = {}"
  shows "for_peers (\<lambda>i c. Option.bind (kv_disconnect i other c) (kv_connect i own)) xs c =
    Some (set_links (across (k_endnames c) (set xs) own) True (set_links (across (k_endnames c) (set xs) other) False c))"
  using assms
proof (induction xs arbitrary: c)
  case Nil
  then show ?case by (simp add: across_def set_links_def)
next
  case (Cons i xs)
  let ?E = "k_endnames c"
  have i: "i < k_n c" "i \<in> set own" using Cons.prems by auto
  define c1 where "c1 = set_links (between ?E i own) True (set_links (between ?E i other) False c)"
  have step: "Option.bind (kv_disconnect i other c) (kv_connect i own) = Some c1"
    using kv_disconnect_eq[OF Cons.prems(1) i(1) Cons.prems(4)]
      kv_connect_eq[OF set_links_wf[OF Cons.prems(1), where A = "between ?E i other" and yes = False], where i = i and to = own]
      i(1) Cons.prems(3)
    by (simp add: c1_def)
  have w1: "kv_wf {..<k_n c1} c1" using Cons.prems(1) by (simp add: c1_def set_links_wf)
  have sub: "set xs \<subseteq> set own" using Cons.prems(2) by simp
  have "for_peers (\<lambda>i c. Option.bind (kv_disconnect i other c) (kv_connect i own)) xs c1 =
      Some (set_links (across ?E (set xs) own) True (set_links (across ?E (set xs) other) False c1))"
    using Cons.IH[OF w1 sub] Cons.prems(3-5) by (simp add: c1_def)
  also have "set_links (across ?E (set xs) own) True (set_links (across ?E (set xs) other) False c1) =
      set_links (across ?E (set (i # xs)) own) True (set_links (across ?E (set (i # xs)) other) False c)"
    unfolding c1_def using set_links_absorb[OF across_disjoint[OF kv_wfD(1)[OF Cons.prems(1)] sub i(2) Cons.prems(3-5)]]
    by (simp add: across_def)
  finally show ?case using step by simp
qed

definition partitioned :: "nat list \<Rightarrow> nat list \<Rightarrow> ('s, 'e) kvconfig \<Rightarrow> ('s, 'e) kvconfig" where
  "partitioned p1 p2 c =
     (let E = k_endnames c
      in set_links (across E (set p2) p2) True (set_links (across E (set p2) p1) False
           (set_links (across E (set p1) p1) True (set_links (across E (set p1) p2) False c))))"

lemma partition_eq:
  assumes "kv_wf {..<k_n c} c" "set p1 \<subseteq> {..<k_n c}" "set p2 \<subseteq> {..<k_n c}" "set p1 \<inter> set p2 = {}"
  shows "partition_servers p1 p2 c = Some (partitioned p1 p2 c)"
proof -
  let ?c1 = "set_links (across (k_endnames c) (set p1) p1) True (set_links (across (k_endnames c) (set p1) p2) False c)"
  have w: "kv_wf {..<k_n ?c1} ?c1" using assms(1) by (simp add: set_links_wf)
  have "for_peers (\<lambda>i c. Option.bind (kv_disconnect i p2 c) (kv_connect i p1)) p1 c = Some ?c1"
    by (rule sides_eq[OF assms(1) order_refl assms(2-4)])
  moreover have "for_peers (\<lambda>i c. Option.bind (kv_disconnect i p1 c) (kv_connect i p2)) p2 ?c1 = Some (partitioned p1 p2 c)"
    using sides_eq[OF w order_refl, of p2 p1] assms(2-4) by (simp add: Int_commute partitioned_def Let_def)
  ultimately show ?thesis by (simp add: partition_servers_def)
qed

lemma partitioned_links:
  assumes w: "kv_wf {..<k_n c} c" and p: "set p1 \<subseteq> {..<k_n c}" "set p2 \<subseteq> {..<k_n c}" "set p1 \<inter> set p2 = {}"
    and ab: "a \<in> set p1 \<union> set p2" "b \<in> set p1 \<union> set p2"
  shows "enabled (k_net (partitioned p1 p2 c)) (k_endnames c ! a ! b) = Some (a \<in> set p1 \<longleftrightarrow> b \<in> set p1)"
proof -
  have n: "a < k_n c" "b < k_n c" using ab p by auto
  note x = across_iff[OF kv_wfD(1)[OF w] _ _ n]
  have side: "a \<in> set p2 \<longleftrightarrow> a \<notin> set p1" "b \<in> set p2 \<longleftrightarrow> b \<notin> set p1" using ab p(3) by blast+
  show ?thesis unfolding partitioned_def Let_def set_links_sel x[OF p(1) p(1)] x[OF p(1) p(2)] x[OF p(2) p(1)] x[OF p(2) p(2)]
      side
    by (cases "a \<in> set p1"; cases "b \<in> set p1") simp_all
qed

lemma partitioned_rest:
  assumes "\<And>a b. a \<in> set p1 \<union> set p2 \<Longrightarrow> b \<in> set p1 \<union> set p2 \<Longrightarrow> y \<noteq> k_endnames c ! a ! b"
  shows "enabled (k_net (partitioned p1 p2 c)) y = enabled (k_net c) y"
  using assms by (auto simp: partitioned_def Let_def dest!: across_form)

lemma split_servers_eq:
  "split_servers n l js p1 p2 =
    (let ys = filter (\<lambda>i. i \<noteq> l) js; m = n div 2 + 1 - length p1 in (p1 @ take m ys, p2 @ drop m ys @ [l]))"
proof (induction js arbitrary: p1 p2)
  case (Cons i js)
  show ?case
  proof (cases "i \<noteq> l \<and> length p1 < n div 2 + 1")
    case True
    then have "n div 2 + 1 - length p1 = Suc (n div 2 + 1 - length (p1 @ [i]))" by (simp add: Suc_diff_le)
    then show ?thesis using True Cons by (simp add: Let_def)
  next
    case False
    then show ?thesis using Cons by (auto simp: Let_def)
  qed
qed (simp add: Let_def)

lemma find_leader_spec:
  "case find_leader lead i kvs of
     Some l \<Rightarrow> i \<le> l \<and> l < i + length kvs \<and> kvs ! (l - i) \<noteq> None \<and> lead l
   | None \<Rightarrow> \<forall>j < length kvs. kvs ! j \<noteq> None \<longrightarrow> \<not> lead (i + j)"
proof (induction kvs arbitrary: i)
  case (Cons kv kvs)
  show ?case
  proof (cases "kv \<noteq> None \<and> lead i")
    case True
    then show ?thesis by simp
  next
    case False
    show ?thesis
    proof (cases "find_leader lead (Suc i) kvs")
      case None
      have "\<not> lead (i + j)" if "j < length (kv # kvs)" "(kv # kvs) ! j \<noteq> None" for j
        using that False Cons[of "Suc i"] None by (cases j) auto
      then show ?thesis using False None by auto
    next
      case (Some l)
      then have "i \<le> l" "l < i + length (kv # kvs)" "kvs ! (l - Suc i) \<noteq> None" "lead l" "l - i = Suc (l - Suc i)"
        using Cons[of "Suc i"] by auto
      then show ?thesis using False Some by auto
    qed
  qed
qed simp

lemma make_partition_split:
  assumes n: "0 < k_n c" "length (k_kvservers c) = k_n c" and p: "make_partition lead c = (p1, p2)"
  shows "mset (p1 @ p2) = mset [0..<k_n c]" "length p1 = min (k_n c div 2 + 1) (k_n c - 1)"
    and "leader lead c = Some l \<Longrightarrow> l \<in> set p2"
proof -
  define l where "l = (case leader lead c of Some l \<Rightarrow> l | None \<Rightarrow> 0)"
  define ys where "ys = filter (\<lambda>i. i \<noteq> l) [0..<k_n c]"
  have l: "l < k_n c" using find_leader_spec[where lead = lead and i = 0 and kvs = "k_kvservers c"] n by (auto simp: l_def leader_def split: option.splits)
  have e: "p1 = take (k_n c div 2 + 1) ys" "p2 = drop (k_n c div 2 + 1) ys @ [l]"
    using p unfolding make_partition_def l_def[symmetric] split_servers_eq by (simp_all add: Let_def ys_def)
  have "mset (p1 @ p2) = mset ys + {#l#}" unfolding e by (simp flip: append_assoc)
  also have "mset ys = mset_set ({..<k_n c} - {l})"
    using mset_set_set[of ys] by (simp add: ys_def set_diff_eq lessThan_def conj_commute)
  also have "mset_set ({..<k_n c} - {l}) + {#l#} = mset_set {..<k_n c}" using l by (simp add: mset_set.remove[of _ l])
  also have "\<dots> = mset [0..<k_n c]" using mset_set_set[of "[0..<k_n c]"] by (simp add: atLeast0LessThan)
  finally show "mset (p1 @ p2) = mset [0..<k_n c]" .
  then have "length p1 + length p2 = k_n c" using mset_eq_length by fastforce
  then show "length p1 = min (k_n c div 2 + 1) (k_n c - 1)" unfolding e by simp
  show "leader lead c = Some l' \<Longrightarrow> l' \<in> set p2" for l' by (simp add: e l_def)
qed

subsection \<open>Servers and clerks\<close>

lemma save_copy: "save_state_and_snapshot (raft_state p) (snapshot p) persister_new = p"
  by (simp add: save_state_and_snapshot_def save_steps_def raft_state_def snapshot_def persister_new_def)

lemma copy_persister_sel [simp]:
  "k_net (copy_persister i c) = k_net c" "k_n (copy_persister i c) = k_n c" "k_id (copy_persister i c) = k_id c"
  "k_endnames (copy_persister i c) = k_endnames c" "k_kvservers (copy_persister i c) = k_kvservers c" "k_clerks (copy_persister i c) = k_clerks c"
  "k_server_id (copy_persister i c) = k_server_id c" "k_maxraftstate (copy_persister i c) = k_maxraftstate c"
  "k_saved (copy_persister i c) = (k_saved c)[i := k_next_cell c]" "k_next_cell (copy_persister i c) = Suc (k_next_cell c)"
  "k_cells (copy_persister i c) = (k_cells c)(k_next_cell c := k_cells c (k_saved c ! i))"
  by (simp_all add: copy_persister_def Let_def save_copy)

lemma saved_below: "\<forall>a \<in> set xs. a < m \<Longrightarrow> \<forall>a \<in> set (xs[i := m]). a < Suc m"
  using set_update_subset_insert[of xs i m] by fastforce

lemma fresh_distinct: "distinct (map show_nat [k..<m])"
  by (simp add: distinct_map inj_on_def)

lemma start_server_ok:
  assumes w: "kv_wf S c" and i: "i < k_n c"
  defines "names \<equiv> map show_nat [k_id c..<k_id c + k_n c]"
  shows "\<exists>c'. start_server K i c = Some c' \<and> kv_wf (insert i S) c' \<and> k_n c' = k_n c \<and> k_endnames c' = (k_endnames c)[i := names] \<and>
    k_saved c' = (k_saved c)[i := k_next_cell c] \<and> k_cells c' = (k_cells c)(k_next_cell c := k_cells c (k_saved c ! i)) \<and>
    k_next_cell c' = Suc (k_next_cell c) \<and> k_kvservers c' = (k_kvservers c)[i := Some (kv_new K names i (k_next_cell c) (k_maxraftstate c))] \<and>
    enabled (k_net c') = (\<lambda>x. if x \<in> set names then Some False else enabled (k_net c) x)"
proof -
  note d = kv_wfD[OF w]
  obtain n where n: "open_ends 0 names (k_net c) = Some n" "\<not> poisoned n" "servers n = servers (k_net c)"
      "enabled n = (\<lambda>x. if x \<in> set names then Some False else enabled (k_net c) x)"
      "\<forall>x. x \<notin> set names \<longrightarrow> connections n x = connections (k_net c) x"
      "\<forall>k < length names. connections n (names ! k) = Some (Some (show_nat (0 + k)))"
    using open_ends_eq[OF d(4), of names 0] fresh_distinct unfolding names_def by blast
  define kv where "kv = kv_new K names i (k_next_cell c) (k_maxraftstate c)"
  define srv where "srv = \<lparr>sv_name = show_nat i, sv_id = k_server_id c, sv_services =
      [''raft'' \<mapsto> service_handler ''raft'' (kv_raft_methods K kv), ''kv'' \<mapsto> service_handler ''kv'' (kv_methods K kv)]\<rparr>"
  define c1 where "c1 = copy_persister i (c\<lparr>k_net := n, k_id := k_id c + k_n c, k_endnames := (k_endnames c)[i := names]\<rparr>)"
  define c' where "c' = c1\<lparr>k_net := n\<lparr>servers := (servers n)(show_nat i \<mapsto> Some srv)\<rparr>, k_server_id := Suc (k_server_id c),
      k_kvservers := (k_kvservers c)[i := Some kv]\<rparr>"
  have s: "start_server K i c = Some c'"
    using n(1,2) i d(2,3) names_wfD(1)[OF d(1)] unfolding start_server_def uniqstrings_eq
    by (simp add: Let_def register_service_def add_service_def builder_new_def build_def add_server_def lock_def names_def[symmetric]
        c1_def c'_def srv_def kv_def)
  have sel: "k_n c' = k_n c" "k_id c' = k_id c + k_n c" "k_endnames c' = (k_endnames c)[i := names]" "k_clerks c' = k_clerks c"
      "k_saved c' = (k_saved c)[i := k_next_cell c]" "k_next_cell c' = Suc (k_next_cell c)"
      "k_cells c' = (k_cells c)(k_next_cell c := k_cells c (k_saved c ! i))" "k_kvservers c' = (k_kvservers c)[i := Some kv]"
      "poisoned (k_net c') = poisoned n" "enabled (k_net c') = enabled n" "connections (k_net c') = connections n"
      "servers (k_net c') = (servers n)(show_nat i \<mapsto> Some srv)"
    by (simp_all add: c'_def c1_def)
  have "\<exists>j < k_n c. s = show_nat j" if "connections n x = Some (Some s)" for x s
  proof (cases "x \<in> set names")
    case True
    have "length names = k_n c" by (simp add: names_def)
    then show ?thesis using True that n(6) by (auto simp: in_set_conv_nth)
  next
    case False
    then show ?thesis using that n(5) d(7) by auto
  qed
  then have "kv_wf (insert i S) c'"
    unfolding kv_wf_def sel using names_wf_fresh[OF d(1) i] d(2-6,8) n(2,3) saved_below[OF d(5)] by (auto simp: names_def)
  then show ?thesis using s sel n(4) by (intro exI[of _ c']) (simp add: kv_def)
qed

lemma shutdown_server_ok:
  assumes w: "kv_wf S c" and i: "i < k_n c"
  shows "\<exists>c'. shutdown_server i c = Some c' \<and> kv_wf S c' \<and> k_n c' = k_n c \<and> k_endnames c' = k_endnames c \<and> k_id c' = k_id c \<and>
    k_saved c' = (k_saved c)[i := k_next_cell c] \<and> k_cells c' = (k_cells c)(k_next_cell c := k_cells c (k_saved c ! i)) \<and>
    k_next_cell c' = Suc (k_next_cell c) \<and> k_kvservers c' = (k_kvservers c)[i := None] \<and> k_maxraftstate c' = k_maxraftstate c \<and>
    enabled (k_net c') = (\<lambda>x. if x \<in> between (k_endnames c) i [0..<k_n c] then Some False else enabled (k_net c) x)"
proof -
  define c0 where "c0 = set_links (between (k_endnames c) i [0..<k_n c]) False c"
  define n where "n = snd (delete_server (show_nat i) (k_net c0))"
  define c' where "c' = (copy_persister i (c0\<lparr>k_net := n\<rparr>))\<lparr>k_kvservers := (k_kvservers c)[i := None]\<rparr>"
  have w0: "kv_wf S c0" using w by (simp add: c0_def set_links_wf)
  note d = kv_wfD[OF w0]
  have c0: "kv_disconnect i (kv_all c) c = Some c0" using kv_disconnect_eq[OF w i, of "kv_all c"] by (simp add: kv_all_def c0_def atLeast0LessThan)
  have dn: "delete_server (show_nat i) (k_net c0) = (Some (), n)" using d(4) by (simp add: n_def delete_server_def lock_def)
  have n: "\<not> poisoned n" "connections n = connections (k_net c0)" "enabled n = enabled (k_net c0)"
      "\<And>x. servers n x = None \<longleftrightarrow> servers (k_net c0) x = None"
    using d(4) by (auto simp: n_def delete_server_def lock_def split: option.split)
  have k: "k_n c0 = k_n c" "k_kvservers c0 = k_kvservers c" by (simp_all add: c0_def)
  have s: "shutdown_server i c = Some c'"
    using d(2,3) i k unfolding shutdown_server_def c0 by (simp add: dn Let_def c'_def)
  have "kv_wf S c'" unfolding kv_wf_def using d n saved_below[OF d(5)] k(2) by (simp add: c'_def)
  then show ?thesis using s n(3) by (intro exI[of _ c']) (simp add: c'_def c0_def set_links_def)
qed

lemma connect_client_ok:
  assumes w: "kv_wf S c" and ck: "k_clerks c ck = Some names" and to: "set to \<subseteq> {..<k_n c}"
  shows "connect_client_by_name ck to c = Some (set_links ((!) names ` set to) True c)"
proof -
  have "list_all (\<lambda>j. j < length names) to" using to kv_wfD(6)[OF w ck] by (auto simp: list_all_iff)
  then show ?thesis
    by (simp add: connect_client_by_name_def ck enable_all_eq[OF kv_wfD(4)[OF w]] set_links_def)
qed

lemma make_client_ok:
  assumes w: "kv_wf S c" and to: "set to \<subseteq> {..<k_n c}"
  defines "names \<equiv> map show_nat [k_id c..<k_id c + k_n c]"
  shows "\<exists>c'. make_client shuffle to c = Some ((show_nat (k_id c + k_n c), shuffle names), c') \<and> kv_wf S c' \<and> k_n c' = k_n c \<and>
    k_endnames c' = k_endnames c \<and> k_clerks c' = (k_clerks c)(show_nat (k_id c + k_n c) \<mapsto> names) \<and>
    (\<forall>j < k_n c. enabled (k_net c') (names ! j) = Some (j \<in> set to) \<and> connections (k_net c') (names ! j) = Some (Some (show_nat j))) \<and>
    (\<forall>x. x \<notin> set names \<longrightarrow> enabled (k_net c') x = enabled (k_net c) x)"
proof -
  note d = kv_wfD[OF w]
  obtain n where n: "open_ends 0 names (k_net c) = Some n" "\<not> poisoned n" "servers n = servers (k_net c)"
      "enabled n = (\<lambda>x. if x \<in> set names then Some False else enabled (k_net c) x)"
      "\<forall>x. x \<notin> set names \<longrightarrow> connections n x = connections (k_net c) x"
      "\<forall>k < length names. connections n (names ! k) = Some (Some (show_nat (0 + k)))"
    using open_ends_eq[OF d(4), of names 0] fresh_distinct unfolding names_def by blast
  define c1 where "c1 = c\<lparr>k_net := n, k_id := Suc (k_id c + k_n c), k_clerks := (k_clerks c)(show_nat (k_id c + k_n c) \<mapsto> names),
      k_next_client_id := Suc (k_next_client_id c)\<rparr>"
  define c' where "c' = set_links ((!) names ` set to) True c1"
  have l: "length names = k_n c" by (simp add: names_def)
  have "names_wf S (k_n c) (Suc (k_id c + k_n c)) (k_endnames c)"
    using d(1) unfolding names_wf_def by (meson less_SucI trans_less_add1)
  moreover have "\<exists>j < k_n c. s = show_nat j" if "connections n x = Some (Some s)" for x s
  proof (cases "x \<in> set names")
    case True
    then show ?thesis using that n(6) by (auto simp: in_set_conv_nth l)
  next
    case False
    then show ?thesis using that n(5) d(7) by auto
  qed
  ultimately have w1: "kv_wf S c1" unfolding kv_wf_def using d n(2,3) l by (auto simp: c1_def)
  have "connect_client_by_name (show_nat (k_id c + k_n c)) to c1 = Some c'"
    unfolding c'_def by (rule connect_client_ok[OF w1]) (use to in \<open>simp_all add: c1_def\<close>)
  then have s: "make_client shuffle to c = Some ((show_nat (k_id c + k_n c), shuffle names), c')"
    using n(1) by (simp add: make_client_def uniqstrings_eq uniqstring_def Let_def names_def c1_def)
  have "names ! j \<in> (!) names ` set to \<longleftrightarrow> j \<in> set to" if "j < k_n c" for j
    using that to by (auto simp: names_def image_iff subset_eq)
  then have "\<forall>j < k_n c. enabled (k_net c') (names ! j) = Some (j \<in> set to)" using n(4) l by (simp add: c'_def c1_def)
  moreover have "\<forall>x. x \<notin> set names \<longrightarrow> enabled (k_net c') x = enabled (k_net c) x" using n(4) to l by (auto simp: c'_def c1_def)
  moreover have "\<forall>j < k_n c. connections (k_net c') (names ! j) = Some (Some (show_nat j))"
    using n(6) l by (simp add: c'_def set_links_def c1_def)
  ultimately show ?thesis using s set_links_wf[OF w1] by (intro exI[of _ c']) (simp add: c'_def c1_def)
qed

lemma connect_all_ok:
  assumes "kv_wf S c" "set xs \<subseteq> {..<k_n c}"
  shows "\<exists>A. for_peers (\<lambda>i c. kv_connect i (kv_all c) c) xs c = Some (set_links A True c)"
  using assms
proof (induction xs arbitrary: c)
  case Nil
  then show ?case by (intro exI[of _ "{}"]) (simp add: set_links_def)
next
  case (Cons i xs)
  let ?c = "set_links (between (k_endnames c) i (kv_all c)) True c"
  have "kv_connect i (kv_all c) c = Some ?c"
    using Cons.prems by (intro kv_connect_eq) (auto simp: kv_all_def)
  moreover obtain A where "for_peers (\<lambda>i c. kv_connect i (kv_all c) c) xs ?c = Some (set_links A True ?c)"
    using Cons.IH[OF set_links_wf[OF Cons.prems(1)], of "between (k_endnames c) i (kv_all c)" True] Cons.prems(2) by auto
  moreover have "set_links A True ?c = set_links (between (k_endnames c) i (kv_all c) \<union> A) True c"
    using set_links_absorb[of "{}" "between (k_endnames c) i (kv_all c)" A "{}" c] by (simp add: set_links_def)
  ultimately show ?case by auto
qed

subsection \<open>Runs of the test bed\<close>

text \<open>The test calls the operations with numbers of servers and with clerks that exist; requests make steps, and instances
  of the servers, present or past, write to their persisters. Each call of the test is one step, \<^verbatim>\<open>Config::new\<close> included.\<close>

inductive kv_run :: "('s, 'e) kv_impl \<Rightarrow> ('s, 'e) kvconfig \<Rightarrow> bool" for K where
  kv_run_new: "kvconfig_new K n unreliable maxraftstate ID sid now = Some c \<Longrightarrow> kv_run K c"
| kv_run_start: "kv_run K c \<Longrightarrow> i < k_n c \<Longrightarrow> start_server K i c = Some c' \<Longrightarrow> kv_run K c'"
| kv_run_shutdown: "kv_run K c \<Longrightarrow> i < k_n c \<Longrightarrow> shutdown_server i c = Some c' \<Longrightarrow> kv_run K c'"
| kv_run_partition: "kv_run K c \<Longrightarrow> set p1 \<subseteq> {..<k_n c} \<Longrightarrow> set p2 \<subseteq> {..<k_n c} \<Longrightarrow> set p1 \<inter> set p2 = {} \<Longrightarrow>
    partition_servers p1 p2 c = Some c' \<Longrightarrow> kv_run K c'"
| kv_run_connect_all: "kv_run K c \<Longrightarrow> connect_all c = Some c' \<Longrightarrow> kv_run K c'"
| kv_run_client: "kv_run K c \<Longrightarrow> set to \<subseteq> {..<k_n c} \<Longrightarrow> make_client shuffle to c = Some (ck, c') \<Longrightarrow> kv_run K c'"
| kv_run_connect_client: "kv_run K c \<Longrightarrow> set to \<subseteq> {..<k_n c} \<Longrightarrow> connect_client_by_name ck to c = Some c' \<Longrightarrow> kv_run K c'"
| kv_run_delete_client: "kv_run K c \<Longrightarrow> kv_run K (delete_client ck c)"
| kv_run_rpc: "kv_run K c \<Longrightarrow> enabled (k_net c) (client_name r) \<noteq> None \<Longrightarrow> rpc_step r (p, k_net c) (p', n') \<Longrightarrow>
    kv_run K (c\<lparr>k_net := n'\<rparr>)"
| kv_run_persist: "kv_run K c \<Longrightarrow> kv_run K (kv_late_write a p c)"

definition kvconfig_init :: "nat \<Rightarrow> nat option \<Rightarrow> nat \<Rightarrow> nat \<Rightarrow> nat \<Rightarrow> ('s, 'e) kvconfig" where
  "kvconfig_init n maxraftstate ID sid now =
     \<lparr>k_net = net_create, k_n = n, k_kvservers = replicate n None, k_saved = [0..<n],
      k_endnames = replicate n (replicate n []), k_clerks = (\<lambda>_. None), k_next_client_id = n + 1000,
      k_maxraftstate = maxraftstate, k_start = now, k_t0 = now, k_rpcs0 = 0, k_ops = 0,
      k_cells = (\<lambda>_. persister_new), k_next_cell = n, k_id = ID, k_server_id = sid\<rparr>"

lemma kvconfig_init_wf: "kv_wf {} (kvconfig_init n maxraftstate ID sid now)"
  by (simp add: kv_wf_def kvconfig_init_def names_wf_def net_create_def)

lemma start_servers_ok:
  assumes "kv_wf S c" "set xs \<subseteq> {..<k_n c}"
  shows "\<exists>c'. for_peers (start_server K) xs c = Some c' \<and> kv_wf (S \<union> set xs) c' \<and> k_n c' = k_n c"
  using assms
proof (induction xs arbitrary: S c)
  case (Cons i xs)
  obtain c1 where c1: "start_server K i c = Some c1" "kv_wf (insert i S) c1" "k_n c1 = k_n c"
    using start_server_ok[OF Cons.prems(1), of i K] Cons.prems(2) by auto
  then obtain c' where "for_peers (start_server K) xs c1 = Some c'" "kv_wf (insert i S \<union> set xs) c'" "k_n c' = k_n c1"
    using Cons.IH[OF c1(2)] Cons.prems(2) by auto
  then show ?case using c1 by auto
qed simp

lemma connect_all_wf:
  assumes "kv_wf S c"
  shows "\<exists>c'. connect_all c = Some c' \<and> kv_wf S c' \<and> k_n c' = k_n c"
proof -
  have "set [0..<k_n c] \<subseteq> {..<k_n c}" by auto
  then obtain A where "connect_all c = Some (set_links A True c)" using connect_all_ok[OF assms] unfolding connect_all_def by blast
  then show ?thesis using set_links_wf[OF assms] by auto
qed

lemma kvconfig_new_ok:
  "\<exists>c. kvconfig_new K n unreliable maxraftstate ID sid now = Some c \<and> kv_wf {..<n} c \<and> k_n c = n"
proof -
  let ?c = "kvconfig_init n maxraftstate ID sid now :: ('a, 'b) kvconfig"
  have n: "k_n ?c = n" by (simp add: kvconfig_init_def)
  obtain c1 where c1: "for_peers (start_server K) [0..<n] ?c = Some c1" "kv_wf {..<n} c1" "k_n c1 = n"
    using start_servers_ok[OF kvconfig_init_wf, of "[0..<n]" n maxraftstate ID sid now K] unfolding n by (auto simp: atLeast0LessThan)
  obtain c2 where c2: "connect_all c1 = Some c2" "kv_wf {..<n} c2" "k_n c2 = n" using connect_all_wf[OF c1(2)] c1(3) by auto
  have "kvconfig_new K n unreliable maxraftstate ID sid now = Some (c2\<lparr>k_net := set_reliable (\<not> unreliable) (k_net c2)\<rparr>)"
    using c1(1) c2(1) unfolding kvconfig_new_def Let_def kvconfig_init_def by simp
  moreover have "kv_wf {..<n} (c2\<lparr>k_net := set_reliable (\<not> unreliable) (k_net c2)\<rparr>)"
    using c2(2) by (simp add: kv_wf_def set_reliable_def)
  ultimately show ?thesis using c2(3) by auto
qed

lemma partitioned_wf: "kv_wf S c \<Longrightarrow> kv_wf S (partitioned p1 p2 c)" "k_n (partitioned p1 p2 c) = k_n c"
  by (simp_all add: partitioned_def Let_def set_links_wf)

lemma kv_run_wf: "kv_run K c \<Longrightarrow> kv_wf {..<k_n c} c"
proof (induction rule: kv_run.induct)
  case (kv_run_new n unreliable maxraftstate ID sid now c)
  then show ?case using kvconfig_new_ok[of K n unreliable maxraftstate ID sid now] by auto
next
  case (kv_run_start c i c')
  then show ?case using start_server_ok[OF kv_run_start.IH kv_run_start.hyps(2), of K] by (auto simp: insert_absorb)
next
  case (kv_run_shutdown c i c')
  then show ?case using shutdown_server_ok[OF kv_run_shutdown.IH kv_run_shutdown.hyps(2)] by auto
next
  case (kv_run_partition c p1 p2 c')
  then have "c' = partitioned p1 p2 c" using partition_eq[OF kv_run_partition.IH kv_run_partition.hyps(2-4)] by simp
  then show ?case using partitioned_wf kv_run_partition.IH by metis
next
  case (kv_run_connect_all c c')
  then show ?case using connect_all_wf[OF kv_run_connect_all.IH] by auto
next
  case (kv_run_client c to shuffle ck c')
  then show ?case using make_client_ok[OF kv_run_client.IH kv_run_client.hyps(2), of shuffle] by auto
next
  case (kv_run_connect_client c to ck c')
  then obtain names where "k_clerks c ck = Some names" by (auto simp: connect_client_by_name_def split: option.splits)
  then have "c' = set_links ((!) names ` set to) True c"
    using connect_client_ok[OF kv_run_connect_client.IH _ kv_run_connect_client.hyps(2)] kv_run_connect_client.hyps(3) by simp
  then show ?case using set_links_wf[OF kv_run_connect_client.IH] by simp
next
  case (kv_run_delete_client c ck)
  then show ?case by (simp add: kv_wf_def delete_client_def)
next
  case (kv_run_rpc c r p p' n')
  note d = kv_wfD[OF kv_run_rpc.IH]
  obtain e where e: "enabled (k_net c) (client_name r) = Some e" using kv_run_rpc.hyps(2) by blast
  have "same_ends (k_net c) n'" using rpc_step_ends[OF kv_run_rpc.hyps(3) d(4) e] d(7,8) by blast
  then show ?case using kv_run_rpc.IH by (simp add: kv_wf_def same_ends_def)
next
  case (kv_run_persist c a p)
  then show ?case by (simp add: kv_wf_def kv_late_write_def)
qed

lemma restart_server_ok:
  assumes "kv_run K c" "i < k_n c"
  shows "\<exists>c2. restart_server K i c = Some c2 \<and> kv_run K c2 \<and>
    k_cells c2 (k_saved c2 ! i) = k_cells c (k_saved c ! i) \<and> k_next_cell c \<le> k_saved c2 ! i \<and>
    k_kvservers c2 ! i = Some (kv_new K (k_endnames c2 ! i) i (k_saved c2 ! i) (k_maxraftstate c)) \<and>
    (\<forall>j < k_n c. enabled (k_net c2) (k_endnames c2 ! i ! j) = Some False \<and> enabled (k_net c2) (k_endnames c2 ! j ! i) = Some False)"
proof -
  note w = kv_run_wf[OF assms(1)]
  note d = kv_wfD[OF w]
  obtain c1 where c1: "shutdown_server i c = Some c1" "kv_wf {..<k_n c} c1" "k_n c1 = k_n c" "k_endnames c1 = k_endnames c"
      "k_saved c1 = (k_saved c)[i := k_next_cell c]" "k_cells c1 = (k_cells c)(k_next_cell c := k_cells c (k_saved c ! i))"
      "k_next_cell c1 = Suc (k_next_cell c)" "k_kvservers c1 = (k_kvservers c)[i := None]" "k_maxraftstate c1 = k_maxraftstate c"
      "enabled (k_net c1) = (\<lambda>x. if x \<in> between (k_endnames c) i [0..<k_n c] then Some False else enabled (k_net c) x)"
    using shutdown_server_ok[OF w assms(2)] by blast
  define names where "names = map show_nat [k_id c1..<k_id c1 + k_n c1]"
  have i1: "i < k_n c1" using c1(3) assms(2) by simp
  obtain c2 where c2: "start_server K i c1 = Some c2" "k_endnames c2 = (k_endnames c1)[i := names]"
      "k_saved c2 = (k_saved c1)[i := k_next_cell c1]" "k_cells c2 = (k_cells c1)(k_next_cell c1 := k_cells c1 (k_saved c1 ! i))"
      "k_kvservers c2 = (k_kvservers c1)[i := Some (kv_new K names i (k_next_cell c1) (k_maxraftstate c1))]"
      "enabled (k_net c2) = (\<lambda>x. if x \<in> set names then Some False else enabled (k_net c1) x)"
    using start_server_ok[OF c1(2) i1, of K] unfolding names_def by blast
  have r: "kv_run K c2"
    using kv_run.kv_run_start[OF kv_run.kv_run_shutdown[OF assms c1(1)] i1 c2(1)] .
  have l: "length (k_endnames c) = k_n c" "length names = k_n c" using names_wfD(1)[OF d(1)] c1(3) by (simp_all add: names_def)
  have "enabled (k_net c2) (k_endnames c2 ! i ! j) = Some False" "enabled (k_net c2) (k_endnames c2 ! j ! i) = Some False"
    if j: "j < k_n c" for j
  proof -
    show "enabled (k_net c2) (k_endnames c2 ! i ! j) = Some False" using c2(2,6) c1(4) l assms(2) j by simp
    show "enabled (k_net c2) (k_endnames c2 ! j ! i) = Some False"
      using c2(2,6) c1(4,10) l assms(2) j by (cases "j = i") (auto simp: between_def)
  qed
  then show ?thesis using c1 c2 r d(2,3) assms(2) l by (intro exI[of _ c2]) (simp add: restart_server_def)
qed

interpretation ktb: persisting "kv_run K" k_n k_cells k_saved k_next_cell kv_late_write "restart_server K" "\<lambda>p. p"
  for K :: "('s, 'e) kv_impl"
proof
  fix c :: "('s, 'e) kvconfig" and i
  assume "kv_run K c" "i < k_n c"
  then show "\<exists>c'. restart_server K i c = Some c' \<and> kv_run K c' \<and> k_next_cell c \<le> k_saved c' ! i \<and>
      k_cells c' (k_saved c' ! i) = k_cells c (k_saved c ! i)"
    using restart_server_ok[of K c i] by blast
qed (auto simp: kv_late_write_def intro: kv_run.kv_run_persist[unfolded kv_late_write_def])

lemma largest_bound: "a \<le> largest ns a \<and> (\<forall>n \<in> set ns. n \<le> largest ns a) \<and> (largest ns a = a \<or> largest ns a \<in> set ns)"
proof (induction ns arbitrary: a)
  case (Cons n ns)
  have "largest (n # ns) a = largest ns (max n a)" by (simp add: max_def)
  then show ?case using Cons[of "max n a"] by (auto simp: max_def split: if_splits)
qed simp

text \<open>\<^verbatim>\<open>log_size\<close> and \<^verbatim>\<open>snapshot_size\<close> are the maxima over the servers.\<close>

lemma log_size_max:
  "a \<in> set (k_saved c) \<Longrightarrow> length (raft_state (k_cells c a)) \<le> log_size c"
  "a \<in> set (k_saved c) \<Longrightarrow> length (snapshot (k_cells c a)) \<le> snapshot_size c"
  using largest_bound by (auto simp: log_size_def snapshot_size_def)

text \<open>The copy of a persister whose owner is saving meanwhile: \<open>k\<close> steps of the save come before the state is read, and \<open>m\<close>
  more before the snapshot is.\<close>

definition torn_copy :: "byte list \<Rightarrow> byte list \<Rightarrow> nat \<Rightarrow> nat \<Rightarrow> simple_persister \<Rightarrow> simple_persister" where
  "torn_copy state snap k m p =
     (let before = fold (\<lambda>f. f) (take k (save_steps state snap)) p;
          later = fold (\<lambda>f. f) (take (k + m) (save_steps state snap)) p
      in save_state_and_snapshot (raft_state before) (snapshot later) persister_new)"

subsection \<open>The properties\<close>

text \<open>C15. \<^verbatim>\<open>make_partition\<close> followed by \<^verbatim>\<open>partition\<close> cuts the leader off: in every run with at least three servers the two
  parts contain each server once, the first one is a majority, a server that answers to be the leader is found in the
  second, and afterwards a link between servers is enabled exactly when both are in the same part. Links of clerks and
  of earlier instances are left alone.\<close>

theorem partition_isolates_leader:
  assumes "kv_run K c" "3 \<le> k_n c" "make_partition lead c = (p1, p2)"
  shows "mset (p1 @ p2) = mset [0..<k_n c] \<and> k_n c < 2 * length p1 \<and> (\<forall>l. leader lead c = Some l \<longrightarrow> l \<in> set p2) \<and>
    (\<exists>c'. partition_servers p1 p2 c = Some c' \<and> kv_run K c' \<and>
      (\<forall>a < k_n c. \<forall>b < k_n c. enabled (k_net c') (k_endnames c ! a ! b) = Some (a \<in> set p1 \<longleftrightarrow> b \<in> set p1)) \<and>
      (\<forall>x. (\<forall>a < k_n c. \<forall>b < k_n c. x \<noteq> k_endnames c ! a ! b) \<longrightarrow> enabled (k_net c') x = enabled (k_net c) x))"
proof -
  note w = kv_run_wf[OF assms(1)]
  have n: "0 < k_n c" using assms(2) by simp
  note s = make_partition_split[OF n kv_wfD(2)[OF w] assms(3)]
  have u: "set p1 \<union> set p2 = {..<k_n c}" using mset_eq_setD[OF s(1)] by (simp add: atLeast0LessThan)
  have "distinct (p1 @ p2)" using mset_eq_imp_distinct_iff[OF s(1)] by simp
  then have p: "set p1 \<subseteq> {..<k_n c}" "set p2 \<subseteq> {..<k_n c}" "set p1 \<inter> set p2 = {}" using u by auto
  note e = partition_eq[OF w p]
  have "enabled (k_net (partitioned p1 p2 c)) (k_endnames c ! a ! b) = Some (a \<in> set p1 \<longleftrightarrow> b \<in> set p1)"
    if "a < k_n c" "b < k_n c" for a b
    using that by (intro partitioned_links[OF w p]) (simp_all add: u)
  moreover have "enabled (k_net (partitioned p1 p2 c)) x = enabled (k_net c) x"
    if "\<forall>a < k_n c. \<forall>b < k_n c. x \<noteq> k_endnames c ! a ! b" for x
    using that by (intro partitioned_rest) (simp add: u)
  moreover have "k_n c < 2 * length p1" using s(2) assms(2) by simp
  ultimately show ?thesis using s(1,3) e kv_run.kv_run_partition[OF assms(1) p e] by blast
qed

definition idle_kv :: "(nat, string list) kv_impl" where
  "idle_kv = \<lparr>kv_new = (\<lambda>names me a limit. me), kv_raft_methods = (\<lambda>_. []), kv_methods = (\<lambda>_. [])\<rparr>"

theorem partition_isolates_leader_witness:
  "\<exists>c c'. kvconfig_new idle_kv 3 False None 0 0 0 = Some c \<and>
     partition_servers (fst (make_partition (\<lambda>i. i = 1) c)) (snd (make_partition (\<lambda>i. i = 1) c)) c = Some c' \<and>
     3 < 2 * length (fst (make_partition (\<lambda>i. i = 1) c))"
proof -
  obtain c where c: "kvconfig_new idle_kv 3 False None 0 0 0 = Some c" "k_n c = 3"
    using kvconfig_new_ok[of idle_kv 3 False None 0 0 0] by blast
  have "3 \<le> k_n c" using c(2) by simp
  note p = partition_isolates_leader[OF kv_run.kv_run_new[OF c(1)] this surjective_pairing, of "\<lambda>i. i = 1"]
  then obtain c' where "partition_servers (fst (make_partition (\<lambda>i. i = 1) c)) (snd (make_partition (\<lambda>i. i = 1) c)) c = Some c'" by blast
  then show ?thesis using p c by auto
qed

text \<open>C25. A server that is shut down and started again gets the state and the snapshot its predecessor saved last, whatever
  instances of the past still write to the persisters they were given does not change them, and it can neither send to
  nor receive from another server until the test connects it again.\<close>

theorem kv_restart:
  assumes "kv_run K c" "i < k_n c" "\<forall>(a, p) \<in> set ws. a < k_next_cell c"
  shows "\<exists>c'. restart_server K i c = Some c' \<and>
    k_kvservers c' ! i = Some (kv_new K (k_endnames c' ! i) i (k_saved c' ! i) (k_maxraftstate c)) \<and>
    (\<forall>j < k_n c. enabled (k_net c') (k_endnames c' ! i ! j) = Some False \<and> enabled (k_net c') (k_endnames c' ! j ! i) = Some False) \<and>
    (let c2 = fold (\<lambda>(a, p). kv_late_write a p) ws c'
     in kv_run K c2 \<and> k_cells c2 (k_saved c2 ! i) = k_cells c (k_saved c ! i))"
  using ktb.old_writes_lost[OF assms] restart_server_ok[OF assms(1,2)] by (auto simp: Let_def ktb.writes_def)

theorem kv_restart_witness:
  "\<exists>c c'. kv_run idle_kv c \<and> k_cells c (k_saved c ! 0) = \<lparr>p_state = [1], p_snapshot = [2]\<rparr> \<and>
     restart_server idle_kv 0 c = Some c' \<and> k_cells c' (k_saved c' ! 0) = \<lparr>p_state = [1], p_snapshot = [2]\<rparr>"
proof -
  obtain c where c: "kvconfig_new idle_kv 2 False None 0 0 0 = Some c" "k_n c = 2"
    using kvconfig_new_ok[of idle_kv 2 False None 0 0 0] by blast
  define c0 where "c0 = kv_late_write (k_saved c ! 0) \<lparr>p_state = [1], p_snapshot = [2]\<rparr> c"
  have r: "kv_run idle_kv c0" unfolding c0_def by (rule kv_run.kv_run_persist[OF kv_run.kv_run_new[OF c(1)]])
  have i: "0 < k_n c0" using c(2) by (simp add: c0_def kv_late_write_def)
  have p: "k_cells c0 (k_saved c0 ! 0) = \<lparr>p_state = [1], p_snapshot = [2]\<rparr>" by (simp add: c0_def kv_late_write_def)
  show ?thesis using kv_restart[OF r i, of "[]"] r p by auto
qed

text \<open>A clerk made with a list of servers gets one client per server, in some order; those of the listed servers are enabled
  and no others, and the links that existed before are unchanged.\<close>

theorem clerk_links:
  assumes "kv_run K c" "set to \<subseteq> {..<k_n c}" "mset (shuffle (map show_nat [k_id c..<k_id c + k_n c])) = mset (map show_nat [k_id c..<k_id c + k_n c])"
  shows "\<exists>ck ends c' names. make_client shuffle to c = Some ((ck, ends), c') \<and> kv_run K c' \<and> k_clerks c' ck = Some names \<and>
    mset ends = mset names \<and> length names = k_n c \<and>
    (\<forall>j < k_n c. enabled (k_net c') (names ! j) = Some (j \<in> set to) \<and> connections (k_net c') (names ! j) = Some (Some (show_nat j))) \<and>
    (\<forall>a < k_n c. \<forall>b < k_n c. enabled (k_net c') (k_endnames c' ! a ! b) = enabled (k_net c) (k_endnames c ! a ! b))"
proof -
  note w = kv_run_wf[OF assms(1)]
  define names where "names = map show_nat [k_id c..<k_id c + k_n c]"
  obtain c' where c': "make_client shuffle to c = Some ((show_nat (k_id c + k_n c), shuffle names), c')"
      "k_endnames c' = k_endnames c" "k_clerks c' = (k_clerks c)(show_nat (k_id c + k_n c) \<mapsto> names)"
      "\<forall>j < k_n c. enabled (k_net c') (names ! j) = Some (j \<in> set to) \<and> connections (k_net c') (names ! j) = Some (Some (show_nat j))"
      "\<forall>x. x \<notin> set names \<longrightarrow> enabled (k_net c') x = enabled (k_net c) x"
    using make_client_ok[OF w assms(2), of shuffle] unfolding names_def by blast
  have "k_endnames c ! a ! b \<notin> set names" if "a < k_n c" "b < k_n c" for a b
    using names_wfD(5)[OF kv_wfD(1)[OF w], of a b] that by (auto simp: names_def)
  then have "\<forall>a < k_n c. \<forall>b < k_n c. enabled (k_net c') (k_endnames c' ! a ! b) = enabled (k_net c) (k_endnames c ! a ! b)"
    using c'(2,5) by simp
  moreover have "k_clerks c' (show_nat (k_id c + k_n c)) = Some names" using c'(3) by simp
  moreover have "length names = k_n c" "mset (shuffle names) = mset names" using assms(3) by (simp_all add: names_def)
  ultimately show ?thesis using c'(1,4) kv_run.kv_run_client[OF assms(1,2) c'(1)] by blast
qed

theorem clerk_links_witness:
  "\<exists>c ck ends c'. kvconfig_new idle_kv 2 False None 0 0 0 = Some c \<and> make_client rev [1] c = Some ((ck, ends), c') \<and> kv_run idle_kv c'"
proof -
  obtain c where c: "kvconfig_new idle_kv 2 False None 0 0 0 = Some c" "k_n c = 2"
    using kvconfig_new_ok[of idle_kv 2 False None 0 0 0] by blast
  have "set [1] \<subseteq> {..<k_n c}" using c(2) by simp
  from clerk_links[OF kv_run.kv_run_new[OF c(1)] this, of rev] show ?thesis using c(1) by auto
qed

text \<open>C36. \<^verbatim>\<open>save_state_and_snapshot\<close> is not atomic: it takes the lock once for the state and once for the snapshot, and so do the
  two calls by which \<^verbatim>\<open>shutdown_server\<close> copies the persister of a server that is still running. When the copy is made
  during a save, every combination of old and new state and snapshot can be the result, and nothing else.\<close>

theorem copy_may_tear:
  "(\<exists>k m. torn_copy state snap k m p = q) \<longleftrightarrow>
     raft_state q \<in> {raft_state p, state} \<and> snapshot q \<in> {snapshot p, snap}"
proof
  assume "\<exists>k m. torn_copy state snap k m p = q"
  then obtain k m where q: "torn_copy state snap k m p = q" by blast
  have t: "take k (save_steps state snap) \<in> {[], [\<lambda>p. p\<lparr>p_state := state\<rparr>], save_steps state snap}" for k
    by (cases k; cases "k - 1") (auto simp: save_steps_def)
  have "raft_state (fold (\<lambda>f. f) (take k (save_steps state snap)) p) \<in> {raft_state p, state}"
      "snapshot (fold (\<lambda>f. f) (take k (save_steps state snap)) p) \<in> {snapshot p, snap}" for k
    using t[of k] by (auto simp: save_steps_def raft_state_def snapshot_def)
  then show "raft_state q \<in> {raft_state p, state} \<and> snapshot q \<in> {snapshot p, snap}"
    unfolding q[symmetric] torn_copy_def Let_def by (simp add: save_state_and_snapshot_def save_steps_def raft_state_def snapshot_def)
next
  assume q: "raft_state q \<in> {raft_state p, state} \<and> snapshot q \<in> {snapshot p, snap}"
  have t: "torn_copy state snap 0 0 p = p" "torn_copy state snap 1 0 p = p\<lparr>p_state := state\<rparr>"
      "torn_copy state snap 0 2 p = p\<lparr>p_snapshot := snap\<rparr>" "torn_copy state snap 1 1 p = p\<lparr>p_state := state, p_snapshot := snap\<rparr>"
    by (simp_all add: torn_copy_def Let_def save_steps_def save_state_and_snapshot_def raft_state_def snapshot_def persister_new_def numeral_2_eq_2)
  have "q \<in> {p, p\<lparr>p_state := state\<rparr>, p\<lparr>p_snapshot := snap\<rparr>, p\<lparr>p_state := state, p_snapshot := snap\<rparr>}"
    using q by (cases p; cases q) (auto simp: raft_state_def snapshot_def)
  then show "\<exists>k m. torn_copy state snap k m p = q" using t by blast
qed

end
