(* ===== verification/ThreadPools.thy ===== *)
theory ThreadPools
  imports Prelude "HOL-Library.Multiset"
begin

text \<open>
  The thread pools of projects 4 and 5 (\<^verbatim>\<open>courses/rust/projects/project-5/src/thread_pool/\<close>): the pool with a shared queue, and
  the pool that starts a thread per job. The queue is an unbounded channel of the crate \<^verbatim>\<open>crossbeam\<close>, so it is a parameter: the record
  \<open>channel\<close> holds its operations together with what can be observed of it, the messages it holds and the numbers of its
  senders and receivers, and \<open>channel_ok\<close> says what its documentation promises. Whether the operating system can
  start a thread is an argument of the step that asks for one. The state of a pool has a worker per thread.
\<close>

subsection \<open>The channel\<close>

record ('t, 'c) channel =
  unbounded :: 'c
  ch_send :: "'t \<Rightarrow> 'c \<Rightarrow> 'c option"
  ch_recv :: "'c \<Rightarrow> ('t option \<times> 'c) option"
  rx_clone :: "'c \<Rightarrow> 'c"
  rx_drop :: "'c \<Rightarrow> 'c"
  tx_drop :: "'c \<Rightarrow> 'c"
  queued :: "'c \<Rightarrow> 't list"
  senders :: "'c \<Rightarrow> nat"
  receivers :: "'c \<Rightarrow> nat"

text \<open>
  Sending fails when no receiver is left. Receiving takes the oldest message; on an empty channel it blocks, which
  is \<^const>\<open>None\<close>, or reports that no sender is left. The messages stay as long as there is a receiver.
\<close>

definition channel_ok :: "('t, 'c) channel \<Rightarrow> bool" where
  "channel_ok C \<longleftrightarrow>
     queued C (unbounded C) = [] \<and> senders C (unbounded C) = 1 \<and> receivers C (unbounded C) = 1 \<and>
     (\<forall>t c. if receivers C c = 0 then ch_send C t c = None
            else \<exists>c'. ch_send C t c = Some c' \<and> queued C c' = queued C c @ [t] \<and> senders C c' = senders C c \<and> receivers C c' = receivers C c) \<and>
     (\<forall>c. case queued C c of
            t # ts \<Rightarrow> \<exists>c'. ch_recv C c = Some (Some t, c') \<and> queued C c' = ts \<and> senders C c' = senders C c \<and> receivers C c' = receivers C c
          | [] \<Rightarrow> ch_recv C c = (if senders C c = 0 then Some (None, c) else None)) \<and>
     (\<forall>c. queued C (rx_clone C c) = queued C c \<and> senders C (rx_clone C c) = senders C c \<and> receivers C (rx_clone C c) = Suc (receivers C c)) \<and>
     (\<forall>c. 1 < receivers C c \<longrightarrow> queued C (rx_drop C c) = queued C c) \<and>
     (\<forall>c. senders C (rx_drop C c) = senders C c \<and> receivers C (rx_drop C c) = receivers C c - 1) \<and>
     (\<forall>c. queued C (tx_drop C c) = queued C c \<and> senders C (tx_drop C c) = senders C c - 1 \<and> receivers C (tx_drop C c) = receivers C c)"

subsection \<open>The pool with a shared queue\<close>

text \<open>A worker waits in \<^verbatim>\<open>recv\<close> or runs a task.\<close>

datatype 't worker = Waiting | Running 't

record ('t, 'c) pool =
  chan :: 'c
  workers :: "'t worker list"
  finished :: "'t list"

text \<open>
  The drop of a \<^verbatim>\<open>TaskReceiver\<close>: when its thread is panicking, a clone moves into a new thread. If the thread cannot be
  started, the closure is dropped with the clone, still on the panicking thread, so the clone's drop asks for a thread
  in turn. The list \<open>os\<close> tells which requests the operating system grants; \<^const>\<open>None\<close> is the drop that is still asking when
  the list ends. The number is that of the threads started.
\<close>

fun task_receiver_drop :: "('t, 'c) channel \<Rightarrow> bool \<Rightarrow> bool list \<Rightarrow> 'c \<Rightarrow> (nat \<times> 'c) option" where
  "task_receiver_drop C panicking [] c = (if panicking then None else Some (0, rx_drop C c))"
| "task_receiver_drop C panicking (granted # os) c =
     (if panicking then
        (let rx = rx_clone C c in
         if granted then Some (1, rx_drop C rx)
         else (case task_receiver_drop C panicking os rx of None \<Rightarrow> None | Some (n, c') \<Rightarrow> Some (n, rx_drop C c')))
      else Some (0, rx_drop C c))"

fun pool_threads :: "('t, 'c) channel \<Rightarrow> bool list \<Rightarrow> nat \<Rightarrow> 'c \<Rightarrow> (unit, unit) outcome \<times> nat \<times> 'c" where
  "pool_threads C os 0 c = (Ok (), 0, c)"
| "pool_threads C os (Suc n) c =
     (let c1 = rx_clone C c in
      case os of
        False # _ \<Rightarrow> (Err (), 0, rx_drop C c1)
      | _ \<Rightarrow> (case pool_threads C (tl os) n c1 of (r, k, c2) \<Rightarrow> (r, Suc k, c2)))"

text \<open>\<^verbatim>\<open>SharedQueueThreadPool::new\<close>. The receiver it cloned from is dropped at its end, and on an error the sender too. In the list
  of what the operating system grants, what is missing is granted.\<close>

definition pool_new :: "('t, 'c) channel \<Rightarrow> bool list \<Rightarrow> nat \<Rightarrow> (unit, unit) outcome \<times> ('t, 'c) pool" where
  "pool_new C os threads =
     (case pool_threads C os threads (unbounded C) of
        (Ok _, k, c) \<Rightarrow> (Ok (), \<lparr>chan = rx_drop C c, workers = replicate k Waiting, finished = []\<rparr>)
      | (r, k, c) \<Rightarrow> (r, \<lparr>chan = tx_drop C (rx_drop C c), workers = replicate k Waiting, finished = []\<rparr>))"

definition pool_spawn :: "('t, 'c) channel \<Rightarrow> 't \<Rightarrow> ('t, 'c) pool \<Rightarrow> (unit, ('t, 'c) pool) outcome" where
  "pool_spawn C job p = (case ch_send C job (chan p) of Some c \<Rightarrow> Ok (p\<lparr>chan := c\<rparr>) | None \<Rightarrow> Panic)"

text \<open>The steps of \<^verbatim>\<open>run_tasks\<close> on one thread: receiving, and the end of a task. When the channel reports that no sender is
  left, the loop goes on.\<close>

inductive run_tasks :: "('t, 'c) channel \<Rightarrow> ('t \<Rightarrow> bool) \<Rightarrow> ('t, 'c) pool \<Rightarrow> ('t, 'c) pool \<Rightarrow> bool" for C panics where
  take_task: "i < length (workers p) \<Longrightarrow> workers p ! i = Waiting \<Longrightarrow> ch_recv C (chan p) = Some (Some t, c) \<Longrightarrow>
    run_tasks C panics p (p\<lparr>chan := c, workers := (workers p)[i := Running t]\<rparr>)"
| end_task: "i < length (workers p) \<Longrightarrow> workers p ! i = Running t \<Longrightarrow> \<not> panics t \<Longrightarrow>
    run_tasks C panics p (p\<lparr>workers := (workers p)[i := Waiting], finished := finished p @ [t]\<rparr>)"
| panic_task: "i < length (workers p) \<Longrightarrow> workers p ! i = Running t \<Longrightarrow> panics t \<Longrightarrow>
    task_receiver_drop C True os (chan p) = Some (n, c) \<Longrightarrow>
    run_tasks C panics p
      \<lparr>chan = c, workers = take i (workers p) @ replicate n Waiting @ drop (Suc i) (workers p), finished = finished p @ [t]\<rparr>"

inductive run_tasks_spin :: "('t, 'c) channel \<Rightarrow> ('t, 'c) pool \<Rightarrow> ('t, 'c) pool \<Rightarrow> bool" for C where
  no_sender: "i < length (workers p) \<Longrightarrow> workers p ! i = Waiting \<Longrightarrow> ch_recv C (chan p) = Some (None, c) \<Longrightarrow>
    run_tasks_spin C p (p\<lparr>chan := c\<rparr>)"

inductive pool_run :: "('t, 'c) channel \<Rightarrow> ('t \<Rightarrow> bool) \<Rightarrow> ('t, 'c) pool \<Rightarrow> 't list \<Rightarrow> ('t, 'c) pool \<Rightarrow> bool" for C panics p where
  pr_start: "pool_run C panics p [] p"
| pr_spawn: "pool_run C panics p ts q \<Longrightarrow> pool_spawn C t q = Ok q' \<Longrightarrow> pool_run C panics p (ts @ [t]) q'"
| pr_work: "pool_run C panics p ts q \<Longrightarrow> run_tasks C panics q q' \<Longrightarrow> pool_run C panics p ts q'"
| pr_spin: "pool_run C panics p ts q \<Longrightarrow> run_tasks_spin C q q' \<Longrightarrow> pool_run C panics p ts q'"
| pr_drop: "pool_run C panics p ts q \<Longrightarrow> 0 < senders C (chan q) \<Longrightarrow> pool_run C panics p ts (q\<lparr>chan := tx_drop C (chan q)\<rparr>)"

subsection \<open>The pool without a queue\<close>

text \<open>\<^verbatim>\<open>NaiveThreadPool\<close> starts a thread for each job; \<^verbatim>\<open>thread::spawn\<close> panics if it cannot.\<close>

definition naive_spawn :: "bool \<Rightarrow> 't \<Rightarrow> 't worker list \<Rightarrow> (unit, 't worker list) outcome" where
  "naive_spawn granted job ws = (if granted then Ok (ws @ [Running job]) else Panic)"

subsection \<open>Laws of the channel\<close>

lemma channel_okD:
  assumes "channel_ok C"
  shows "queued C (unbounded C) = []" "senders C (unbounded C) = 1" "receivers C (unbounded C) = 1"
    "queued C (rx_clone C c) = queued C c" "senders C (rx_clone C c) = senders C c" "receivers C (rx_clone C c) = Suc (receivers C c)"
    "1 < receivers C c \<Longrightarrow> queued C (rx_drop C c) = queued C c" "senders C (rx_drop C c) = senders C c"
    "receivers C (rx_drop C c) = receivers C c - 1" "queued C (tx_drop C c) = queued C c" "senders C (tx_drop C c) = senders C c - 1"
    "receivers C (tx_drop C c) = receivers C c"
  using assms unfolding channel_ok_def by blast+

lemma sendE:
  assumes "channel_ok C" "ch_send C t c = Some c'"
  shows "queued C c' = queued C c @ [t]" "senders C c' = senders C c" "receivers C c' = receivers C c"
proof -
  have "if receivers C c = 0 then ch_send C t c = None
      else \<exists>c'. ch_send C t c = Some c' \<and> queued C c' = queued C c @ [t] \<and> senders C c' = senders C c \<and> receivers C c' = receivers C c"
    using assms(1) unfolding channel_ok_def by blast
  then show "queued C c' = queued C c @ [t]" "senders C c' = senders C c" "receivers C c' = receivers C c"
    using assms(2) by (auto split: if_splits)
qed

lemma recv_cases:
  assumes "channel_ok C"
  shows "case queued C c of
      t # ts \<Rightarrow> \<exists>c'. ch_recv C c = Some (Some t, c') \<and> queued C c' = ts \<and> senders C c' = senders C c \<and> receivers C c' = receivers C c
    | [] \<Rightarrow> ch_recv C c = (if senders C c = 0 then Some (None, c) else None)"
  using assms unfolding channel_ok_def by blast

lemma recv_task:
  assumes "channel_ok C" "ch_recv C c = Some (Some t, c')"
  shows "queued C c = t # queued C c'" "senders C c' = senders C c" "receivers C c' = receivers C c"
  using recv_cases[OF assms(1), of c] assms(2) by (auto split: list.splits if_splits)

lemma recv_none:
  assumes "channel_ok C" "ch_recv C c = Some (None, c')"
  shows "queued C c = []" "senders C c = 0" "c' = c"
  using recv_cases[OF assms(1), of c] assms(2) by (auto split: list.splits if_splits)

lemma receiver_drop_panicking:
  assumes "channel_ok C" "task_receiver_drop C True os c = Some (n, c')" "0 < receivers C c"
  shows "n = 1 \<and> queued C c' = queued C c \<and> senders C c' = senders C c \<and> receivers C c' = receivers C c"
  using assms(2,3)
proof (induction os arbitrary: c n c')
  case (Cons granted os)
  note ok = channel_okD[OF assms(1)]
  show ?case
  proof (cases granted)
    case True
    then show ?thesis using Cons.prems by (auto simp: Let_def ok)
  next
    case False
    then obtain c1 where c1: "task_receiver_drop C True os (rx_clone C c) = Some (n, c1)" "c' = rx_drop C c1"
      using Cons.prems(1) by (auto simp: Let_def split: option.splits)
    then show ?thesis using Cons.IH[OF c1(1)] Cons.prems(2) by (auto simp: ok)
  qed
qed simp

lemma pool_threads_granted:
  assumes "channel_ok C"
  shows "\<exists>c'. pool_threads C [] n c = (Ok (), n, c') \<and> queued C c' = queued C c \<and> senders C c' = senders C c \<and>
     receivers C c' = receivers C c + n"
proof (induction n arbitrary: c)
  case (Suc n)
  from Suc[of "rx_clone C c"] show ?case by (auto simp: channel_okD[OF assms])
qed simp

subsection \<open>The invariant of the pool\<close>

fun task_of :: "'t worker \<Rightarrow> 't multiset" where
  "task_of Waiting = {#}"
| "task_of (Running t) = {#t#}"

definition at_work :: "'t worker list \<Rightarrow> 't multiset" where
  "at_work ws = sum_list (map task_of ws)"

lemma at_work_simps [simp]:
  "at_work [] = {#}" "at_work (w # ws) = task_of w + at_work ws" "at_work (ws @ vs) = at_work ws + at_work vs"
  "at_work (replicate n Waiting) = {#}"
  by (simp add: at_work_def)+ (induction n; simp add: at_work_def)

definition pool_inv :: "('t, 'c) channel \<Rightarrow> nat \<Rightarrow> 't list \<Rightarrow> ('t, 'c) pool \<Rightarrow> bool" where
  "pool_inv C n ts p \<longleftrightarrow> length (workers p) = n \<and> receivers C (chan p) = n \<and>
     mset (queued C (chan p)) + at_work (workers p) + mset (finished p) = mset ts"

definition pool_work :: "('t, 'c) channel \<Rightarrow> ('t, 'c) pool \<Rightarrow> nat" where
  "pool_work C p = 2 * length (queued C (chan p)) + size (at_work (workers p))"

lemma split_worker:
  assumes "i < length ws"
  shows "at_work ws = at_work (take i ws) + task_of (ws ! i) + at_work (drop (Suc i) ws)"
    "at_work (ws[i := w]) = at_work (take i ws) + task_of w + at_work (drop (Suc i) ws)"
proof -
  have "at_work ws = at_work (take i ws @ ws ! i # drop (Suc i) ws)" using id_take_nth_drop[OF assms] by simp
  then show "at_work ws = at_work (take i ws) + task_of (ws ! i) + at_work (drop (Suc i) ws)" by simp
  show "at_work (ws[i := w]) = at_work (take i ws) + task_of w + at_work (drop (Suc i) ws)"
    by (simp add: upd_conv_take_nth_drop[OF assms])
qed

lemma run_tasks_inv:
  assumes ok: "channel_ok C" and n: "0 < n" and "run_tasks C panics p q" "pool_inv C n ts p"
  shows "pool_inv C n ts q \<and> pool_work C q < pool_work C p"
  using assms(3,4)
proof (induction rule: run_tasks.induct)
  case (take_task i p t c)
  then show ?case using recv_task[OF ok take_task(3)] split_worker[OF take_task(1)]
    by (simp add: pool_inv_def pool_work_def)
next
  case (end_task i p t)
  then show ?case using split_worker[OF end_task(1)] by (simp add: pool_inv_def pool_work_def)
next
  case (panic_task i p t os k c)
  have r: "k = 1 \<and> queued C c = queued C (chan p) \<and> senders C c = senders C (chan p) \<and> receivers C c = receivers C (chan p)"
    by (rule receiver_drop_panicking[OF ok panic_task(4)]) (use panic_task(5) n in \<open>simp add: pool_inv_def\<close>)
  then show ?case using panic_task split_worker(1)[OF panic_task(1)] by (simp add: pool_inv_def pool_work_def)
qed

lemma run_tasks_stuck:
  assumes ok: "channel_ok C" and n: "0 < n" and inv: "pool_inv C n ts p" and stuck: "\<nexists>q. run_tasks C panics p q"
  shows "queued C (chan p) = [] \<and> set (workers p) = {Waiting} \<and> mset (finished p) = mset ts"
proof -
  have w: "workers p ! i = Waiting" if i: "i < length (workers p)" for i
  proof (cases "workers p ! i")
    case (Running t)
    have d: "task_receiver_drop C True [True] (chan p) = Some (1, rx_drop C (rx_clone C (chan p)))" by (simp add: Let_def)
    have False
      using end_task[where C = C and panics = panics, OF i Running] panic_task[OF i Running _ d, where panics = panics] stuck
      by (cases "panics t") blast+
    then show ?thesis ..
  qed simp
  then have ws: "workers p = replicate n Waiting" using inv by (intro nth_equalityI) (auto simp: pool_inv_def)
  have "queued C (chan p) = []"
  proof (cases "queued C (chan p)")
    case (Cons t q)
    then obtain c where "ch_recv C (chan p) = Some (Some t, c)" using recv_cases[OF ok, of "chan p"] by auto
    moreover have "0 < length (workers p)" using inv n by (simp add: pool_inv_def)
    ultimately have False using take_task[of 0 p C t c panics] w[of 0] stuck by blast
    then show ?thesis ..
  qed
  then show ?thesis using inv n by (simp add: pool_inv_def ws)
qed

lemma pool_run_inv:
  assumes ok: "channel_ok C" and n: "0 < n" and "pool_run C panics p ts q" and p: "pool_inv C n [] p"
  shows "pool_inv C n ts q"
  using assms(3)
proof (induction rule: pool_run.induct)
  case (pr_spawn ts q t q')
  then obtain c where "ch_send C t (chan q) = Some c" "q' = q\<lparr>chan := c\<rparr>" by (auto simp: pool_spawn_def split: option.splits)
  then show ?case using pr_spawn.IH sendE[OF ok] by (simp add: pool_inv_def)
next
  case (pr_work ts q q')
  then show ?case using run_tasks_inv[OF ok n] by blast
next
  case (pr_spin ts q q')
  then show ?case by (auto dest!: recv_none(3)[OF ok] elim!: run_tasks_spin.cases)
qed (use p channel_okD[OF ok] in \<open>simp_all add: pool_inv_def\<close>)

lemma pool_new_inv:
  assumes ok: "channel_ok C" and n: "0 < n"
  shows "\<exists>p. pool_new C [] n = (Ok (), p) \<and> pool_inv C n [] p"
proof -
  obtain c where "pool_threads C [] n (unbounded C) = (Ok (), n, c)" "queued C c = []" "receivers C c = Suc n"
    using pool_threads_granted[OF ok, of n "unbounded C"] by (auto simp: channel_okD[OF ok])
  then show ?thesis using n by (simp add: pool_new_def pool_inv_def channel_okD[OF ok])
qed

subsection \<open>A channel for examples\<close>

definition list_channel :: "('t, 't list \<times> nat \<times> nat) channel" where
  "list_channel =
     \<lparr>unbounded = ([], 1, 1),
      ch_send = (\<lambda>t (q, s, r). if r = 0 then None else Some (q @ [t], s, r)),
      ch_recv = (\<lambda>(q, s, r). case q of [] \<Rightarrow> if s = 0 then Some (None, q, s, r) else None | t # ts \<Rightarrow> Some (Some t, ts, s, r)),
      rx_clone = (\<lambda>(q, s, r). (q, s, Suc r)), rx_drop = (\<lambda>(q, s, r). (q, s, r - 1)), tx_drop = (\<lambda>(q, s, r). (q, s - 1, r)),
      queued = (\<lambda>(q, s, r). q), senders = (\<lambda>(q, s, r). s), receivers = (\<lambda>(q, s, r). r)\<rparr>"

lemma list_channel_ok: "channel_ok list_channel"
  by (auto simp: channel_ok_def list_channel_def split: list.splits)

section \<open>Properties\<close>

text \<open>C18. The pool with a shared queue keeps its threads and loses no task: whatever tasks are spawned, panicking ones included,
  and however the threads interleave, the number of threads stays what it was at the start; every spawned task is exactly once
  in the queue, at work or finished; every step of a thread brings the pool nearer to the end of its work, and when no
  step is left, all spawned tasks have run.\<close>

theorem shared_queue_pool:
  assumes "channel_ok C" "0 < n" "pool_new C [] n = (Ok (), p)" "pool_run C panics p ts q"
  shows "length (workers q) = n \<and> mset (queued C (chan q)) + at_work (workers q) + mset (finished q) = mset ts \<and>
     (\<forall>q'. run_tasks C panics q q' \<longrightarrow> pool_work C q' < pool_work C q) \<and>
     ((\<nexists>q'. run_tasks C panics q q') \<longrightarrow> mset (finished q) = mset ts)"
proof -
  have "pool_inv C n [] p" using pool_new_inv[OF assms(1,2)] assms(3) by auto
  from pool_run_inv[OF assms(1,2,4) this] have i: "pool_inv C n ts q" .
  then show ?thesis using run_tasks_inv[OF assms(1,2) _ i] run_tasks_stuck[OF assms(1,2) i] by (auto simp: pool_inv_def)
qed

definition two_threads :: "(nat, nat list \<times> nat \<times> nat) pool" where
  "two_threads = snd (pool_new list_channel [] 2)"

lemma two_threads_new: "pool_new list_channel [] 2 = (Ok (), two_threads)"
  by (simp add: two_threads_def pool_new_def list_channel_def numeral_2_eq_2)

lemma two_threads_parts: "chan two_threads = ([], 1, 2)" "workers two_threads = [Waiting, Waiting]"
  by (simp_all add: two_threads_def pool_new_def list_channel_def numeral_2_eq_2)

lemma two_threads_run: "\<exists>q. pool_run list_channel (\<lambda>t. t = 7) two_threads [7] q"
proof -
  have "\<exists>q. pool_spawn list_channel 7 two_threads = Ok q"
    by (simp add: two_threads_def pool_new_def pool_spawn_def list_channel_def numeral_2_eq_2)
  then show ?thesis using pr_spawn[OF pr_start, of list_channel 7 two_threads] by auto
qed

theorem shared_queue_pool_witness:
  "\<exists>q. pool_run list_channel (\<lambda>t. t = 7) two_threads [7] q \<and> length (workers q) = 2"
proof -
  obtain q where q: "pool_run list_channel (\<lambda>t. t = 7) two_threads [7] q" using two_threads_run by blast
  have "length (workers q) = 2" using shared_queue_pool[OF list_channel_ok _ two_threads_new q] by simp
  then show ?thesis using q by blast
qed

text \<open>C39. The threads of a dropped pool never exit: once no sender is left and all tasks have run, each of the threads the pool
  started with is still there, and all that any of them does, forever, is to ask the closed channel again.\<close>

theorem pool_never_exits:
  assumes "channel_ok C" "0 < n" "pool_new C [] n = (Ok (), p)" "pool_run C panics p ts q"
    and "senders C (chan q) = 0" "\<nexists>q'. run_tasks C panics q q'"
  shows "length (workers q) = n \<and> run_tasks_spin C q q \<and> (\<forall>q'. run_tasks_spin C q q' \<longrightarrow> q' = q)"
proof -
  have "pool_inv C n [] p" using pool_new_inv[OF assms(1,2)] assms(3) by auto
  from pool_run_inv[OF assms(1,2,4) this] have i: "pool_inv C n ts q" .
  note st = run_tasks_stuck[OF assms(1,2) i assms(6)]
  have l: "length (workers q) = n" using i by (simp add: pool_inv_def)
  have "ch_recv C (chan q) = Some (None, chan q)" using recv_cases[OF assms(1), of "chan q"] st assms(5) by simp
  moreover have "workers q ! 0 = Waiting" using st l assms(2) by (metis nth_mem singletonD)
  ultimately have "run_tasks_spin C q (q\<lparr>chan := chan q\<rparr>)" using no_sender[of 0 q C "chan q"] l assms(2) by simp
  then have "run_tasks_spin C q q" by simp
  moreover have "q' = q" if "run_tasks_spin C q q'" for q'
    using that by (cases rule: run_tasks_spin.cases) (auto dest!: recv_none(3)[OF assms(1)])
  ultimately show ?thesis using l by blast
qed

theorem pool_never_exits_witness:
  "\<exists>q :: (nat, nat list \<times> nat \<times> nat) pool. pool_run list_channel (\<lambda>_. False) two_threads [] q \<and> run_tasks_spin list_channel q q"
proof -
  let ?q = "two_threads\<lparr>chan := tx_drop list_channel (chan two_threads)\<rparr>"
  have r: "pool_run list_channel (\<lambda>_. False) two_threads [] ?q"
    by (rule pr_drop[OF pr_start]) (simp add: two_threads_parts list_channel_def)
  have "\<not> run_tasks list_channel (\<lambda>_. False) ?q q'" for q'
    by (auto simp: two_threads_parts list_channel_def less_Suc_eq elim!: run_tasks.cases)
  moreover have "senders list_channel (chan ?q) = 0" by (simp add: two_threads_parts list_channel_def)
  ultimately have "run_tasks_spin list_channel ?q ?q"
    using pool_never_exits[OF list_channel_ok _ two_threads_new r] by simp
  then show ?thesis using r by blast
qed

end
