(* ===== verification/SharedStore.thy ===== *)
theory SharedStore
  imports KvStore Codec
begin

text \<open>
  The engine of project 4 (\<^verbatim>\<open>courses/rust/projects/project-4/src/engines/kvs.rs\<close>), which threads share: every clone of a
  \<^verbatim>\<open>KvStore\<close> has open files of its own, and all share the index, the safe point and, behind a mutex,
  the writer. The index is a \<^verbatim>\<open>SkipMap\<close> of the crate \<^verbatim>\<open>crossbeam-skiplist\<close>, so it is a parameter: the record
  \<open>skip\<close> holds its operations, and \<open>skip_ok\<close> says that it is an ordered map whose iterator yields the
  entries in the order of their keys. The iterator moves on to larger keys, so it does not meet an entry that replaces one
  it has yielded.

  A call of \<^verbatim>\<open>set\<close> or \<^verbatim>\<open>remove\<close> holds the lock from start to end and is one step. A call of \<^verbatim>\<open>get\<close> takes no lock and has two
  parts, the lookup in the index and the read of the file; whole calls of other threads may come between them. What a
  reader sees while a compaction is under way is not modelled.
\<close>

subsection \<open>The index\<close>

record 's skip =
  sk_new :: 's
  sk_get :: "'s \<Rightarrow> string \<Rightarrow> command_pos option"
  sk_insert :: "string \<Rightarrow> command_pos \<Rightarrow> 's \<Rightarrow> 's"
  sk_remove :: "string \<Rightarrow> 's \<Rightarrow> 's"
  sk_iter :: "'s \<Rightarrow> kv_index"

definition skip_ok :: "'s skip \<Rightarrow> bool" where
  "skip_ok S \<longleftrightarrow> sk_iter S (sk_new S) = [] \<and> (\<forall>s k. sk_get S s k = map_of (sk_iter S s) k) \<and>
     (\<forall>k v s. sk_iter S (sk_insert S k v s) = bt_insert k v (sk_iter S s)) \<and>
     (\<forall>k s. sk_iter S (sk_remove S k s) = bt_remove k (sk_iter S s))"

lemma skip_okD:
  assumes "skip_ok S"
  shows "sk_iter S (sk_new S) = []" "sk_get S s k = map_of (sk_iter S s) k"
    "sk_iter S (sk_insert S k v s) = bt_insert k v (sk_iter S s)" "sk_iter S (sk_remove S k s) = bt_remove k (sk_iter S s)"
  using assms by (simp_all add: skip_ok_def)

subsection \<open>Reading\<close>

type_synonym handles = "(nat \<times> reader) list"

fun close_stale_handles :: "nat \<Rightarrow> handles \<Rightarrow> handles" where
  "close_stale_handles safe_point [] = []"
| "close_stale_handles safe_point ((first_gen, rd) # rs) =
     (if safe_point \<le> first_gen then (first_gen, rd) # rs else close_stale_handles safe_point rs)"

text \<open>The bytes \<^verbatim>\<open>read_and\<close> gives to its argument, which reads them all.\<close>

definition read_and :: "nat \<Rightarrow> command_pos \<Rightarrow> fs \<Rightarrow> handles \<Rightarrow> (kvs_error, byte list) outcome \<times> handles" where
  "read_and safe_point cmd_pos d rs =
     (let rs1 = close_stale_handles safe_point rs;
          use = (\<lambda>rd rs. let (bytes, rd1) = reader_read (cp_len cmd_pos) (reader_seek (cp_pos cmd_pos) rd) d
                         in (Ok bytes, bt_insert (cp_gen cmd_pos) rd1 rs))
      in case map_of rs1 (cp_gen cmd_pos) of
           Some rd \<Rightarrow> use rd rs1
         | None \<Rightarrow>
             (case fs_open_read (log_path (cp_gen cmd_pos)) d of
                Inl e \<Rightarrow> (Err (Io e), rs1)
              | Inr i \<Rightarrow> use (reader_new i) (bt_insert (cp_gen cmd_pos) (reader_new i) rs1)))"

definition read_command :: "kv_env \<Rightarrow> nat \<Rightarrow> command_pos \<Rightarrow> fs \<Rightarrow> handles \<Rightarrow> (kvs_error, command) outcome \<times> handles" where
  "read_command E safe_point cmd_pos d rs =
     attempt (read_and safe_point cmd_pos d rs) (\<lambda>bytes rs'.
       case from_reader E bytes of None \<Rightarrow> (Err Serde, rs') | Some c \<Rightarrow> (Ok c, rs'))"

subsection \<open>The store\<close>

record 's store =
  s_disk :: fs
  s_index :: 's
  s_safe :: nat
  s_readers :: handles
  s_writer :: writer
  s_gen :: nat
  s_uncompacted :: nat
  s_poisoned :: bool

definition reader_clone :: "handles \<Rightarrow> handles" where
  "reader_clone rs = []"

definition log_writer :: "nat \<Rightarrow> fs \<Rightarrow> (kvs_error, writer) outcome \<times> fs" where
  "log_writer gen d =
     (case fs_open_append (log_path gen) d of
        Inl e \<Rightarrow> (Err (Io e), d)
      | Inr (i, d') \<Rightarrow> (Ok (writer_new i), d'))"

fun skip_load_loop :: "'s skip \<Rightarrow> nat \<Rightarrow> (command \<times> nat) list \<Rightarrow> nat \<Rightarrow> 's \<Rightarrow> nat \<Rightarrow> 's \<times> nat" where
  "skip_load_loop S gen [] pos idx u = (idx, u)"
| "skip_load_loop S gen ((cmd, new_pos) # rest) pos idx u =
     (case cmd of
        CSet key v \<Rightarrow>
          skip_load_loop S gen rest new_pos (sk_insert S key (mk_pos gen pos new_pos) idx)
            (u + (case sk_get S idx key of Some old_cmd \<Rightarrow> cp_len old_cmd | None \<Rightarrow> 0))
      | CRemove key \<Rightarrow>
          skip_load_loop S gen rest new_pos (sk_remove S key idx)
            (u + (case sk_get S idx key of Some old_cmd \<Rightarrow> cp_len old_cmd | None \<Rightarrow> 0) + (new_pos - pos)))"

definition skip_load :: "kv_env \<Rightarrow> 's skip \<Rightarrow> nat \<Rightarrow> reader \<Rightarrow> 's \<Rightarrow> fs \<Rightarrow> (kvs_error, nat) outcome \<times> 's \<times> reader" where
  "skip_load E S gen rd idx d =
     (let rd0 = reader_seek 0 rd;
          (bytes, rd1) = reader_read (length (inodes d (r_ino rd))) rd0 d;
          (cmds, failed) = stream E bytes;
          (idx', u) = skip_load_loop S gen cmds 0 idx 0
      in (if failed then Err Serde else Ok u, idx', rd1))"

fun store_open_loop ::
  "kv_env \<Rightarrow> 's skip \<Rightarrow> fs \<Rightarrow> nat list \<Rightarrow> handles \<Rightarrow> 's \<Rightarrow> nat \<Rightarrow> (kvs_error, handles \<times> 's \<times> nat) outcome" where
  "store_open_loop E S d [] rs ix u = Ok (rs, ix, u)"
| "store_open_loop E S d (gen # gens) rs ix u =
     (case fs_open_read (log_path gen) d of
        Inl e \<Rightarrow> Err (Io e)
      | Inr i \<Rightarrow>
          (case skip_load E S gen (reader_new i) ix d of
             (Ok n, ix', rd) \<Rightarrow> store_open_loop E S d gens (bt_insert gen rd rs) ix' (u + n)
           | (Err e, _) \<Rightarrow> Err e
           | (Panic, _) \<Rightarrow> Panic))"

definition store_open :: "kv_env \<Rightarrow> 's skip \<Rightarrow> fs \<Rightarrow> (kvs_error, handles \<times> 's store) outcome" where
  "store_open E S d =
     (let gen_list = sorted_gen_list d in
      case store_open_loop E S d gen_list [] (sk_new S) 0 of
        Err e \<Rightarrow> Err e
      | Panic \<Rightarrow> Panic
      | Ok (rs, ix, u) \<Rightarrow>
          (let lst = (if gen_list = [] then 0 else last gen_list) in
           if lst + 1 \<ge> 2 ^ 64 then Panic
           else (case log_writer (lst + 1) d of
                   (Ok w, d') \<Rightarrow>
                     Ok (rs, \<lparr>s_disk = d', s_index = ix, s_safe = 0, s_readers = reader_clone rs, s_writer = w,
                              s_gen = lst + 1, s_uncompacted = u, s_poisoned = False\<rparr>)
                 | (Err e, _) \<Rightarrow> Err e
                 | (Panic, _) \<Rightarrow> Panic)))"

subsection \<open>Writing\<close>

text \<open>When an error ends the loop, the writer of the compaction is dropped, which flushes it.\<close>

fun copy_entries ::
  "'s skip \<Rightarrow> nat \<Rightarrow> kv_index \<Rightarrow> nat \<Rightarrow> writer \<Rightarrow> 's store \<Rightarrow> (kvs_error, writer) outcome \<times> 's store" where
  "copy_entries S compaction_gen [] new_pos cw st = (Ok cw, st)"
| "copy_entries S compaction_gen ((k, cp) # rest) new_pos cw st =
     (case read_and (s_safe st) cp (s_disk st) (s_readers st) of
        (Ok bytes, rs) \<Rightarrow>
          (let (cw1, d1) = writer_write bytes cw (s_disk st);
               stop = new_pos + length bytes
           in copy_entries S compaction_gen rest stop cw1
                (st\<lparr>s_disk := d1, s_readers := rs, s_index := sk_insert S k (mk_pos compaction_gen new_pos stop) (s_index st)\<rparr>))
      | (Err e, rs) \<Rightarrow> (Err e, st\<lparr>s_disk := snd (writer_flush cw (s_disk st)), s_readers := rs\<rparr>)
      | (Panic, rs) \<Rightarrow> (Panic, st))"

fun remove_logs :: "nat list \<Rightarrow> fs \<Rightarrow> fs" where
  "remove_logs [] d = d"
| "remove_logs (stale_gen # gens) d =
     (case fs_remove_file (log_path stale_gen) d of Inl e \<Rightarrow> remove_logs gens d | Inr d' \<Rightarrow> remove_logs gens d')"

definition store_compact :: "'s skip \<Rightarrow> 's store \<Rightarrow> (kvs_error, unit) outcome \<times> 's store" where
  "store_compact S st =
     (if s_gen st + 2 \<ge> 2 ^ 64 then (Panic, st)
      else let compaction_gen = s_gen st + 1;
               new_file = (\<lambda>gen st. case log_writer gen (s_disk st) of (r, d) \<Rightarrow> (r, st\<lparr>s_disk := d\<rparr>));
               st1 = st\<lparr>s_gen := s_gen st + 2\<rparr>
           in attempt (new_file (s_gen st1) st1) (\<lambda>w st2.
              attempt (new_file compaction_gen (st2\<lparr>s_writer := w\<rparr>)) (\<lambda>cw st3.
              attempt (copy_entries S compaction_gen (sk_iter S (s_index st3)) 0 cw st3) (\<lambda>cw2 st4.
              let d = snd (writer_flush cw2 (s_disk st4));
                  stale_gens = filter (\<lambda>gen. gen < compaction_gen) (sorted_gen_list d)
              in (Ok (), st4\<lparr>s_disk := remove_logs stale_gens d, s_safe := compaction_gen,
                             s_readers := close_stale_handles compaction_gen (s_readers st4), s_uncompacted := 0\<rparr>)))))"

definition compact_if_large :: "'s skip \<Rightarrow> 's store \<Rightarrow> (kvs_error, unit) outcome \<times> 's store" where
  "compact_if_large S st =
     (if s_uncompacted st > COMPACTION_THRESHOLD then attempt (store_compact S st) (\<lambda>_ st'. (Ok (), st')) else (Ok (), st))"

definition append_cmd :: "kv_env \<Rightarrow> command \<Rightarrow> 's store \<Rightarrow> 's store" where
  "append_cmd E cmd st =
     (let (w1, d1) = writer_write (serialize E cmd) (s_writer st) (s_disk st);
          (w2, d2) = writer_flush w1 d1
      in st\<lparr>s_disk := d2, s_writer := w2\<rparr>)"

definition writer_set :: "kv_env \<Rightarrow> 's skip \<Rightarrow> string \<Rightarrow> string \<Rightarrow> 's store \<Rightarrow> (kvs_error, unit) outcome \<times> 's store" where
  "writer_set E S key v st =
     (let pos = w_pos (s_writer st);
          st1 = append_cmd E (CSet key v) st
      in compact_if_large S
           (st1\<lparr>s_uncompacted := s_uncompacted st1 +
                  (case sk_get S (s_index st1) key of Some old_cmd \<Rightarrow> cp_len old_cmd | None \<Rightarrow> 0),
                s_index := sk_insert S key (mk_pos (s_gen st1) pos (w_pos (s_writer st1))) (s_index st1)\<rparr>))"

definition writer_remove :: "kv_env \<Rightarrow> 's skip \<Rightarrow> string \<Rightarrow> 's store \<Rightarrow> (kvs_error, unit) outcome \<times> 's store" where
  "writer_remove E S key st =
     (case sk_get S (s_index st) key of
        None \<Rightarrow> (Err KeyNotFound, st)
      | Some _ \<Rightarrow>
          (let pos = w_pos (s_writer st);
               st1 = append_cmd E (CRemove key) st
           in case sk_get S (s_index st1) key of
                None \<Rightarrow> (Panic, st1)
              | Some old_cmd \<Rightarrow>
                  compact_if_large S
                    (st1\<lparr>s_index := sk_remove S key (s_index st1),
                         s_uncompacted := s_uncompacted st1 + cp_len old_cmd + (w_pos (s_writer st1) - pos)\<rparr>)))"

subsection \<open>The engine\<close>

text \<open>A panic while the mutex is held poisons it.\<close>

definition with_writer :: "('s store \<Rightarrow> (kvs_error, unit) outcome \<times> 's store) \<Rightarrow> 's store \<Rightarrow> (kvs_error, unit) outcome \<times> 's store" where
  "with_writer f st =
     (if s_poisoned st then (Panic, st)
      else case f st of (Panic, st') \<Rightarrow> (Panic, st'\<lparr>s_poisoned := True\<rparr>) | r \<Rightarrow> r)"

definition store_set :: "kv_env \<Rightarrow> 's skip \<Rightarrow> string \<Rightarrow> string \<Rightarrow> 's store \<Rightarrow> (kvs_error, unit) outcome \<times> 's store" where
  "store_set E S key v st = with_writer (writer_set E S key v) st"

definition store_remove :: "kv_env \<Rightarrow> 's skip \<Rightarrow> string \<Rightarrow> 's store \<Rightarrow> (kvs_error, unit) outcome \<times> 's store" where
  "store_remove E S key st = with_writer (writer_remove E S key) st"

definition get_read :: "kv_env \<Rightarrow> command_pos \<Rightarrow> handles \<Rightarrow> 's store \<Rightarrow> (kvs_error, string option) outcome \<times> handles" where
  "get_read E cmd_pos rs st =
     attempt (read_command E (s_safe st) cmd_pos (s_disk st) rs) (\<lambda>cmd rs'.
       case cmd of CSet k v \<Rightarrow> (Ok (Some v), rs') | CRemove k \<Rightarrow> (Err UnexpectedCommandType, rs'))"

definition store_get :: "kv_env \<Rightarrow> 's skip \<Rightarrow> string \<Rightarrow> handles \<Rightarrow> 's store \<Rightarrow> (kvs_error, string option) outcome \<times> handles" where
  "store_get E S key rs st =
     (case sk_get S (s_index st) key of None \<Rightarrow> (Ok None, rs) | Some cmd_pos \<Rightarrow> get_read E cmd_pos rs st)"

subsection \<open>The invariant\<close>

text \<open>
  \<open>store_view E S L ino st\<close>: the directory holds the logs \<open>L\<close>, the last one being written; the index is the one a replay of the
  logs would give, and the counter of stale bytes is exactly what that replay counts. No log is older than the
  safe point. \<open>handles_ok\<close> is what is known of the files a handle has open: those of logs that still exist are
  the right ones.
\<close>

definition handles_ok :: "(nat \<Rightarrow> nat) \<Rightarrow> (nat \<times> command list) list \<Rightarrow> nat \<Rightarrow> handles \<Rightarrow> bool" where
  "handles_ok ino L cur rs \<longleftrightarrow> bt_ok rs \<and>
     (\<forall>g rd. map_of rs g = Some rd \<longrightarrow> g \<le> cur \<and> (g \<in> fst ` set L \<longrightarrow> r_ino rd = ino g))"

definition store_view :: "kv_env \<Rightarrow> 's skip \<Rightarrow> (nat \<times> command list) list \<Rightarrow> (nat \<Rightarrow> nat) \<Rightarrow> 's store \<Rightarrow> bool" where
  "store_view E S L ino st \<longleftrightarrow> log_dir E (s_disk st) L ino \<and> sorted_wrt (<) (map fst L) \<and>
     L \<noteq> [] \<and> fst (last L) = s_gen st \<and>
     s_writer st = \<lparr>w_ino = ino (s_gen st), w_pos = length (encode E (snd (last L))), w_buf = []\<rparr> \<and>
     sk_iter S (s_index st) = fst (replay E L) \<and> s_uncompacted st = snd (replay E L) \<and>
     handles_ok ino L (s_gen st) (s_readers st) \<and> (\<forall>g\<in>fst ` set L. s_safe st \<le> g) \<and> \<not> s_poisoned st"

lemma store_viewD:
  assumes "store_view E S L ino st"
  shows "log_dir E (s_disk st) L ino" "sorted_wrt (<) (map fst L)" "L \<noteq> []" "fst (last L) = s_gen st"
    "s_writer st = \<lparr>w_ino = ino (s_gen st), w_pos = length (encode E (snd (last L))), w_buf = []\<rparr>"
    "sk_iter S (s_index st) = fst (replay E L)" "s_uncompacted st = snd (replay E L)"
    "handles_ok ino L (s_gen st) (s_readers st)" "g \<in> fst ` set L \<Longrightarrow> s_safe st \<le> g" "\<not> s_poisoned st"
  using assms unfolding store_view_def by blast+

lemma store_view_index: "store_view E S L ino st \<Longrightarrow> index_ok E L (sk_iter S (s_index st))"
  using replay_index_ok[of L E] log_dirD(2) store_viewD(1,6) by metis

lemma store_view_last: "store_view E S L ino st \<Longrightarrow> \<exists>M cs. L = M @ [(s_gen st, cs)]"
  by (rule snoc_of) (simp_all add: store_view_def)

lemma store_view_le: "store_view E S L ino st \<Longrightarrow> h \<in> fst ` set L \<Longrightarrow> h \<le> s_gen st"
  using store_view_last[of E S L ino st] sorted_gens_below store_viewD(2)[of E S L ino st] by fastforce

subsection \<open>Open files\<close>

lemma close_stale_filter: "bt_ok rs \<Longrightarrow> close_stale_handles sp rs = filter (\<lambda>(g, _). sp \<le> g) rs"
  by (induction sp rs rule: close_stale_handles.induct) (fastforce simp: bt_ok_Cons intro!: filter_True[symmetric])+

lemma bt_ok_filter: "bt_ok rs \<Longrightarrow> bt_ok (filter P rs)"
  by (induction rs) (auto simp: bt_ok_Cons)

lemma map_of_close: "bt_ok rs \<Longrightarrow> map_of (close_stale_handles sp rs) g = (if sp \<le> g then map_of rs g else None)"
  unfolding close_stale_filter by (induction rs) (auto simp: bt_ok_Cons map_of_eq_None_iff)

lemma handles_ok_close: "handles_ok ino L cur rs \<Longrightarrow> handles_ok ino L cur (close_stale_handles sp rs)"
  by (auto simp: handles_ok_def map_of_close bt_ok_filter close_stale_filter[of rs sp, symmetric] simp del: map_of_eq_None_iff)
    (simp add: close_stale_filter bt_ok_filter)

lemma handles_ok_insert:
  "handles_ok ino L cur rs \<Longrightarrow> g \<le> cur \<Longrightarrow> r_ino rd = ino g \<Longrightarrow> handles_ok ino L cur (bt_insert g rd rs)"
  by (auto simp: handles_ok_def)

lemma log_dir_open: "log_dir E d L ino \<Longrightarrow> g \<in> fst ` set L \<Longrightarrow> fs_open_read (log_path g) d = Inr (ino g)"
  using log_dirD(3) by (intro open_read_ent[OF log_dirD(1)]) auto

lemma read_and_ok:
  assumes o: "fs_open_read (log_path (cp_gen cp)) d = Inr (ino (cp_gen cp))" and h: "handles_ok ino L cur rs"
    and g: "cp_gen cp \<in> fst ` set L" "cp_gen cp \<le> cur"
  shows "\<exists>rs'. read_and sp cp d rs = (Ok (fs_read (ino (cp_gen cp)) (cp_pos cp) (cp_len cp) d), rs') \<and> handles_ok ino L cur rs'"
proof -
  let ?g = "cp_gen cp" and ?rs = "close_stale_handles sp rs"
  have h1: "handles_ok ino L cur ?rs" by (rule handles_ok_close[OF h])
  show ?thesis
  proof (cases "map_of ?rs ?g")
    case None
    have "handles_ok ino L cur (bt_insert ?g (reader_new (ino ?g)) ?rs)"
      by (rule handles_ok_insert[OF h1 g(2)]) (simp add: reader_new_def)
    then show ?thesis using None g(2) o
      by (auto simp: read_and_def Let_def reader_read_def reader_seek_def reader_new_def intro!: handles_ok_insert)
  next
    case (Some rd)
    then have "r_ino rd = ino ?g" using h1 g(1) by (simp add: handles_ok_def)
    then show ?thesis using Some g(2) h1
      by (auto simp: read_and_def Let_def reader_read_def reader_seek_def intro!: handles_ok_insert)
  qed
qed

lemma read_and_gone:
  assumes l: "log_dir E d L ino" and h: "handles_ok ino L cur rs"
    and g: "cp_gen cp \<notin> fst ` set L" "cp_gen cp < 2 ^ 64" "cp_gen cp < sp"
  shows "read_and sp cp d rs = (Err (Io NotFound), close_stale_handles sp rs)"
proof -
  have "map_of (close_stale_handles sp rs) (cp_gen cp) = None" using h g(3) by (simp add: map_of_close handles_ok_def)
  moreover have "fs_open_read (log_path (cp_gen cp)) d = Inl NotFound"
    using log_dir_no_file[OF l g(1,2)] by (simp add: fs_open_read_def)
  ultimately show ?thesis by (simp add: read_and_def Let_def)
qed

subsection \<open>Replaying with the skip map\<close>

lemma skip_load_loop_iter:
  assumes S: "skip_ok S"
  shows "sk_iter S (fst (skip_load_loop S g cs p ix u)) = fst (load_loop g cs p (sk_iter S ix) u) \<and>
    snd (skip_load_loop S g cs p ix u) = snd (load_loop g cs p (sk_iter S ix) u)"
proof (induction cs arbitrary: p ix u)
  case (Cons c cs)
  obtain cmd q where c: "c = (cmd, q)" by fastforce
  show ?case by (cases cmd) (simp_all add: c Cons.IH skip_okD[OF S])
qed simp

lemma store_open_loop_spec:
  assumes l: "log_dir E d (P @ Q) ino" and sd: "serde_ok E" and S: "skip_ok S" and r: "handles_ok ino (P @ Q) cur rs"
    and ix: "sk_iter S ix = fst (replay E P)" and le: "\<forall>g\<in>fst ` set (P @ Q). g \<le> cur"
  shows "\<exists>rs' ix'. store_open_loop E S d (map fst Q) rs ix (snd (replay E P)) = Ok (rs', ix', snd (replay E (P @ Q))) \<and>
     sk_iter S ix' = fst (replay E (P @ Q)) \<and> handles_ok ino (P @ Q) cur rs'"
  using l r ix le
proof (induction Q arbitrary: P rs ix)
  case Nil
  then show ?case by simp
next
  case (Cons q Q)
  obtain g cs where q: "q = (g, cs)" by fastforce
  have f: "(log_path g, FileEnt (ino g)) \<in> set (dents d)" "inodes d (ino g) = encode E cs"
    using log_dirD(3)[OF Cons.prems(1), of g cs] by (simp_all add: q)
  have op: "fs_open_read (log_path g) d = Inr (ino g)" by (rule open_read_ent[OF log_dirD(1)[OF Cons.prems(1)] f(1)])
  let ?rd = "\<lparr>r_ino = ino g, r_pos = length (encode E cs)\<rparr>" and ?lp = "skip_load_loop S g (items E 0 cs) 0 ix 0"
  note lp = skip_load_loop_iter[OF S, of g "items E 0 cs" 0 ix 0]
  note add = load_loop_add[of g "items E 0 cs" 0 "fst (replay E P)" 0 "snd (replay E P)"]
  have ld: "skip_load E S g (reader_new (ino g)) ix d = (Ok (snd ?lp), fst ?lp, ?rd)"
    by (simp add: skip_load_def reader_new_def reader_seek_def reader_read_def fs_read_def f serde_okD(2)[OF sd] split_beta Let_def)
  have u: "snd (replay E P) + snd ?lp = snd (replay E (P @ [q]))" and i: "sk_iter S (fst ?lp) = fst (replay E (P @ [q]))"
    using add lp Cons.prems(3) by (simp_all add: q replay_snoc)
  have step: "store_open_loop E S d (map fst (q # Q)) rs ix (snd (replay E P)) =
      store_open_loop E S d (map fst Q) (bt_insert g ?rd rs) (fst ?lp) (snd (replay E (P @ [q])))"
    using op ld u by (simp add: q)
  have "handles_ok ino ((P @ [q]) @ Q) cur (bt_insert g ?rd rs)"
    using Cons.prems(2,4) by (intro handles_ok_insert) (simp_all add: q)
  from Cons.IH[OF _ this i] show ?case unfolding step using Cons.prems(1,4) by simp
qed

lemma log_writer_new:
  assumes l: "log_dir E d L ino" and g: "g \<notin> fst ` set L" "g < 2 ^ 64"
    and L': "set L' = insert (g, []) (set L)" "distinct (map fst L')"
  obtains d' i where "log_writer g d = (Ok (writer_new i), d')" "log_dir E d' L' (ino(g := i))" "inodes d' i = []"
    "\<forall>h\<in>fst ` set L. ino h \<noteq> i \<and> inodes d' (ino h) = inodes d (ino h)"
proof -
  obtain d' where d': "fs_open_append (log_path g) d = Inr (next_ino d, d')" "log_dir E d' L' (ino(g := next_ino d))"
    "inodes d' = (inodes d)(next_ino d := [])"
    using log_dir_create[OF l g L'] by blast
  have "ino h \<noteq> next_ino d" if "h \<in> fst ` set L" for h
    using that log_dirD(3)[OF l] log_dirD(1)[OF l] unfolding fs_wf_def by (metis imageE less_irrefl prod.collapse)
  then show thesis using d' by (intro that[of "next_ino d" d']) (auto simp: log_writer_def)
qed

lemma handles_ok_evolve:
  assumes "handles_ok ino L cur rs" "cur \<le> cur'" "\<And>h. h \<in> fst ` set L' \<Longrightarrow> h \<le> cur \<Longrightarrow> h \<in> fst ` set L \<and> ino' h = ino h"
  shows "handles_ok ino' L' cur' rs"
  using assms unfolding handles_ok_def by (metis le_trans)

lemma store_open_view:
  assumes l: "log_dir E d L ino" and s: "sorted_wrt (<) (map fst L)" and sd: "serde_ok E" and S: "skip_ok S"
    and g: "g = (if L = [] then 0 else fst (last L)) + 1" and b: "g < 2 ^ 64"
  shows "\<exists>rs st ino'. store_open E S d = Ok (rs, st) \<and> store_view E S (L @ [(g, [])]) ino' st \<and> s_gen st = g \<and>
     handles_ok ino' (L @ [(g, [])]) g rs"
proof -
  have gl: "sorted_gen_list d = map fst L" by (rule log_dir_gens[OF l s])
  have lst: "(if map fst L = [] then 0 else last (map fst L)) + 1 = g" using g by (simp add: last_map)
  have le: "h \<le> g - 1" if "h \<in> fst ` set L" for h
  proof -
    have "L \<noteq> []" using that by auto
    then obtain M cs where "L = M @ [(fst (last L), cs)]" using snoc_of[OF _ refl] by blast
    then have "h \<le> fst (last L)" using sorted_gens_below[of M "fst (last L)" cs h] s that by simp
    then show ?thesis using g \<open>L \<noteq> []\<close> by simp
  qed
  have le': "\<forall>h\<in>fst ` set ([] @ L). h \<le> g - 1" using le by simp
  have h0: "handles_ok ino ([] @ L) (g - 1) []" by (simp add: handles_ok_def)
  obtain rs ix where rs: "store_open_loop E S d (map fst L) [] (sk_new S) 0 = Ok (rs, ix, snd (replay E L))"
    "sk_iter S ix = fst (replay E L)" "handles_ok ino L (g - 1) rs"
    using store_open_loop_spec[OF _ sd S h0 _ le', of d "sk_new S"] l by (auto simp: skip_okD(1)[OF S])
  have g0: "0 < g" using g by simp
  have lt: "h < g" if "h \<in> fst ` set L" for h using le[OF that] g0 by linarith
  have n: "g \<notin> fst ` set L" using lt by blast
  have s': "set (L @ [(g, [])]) = insert (g, []) (set L)" and d': "distinct (map fst (L @ [(g, [])]))"
    using log_dirD(2)[OF l] n by auto
  obtain d1 i where f: "log_writer g d = (Ok (writer_new i), d1)" "log_dir E d1 (L @ [(g, [])]) (ino(g := i))"
    by (rule log_writer_new[OF l n b s' d'])
  let ?st = "\<lparr>s_disk = d1, s_index = ix, s_safe = 0, s_readers = reader_clone rs, s_writer = writer_new i, s_gen = g,
    s_uncompacted = snd (replay E L), s_poisoned = False\<rparr>"
  have "store_open E S d = Ok (rs, ?st)"
    unfolding store_open_def Let_def gl lst rs(1) using b f(1) by simp
  moreover have "sorted_wrt (<) (map fst (L @ [(g, [])]))" using s lt by (simp add: sorted_wrt_append)
  then have "store_view E S (L @ [(g, [])]) (ino(g := i)) ?st"
    using f(2) rs(2) by (simp add: store_view_def writer_new_def reader_clone_def handles_ok_def)
  moreover have "handles_ok (ino(g := i)) (L @ [(g, [])]) g rs"
    by (rule handles_ok_evolve[OF rs(3)]) (use g0 in \<open>auto simp: image_iff\<close>)
  ultimately show ?thesis by (intro exI[of _ rs] exI[of _ ?st] exI[of _ "ino(g := i)"]) simp
qed

subsection \<open>Appending a command\<close>

text \<open>How a call of a writer changes what other threads rely on: their open files stay usable, and the commands they may have
  looked up stay where they are unless a compaction ended.\<close>

definition evolves ::
  "kv_env \<Rightarrow> (nat \<times> command list) list \<times> (nat \<Rightarrow> nat) \<times> 's store \<Rightarrow>
   (nat \<times> command list) list \<times> (nat \<Rightarrow> nat) \<times> 's store \<Rightarrow> bool" where
  "evolves E a b \<longleftrightarrow> (case (a, b) of ((L, ino, st), (L', ino', st')) \<Rightarrow>
     s_gen st \<le> s_gen st' \<and> s_gen st' \<le> s_gen st + 2 \<and>
     (\<forall>rs. handles_ok ino L (s_gen st) rs \<longrightarrow> handles_ok ino' L' (s_gen st') rs) \<and>
     (s_safe st' = s_safe st \<and> (\<forall>cp c. points_at E L cp c \<longrightarrow> points_at E L' cp c) \<or> s_safe st' = s_gen st + 1))"

lemma store_append_view:
  assumes v: "store_view E S (M @ [(g, cs)]) ino st"
    and ix: "(ix, u) = cmd_step E g (w_pos (s_writer st)) c (sk_iter S (s_index st), s_uncompacted st)"
    and i: "sk_iter S i = ix"
  shows "store_view E S (M @ [(g, cs @ [c])]) ino ((append_cmd E c st)\<lparr>s_index := i, s_uncompacted := u\<rparr>)"
    "w_pos (s_writer (append_cmd E c st)) = w_pos (s_writer st) + length (serialize E c)"
    "evolves E (M @ [(g, cs)], ino, st) (M @ [(g, cs @ [c])], ino, (append_cmd E c st)\<lparr>s_index := i, s_uncompacted := u\<rparr>)"
proof -
  obtain w1 d1 where w1: "writer_write (serialize E c) (s_writer st) (s_disk st) = (w1, d1)" by fastforce
  obtain w2 d2 where w2: "writer_flush w1 d1 = (w2, d2)" by fastforce
  note wf = writer_write_flush[OF w1 w2] and l = store_viewD(1)[OF v]
  have st: "append_cmd E c st = st\<lparr>s_disk := d2, s_writer := w2\<rparr>" by (simp add: append_cmd_def w1 w2)
  have g: "s_gen st = g" and w: "s_writer st = \<lparr>w_ino = ino g, w_pos = length (encode E cs), w_buf = []\<rparr>"
    using store_viewD(4,5)[OF v] by simp_all
  have dist: "distinct (map fst (M @ [(g, cs @ [c])]))" and gM: "g \<notin> fst ` set M" using log_dirD(2)[OF l] by auto
  have ld: "log_dir E d2 (M @ [(g, cs @ [c])]) ino"
  proof (rule log_dir_file[OF l _ _ dist])
    show "(g, cs) \<in> set (M @ [(g, cs)])" by simp
    show "set (M @ [(g, cs @ [c])]) = insert (g, cs @ [c]) (set (M @ [(g, cs)]) - {(g, cs)})"
      using log_dirD(2)[OF l] by (auto simp: image_iff)
    show "inodes d2 (ino g) = encode E (cs @ [c])" using log_dirD(3)[OF l, of g cs] by (simp add: wf w)
    show "inodes d2 (ino h) = inodes (s_disk st) (ino h)" if "(h, ds) \<in> set (M @ [(g, cs)])" "h \<noteq> g" for h ds
      using log_dir_inj[OF l that(1), of g cs] that(2) by (simp add: wf w)
  qed (simp_all add: wf)
  have "(ix, u) = replay E (M @ [(g, cs @ [c])])"
    using ix store_viewD(6,7)[OF v] by (simp add: replay_snoc_cmd w)
  then have r: "ix = fst (replay E (M @ [(g, cs @ [c])]))" "u = snd (replay E (M @ [(g, cs @ [c])]))"
    by (metis fst_conv, metis snd_conv)
  have h: "handles_ok ino (M @ [(g, cs @ [c])]) g rs = handles_ok ino (M @ [(g, cs)]) g rs" for rs
    by (simp add: handles_ok_def)
  show "store_view E S (M @ [(g, cs @ [c])]) ino ((append_cmd E c st)\<lparr>s_index := i, s_uncompacted := u\<rparr>)"
    using v ld r i h unfolding store_view_def by (simp add: st wf w g)
  show "w_pos (s_writer (append_cmd E c st)) = w_pos (s_writer st) + length (serialize E c)" by (simp add: st wf)
  show "evolves E (M @ [(g, cs)], ino, st) (M @ [(g, cs @ [c])], ino, (append_cmd E c st)\<lparr>s_index := i, s_uncompacted := u\<rparr>)"
    using h points_at_mono[OF _ gM] by (simp add: evolves_def st g)
qed

subsection \<open>Compaction\<close>

lemma bt_insert_mid: "bt_ok (vs @ (k, cp) # es) \<Longrightarrow> bt_insert k v (vs @ (k, cp) # es) = vs @ (k, v) # es"
  by (induction vs) (auto simp: bt_ok_Cons)

lemma bt_ok_keys: "bt_ok (vs @ (k, cp) # es) \<Longrightarrow> bt_ok ((vs @ [(k, v)]) @ es)"
  by (simp add: bt_ok_def)

text \<open>An entry the loop can copy: its log exists and holds the bytes of the live command at its position.\<close>

definition liftable ::
  "kv_env \<Rightarrow> (string \<Rightarrow> string option) \<Rightarrow> (nat \<times> command list) list \<Rightarrow> (nat \<Rightarrow> nat) \<Rightarrow> nat \<Rightarrow> nat \<Rightarrow> fs \<Rightarrow> string \<times> command_pos \<Rightarrow> bool" where
  "liftable E m L ino cur wi d e \<longleftrightarrow> (case e of (k, cp) \<Rightarrow>
     cp_gen cp \<in> fst ` set L \<and> cp_gen cp \<le> cur \<and> fs_open_read (log_path (cp_gen cp)) d = Inr (ino (cp_gen cp)) \<and>
     ino (cp_gen cp) \<noteq> wi \<and> fs_read (ino (cp_gen cp)) (cp_pos cp) (cp_len cp) d = serialize E (CSet k (the (m k))))"

lemma liftable_mono:
  "liftable E m L ino cur wi d e \<Longrightarrow> dents d' = dents d \<Longrightarrow> (\<And>j. j \<noteq> wi \<Longrightarrow> inodes d' j = inodes d j) \<Longrightarrow> liftable E m L ino cur wi d' e"
  by (auto simp: liftable_def fs_open_read_def fs_read_def split: prod.splits)

lemma copy_entries_spec:
  assumes "\<forall>e\<in>set es. liftable E m L ino cur (w_ino cw) (s_disk st) e" "handles_ok ino L cur (s_readers st)"
    and "sk_iter S (s_index st) = vs @ es" "bt_ok (vs @ es)" "skip_ok S"
  shows "\<exists>cw' d' rs' i'. copy_entries S cg es new_pos cw st = (Ok cw', st\<lparr>s_disk := d', s_readers := rs', s_index := i'\<rparr>) \<and>
     w_ino cw' = w_ino cw \<and>
     inodes d' (w_ino cw) @ w_buf cw' = inodes (s_disk st) (w_ino cw) @ w_buf cw @ encode E (live_cmds m es) \<and>
     (\<forall>j. j \<noteq> w_ino cw \<longrightarrow> inodes d' j = inodes (s_disk st) j) \<and>
     dents d' = dents (s_disk st) \<and> next_ino d' = next_ino (s_disk st) \<and>
     handles_ok ino L cur rs' \<and> sk_iter S i' = vs @ laid E cg new_pos (live_cmds m es)"
  using assms
proof (induction es arbitrary: vs new_pos cw st)
  case Nil
  then show ?case by (intro exI[of _ cw] exI[of _ "s_disk st"] exI[of _ "s_readers st"] exI[of _ "s_index st"]) simp
next
  case (Cons e es)
  obtain k cp where e: "e = (k, cp)" by fastforce
  have lf: "liftable E m L ino cur (w_ino cw) (s_disk st) (k, cp)" using Cons.prems(1) by (simp add: e)
  define bytes where "bytes = serialize E (CSet k (the (m k)))"
  obtain rs where rs: "read_and (s_safe st) cp (s_disk st) (s_readers st) = (Ok bytes, rs)" "handles_ok ino L cur rs"
    using read_and_ok[OF _ Cons.prems(2), of cp "s_disk st" "s_safe st"] lf by (auto simp: liftable_def bytes_def)
  obtain cw1 d1 where w: "writer_write bytes cw (s_disk st) = (cw1, d1)" by fastforce
  note wr = writer_write_all[OF w]
  let ?p = "mk_pos cg new_pos (new_pos + length bytes)"
  define st1 where "st1 = st\<lparr>s_disk := d1, s_readers := rs, s_index := sk_insert S k ?p (s_index st)\<rparr>"
  have step: "copy_entries S cg (e # es) new_pos cw st = copy_entries S cg es (new_pos + length bytes) cw1 st1"
    using rs(1) w by (simp add: e st1_def Let_def)
  have "\<forall>e\<in>set es. liftable E m L ino cur (w_ino cw1) (s_disk st1) e"
    using Cons.prems(1) liftable_mono[of E m L ino cur "w_ino cw" "s_disk st" _ d1] wr by (simp add: st1_def)
  moreover have "handles_ok ino L cur (s_readers st1)" using rs(2) by (simp add: st1_def)
  moreover have "sk_iter S (s_index st1) = (vs @ [(k, ?p)]) @ es"
    using Cons.prems(3,4) bt_insert_mid[of vs k cp es ?p] by (simp add: st1_def skip_okD(3)[OF Cons.prems(5)] e)
  moreover have "bt_ok ((vs @ [(k, ?p)]) @ es)" using Cons.prems(4) bt_ok_keys[of vs k cp es] by (simp only: e)
  ultimately obtain cw' d' rs' i' where IH:
    "copy_entries S cg es (new_pos + length bytes) cw1 st1 = (Ok cw', st1\<lparr>s_disk := d', s_readers := rs', s_index := i'\<rparr>)"
    "w_ino cw' = w_ino cw1"
    "inodes d' (w_ino cw1) @ w_buf cw' = inodes (s_disk st1) (w_ino cw1) @ w_buf cw1 @ encode E (live_cmds m es)"
    "\<forall>j. j \<noteq> w_ino cw1 \<longrightarrow> inodes d' j = inodes (s_disk st1) j"
    "dents d' = dents (s_disk st1)" "next_ino d' = next_ino (s_disk st1)" "handles_ok ino L cur rs'"
    "sk_iter S i' = (vs @ [(k, ?p)]) @ laid E cg (new_pos + length bytes) (live_cmds m es)"
    using Cons.IH[OF _ _ _ _ Cons.prems(5), of cw1 st1 "vs @ [(k, ?p)]" "new_pos + length bytes"] by blast
  have "inodes d' (w_ino cw) @ w_buf cw' = inodes (s_disk st) (w_ino cw) @ w_buf cw @ bytes @ encode E (live_cmds m es)"
    using IH(3) wr(1) wr(3) by (simp add: st1_def)
  then show ?case unfolding step
    using IH wr by (intro exI[of _ cw'] exI[of _ d'] exI[of _ rs'] exI[of _ i']) (simp add: e bytes_def st1_def)
qed

lemma remove_logs_spec:
  assumes "log_dir E d L ino" "set gs \<subseteq> fst ` set L" "distinct gs"
  shows "log_dir E (remove_logs gs d) (filter (\<lambda>p. fst p \<notin> set gs) L) ino"
  using assms
proof (induction gs arbitrary: d L)
  case (Cons g gs)
  obtain cs where cs: "(g, cs) \<in> set L" using Cons.prems(2) by auto
  obtain d' where d': "fs_remove_file (log_path g) d = Inr d'" "log_dir E d' (filter (\<lambda>p. fst p \<noteq> g) L) ino"
    using log_dir_remove[OF Cons.prems(1) cs] by blast
  have "set gs \<subseteq> fst ` set (filter (\<lambda>p. fst p \<noteq> g) L)" using Cons.prems(2,3) by (auto simp: image_iff) fastforce
  then have "log_dir E (remove_logs gs d') (filter (\<lambda>p. fst p \<notin> set gs) (filter (\<lambda>p. fst p \<noteq> g) L)) ino"
    using Cons.IH[OF d'(2)] Cons.prems(3) by simp
  moreover have "filter (\<lambda>p. fst p \<notin> set gs) (filter (\<lambda>p. fst p \<noteq> g) L) = filter (\<lambda>p. fst p \<notin> set (g # gs)) L"
    by (auto intro: filter_cong)
  ultimately show ?case using d'(1) by simp
qed simp

lemma two_logs:
  assumes l: "log_dir E d L ino" and le: "\<And>h. h \<in> fst ` set L \<Longrightarrow> h \<le> g" and b: "g + 2 < 2 ^ 64"
  obtains i j d1 d2 where "log_writer (g + 2) d = (Ok (writer_new i), d1)" "log_writer (g + 1) d1 = (Ok (writer_new j), d2)"
    "log_dir E d2 (L @ [(g + 1, []), (g + 2, [])]) (ino(g + 2 := i, g + 1 := j))"
    "\<And>h. h \<in> fst ` set L \<Longrightarrow> inodes d2 (ino h) = inodes d (ino h) \<and> ino h \<noteq> j"
proof -
  let ?L1 = "L @ [(g + 2, [])]" and ?L2 = "L @ [(g + 1, []), (g + 2, [])]"
  have n2: "g + 2 \<notin> fst ` set L" using le[of "g + 2"] by auto
  have n1: "g + 1 \<notin> fst ` set ?L1" using le[of "g + 1"] by auto
  have dL: "distinct (map fst ?L1)" "distinct (map fst ?L2)" using log_dirD(2)[OF l] n1 n2 by simp_all
  have s1: "set ?L1 = insert (g + 2, []) (set L)" and s2: "set ?L2 = insert (g + 1, []) (set ?L1)" by auto
  have b1: "g + 1 < 2 ^ 64" using b by simp
  obtain d1 i where f1: "log_writer (g + 2) d = (Ok (writer_new i), d1)" "log_dir E d1 ?L1 (ino(g + 2 := i))"
    "\<forall>h\<in>fst ` set L. ino h \<noteq> i \<and> inodes d1 (ino h) = inodes d (ino h)"
    by (rule log_writer_new[OF l n2 b s1 dL(1)])
  obtain d2 j where f2: "log_writer (g + 1) d1 = (Ok (writer_new j), d2)" "log_dir E d2 ?L2 (ino(g + 2 := i, g + 1 := j))"
    "\<forall>h\<in>fst ` set ?L1. (ino(g + 2 := i)) h \<noteq> j \<and> inodes d2 ((ino(g + 2 := i)) h) = inodes d1 ((ino(g + 2 := i)) h)"
    by (rule log_writer_new[OF f1(2) n1 b1 s2 dL(2)])
  show thesis
  proof (rule that[OF f1(1) f2(1) f2(2)])
    show "inodes d2 (ino h) = inodes d (ino h) \<and> ino h \<noteq> j" if h: "h \<in> fst ` set L" for h
    proof -
      have "h \<noteq> g + 2" using h n2 by blast
      moreover have "h \<in> fst ` set ?L1" using h by (simp add: image_Un)
      moreover note h
      ultimately
      show ?thesis using f2(3) f1(3) by (metis fun_upd_apply)
    qed
  qed
qed

lemma view_liftable:
  assumes v: "store_view E S L ino st" and l2: "log_dir E d2 (L @ N) ino2"
    and ino2: "\<And>h. h \<in> fst ` set L \<Longrightarrow> ino2 h = ino h \<and> inodes d2 (ino h) = inodes (s_disk st) (ino h) \<and> ino h \<noteq> wi"
    and e: "e \<in> set (sk_iter S (s_index st))"
  shows "liftable E (contents L) (L @ N) ino2 (s_gen st) wi d2 e"
proof -
  obtain k cp where kc: "e = (k, cp)" by fastforce
  have "bt_ok (sk_iter S (s_index st))" using store_view_index[OF v] by (simp add: index_ok_def)
  then have "map_of (sk_iter S (s_index st)) k = Some cp" using e bt_ok_distinct kc by fastforce
  then obtain val cs where cs: "(cp_gen cp, cs) \<in> set L" "contents L k = Some val"
    "take (cp_len cp) (drop (cp_pos cp) (encode E cs)) = serialize E (CSet k val)"
    using store_view_index[OF v] unfolding index_ok_def points_at_def by (force split: option.splits)
  have g: "cp_gen cp \<in> fst ` set L" using cs(1) by force
  have o: "fs_open_read (log_path (cp_gen cp)) d2 = Inr (ino (cp_gen cp))"
    using log_dir_open[OF l2, of "cp_gen cp"] g ino2[OF g] by (simp add: image_Un)
  have "inodes d2 (ino (cp_gen cp)) = encode E cs"
    using ino2[OF g] log_dirD(3)[OF store_viewD(1)[OF v] cs(1)] by simp
  then show ?thesis using cs(2,3) g o ino2[OF g] store_view_le[OF v g]
    by (simp add: liftable_def kc fs_read_def image_Un)
qed

lemma sorted_stale:
  assumes "log_dir E d (L @ [(g + 1, cs), (g + 2, [])]) ino" "sorted_wrt (<) (map fst L)" "\<And>h. h \<in> fst ` set L \<Longrightarrow> h \<le> g"
  shows "filter (\<lambda>gen. gen < g + 1) (sorted_gen_list d) = map fst L"
proof -
  have lt: "h < g + 1" if "h \<in> set (map fst L)" for h using assms(3)[of h] that by fastforce
  have "sorted_wrt (<) (map fst (L @ [(g + 1, cs), (g + 2, [])]))"
    using assms(2) lt by (auto simp: sorted_wrt_append less_Suc_eq)
  from log_dir_gens[OF assms(1) this] show ?thesis using lt by simp
qed

lemma written_log:
  assumes l: "log_dir E d (L @ [(g, []), (h, [])]) ino" and d': "dents d' = dents d" "next_ino d' = next_ino d"
    and b: "inodes d' (ino g) = encode E cs" "\<And>j. j \<noteq> ino g \<Longrightarrow> inodes d' j = inodes d j"
  shows "log_dir E d' (L @ [(g, cs), (h, [])]) ino"
proof (rule log_dir_file[OF l _ _ _ d'])
  show "(g, []) \<in> set (L @ [(g, []), (h, [])])" by simp
  show "set (L @ [(g, cs), (h, [])]) = insert (g, cs) (set (L @ [(g, []), (h, [])]) - {(g, [])})"
    using log_dirD(2)[OF l] by (auto simp: image_iff)
  show "distinct (map fst (L @ [(g, cs), (h, [])]))" using log_dirD(2)[OF l] by simp
  show "inodes d' (ino f) = inodes d (ino f)" if "(f, ds) \<in> set (L @ [(g, []), (h, [])])" "f \<noteq> g" for f ds
    using b(2) log_dir_inj[OF l that(1), of g "[]"] that(2) by simp
qed (rule b(1))

lemma drop_old_logs:
  assumes l: "log_dir E d (L @ [(g + 1, cs), (g + 2, [])]) ino" and le: "\<And>h. h \<in> fst ` set L \<Longrightarrow> h \<le> g"
  shows "log_dir E (remove_logs (map fst L) d) [(g + 1, cs), (g + 2, [])] ino"
proof -
  let ?N = "[(g + 1, cs), (g + 2, [])]"
  have "filter (\<lambda>p. fst p \<notin> set (map fst L)) (L @ ?N) = ?N"
    using le[of "g + 1"] le[of "g + 2"] by (auto simp: filter_empty_conv)
  moreover have "set (map fst L) \<subseteq> fst ` set (L @ ?N)" "distinct (map fst L)" using log_dirD(2)[OF l] by auto
  ultimately show ?thesis using remove_logs_spec[OF l] by metis
qed

text \<open>What a compaction leaves: the log it wrote and an empty one, and an index into the former.\<close>

lemma compacted_view:
  assumes ix: "index_ok E L ix" and l: "log_dir E d [(g + 1, live_cmds (contents L) ix), (g + 2, [])] ino"
    and h: "handles_ok ino0 L0 g rs" and w: "i = ino (g + 2)" and k: "sk_iter S k = laid E (g + 1) 0 (live_cmds (contents L) ix)"
    and st: "\<not> s_poisoned st"
  shows "store_view E S [(g + 1, live_cmds (contents L) ix), (g + 2, [])] ino
    (st\<lparr>s_gen := g + 2, s_writer := writer_new i, s_disk := d, s_index := k, s_safe := g + 1, s_readers := rs, s_uncompacted := 0\<rparr>)"
proof -
  have "handles_ok ino [(g + 1, live_cmds (contents L) ix), (g + 2, [])] (g + 2) rs"
    by (rule handles_ok_evolve[OF h]) auto
  then show ?thesis using compacted_replay[of ix E "g + 1" "contents L" "g + 2"] assms
    by (simp add: store_view_def writer_new_def index_ok_def)
qed

lemma store_compact_view:
  assumes v: "store_view E S L ino st" and S: "skip_ok S" and b: "s_gen st + 2 < 2 ^ 64"
  shows "\<exists>L' ino' st'. store_compact S st = (Ok (), st') \<and> store_view E S L' ino' st' \<and> contents L' = contents L \<and>
     s_gen st' = s_gen st + 2 \<and> s_safe st' = s_gen st + 1 \<and> s_uncompacted st' = 0 \<and> evolves E (L, ino, st) (L', ino', st')"
proof -
  define g where "g = s_gen st"
  have le: "\<And>h. h \<in> fst ` set L \<Longrightarrow> h \<le> g" using store_view_le[OF v] by (simp add: g_def)
  have bg: "g + 2 < 2 ^ 64" using b by (simp add: g_def)
  note ix = store_view_index[OF v]
  let ?ix = "sk_iter S (s_index st)" and ?cmds = "live_cmds (contents L) (sk_iter S (s_index st))" and ?N = "[(g + 1, []), (g + 2, [])]"
  obtain i j d1 d2 where f: "log_writer (g + 2) (s_disk st) = (Ok (writer_new i), d1)" "log_writer (g + 1) d1 = (Ok (writer_new j), d2)"
    "log_dir E d2 (L @ ?N) (ino(g + 2 := i, g + 1 := j))"
    "\<And>h. h \<in> fst ` set L \<Longrightarrow> inodes d2 (ino h) = inodes (s_disk st) (ino h) \<and> ino h \<noteq> j"
    by (rule two_logs[OF store_viewD(1)[OF v] le bg]) blast+
  define ino2 where "ino2 = ino(g + 2 := i, g + 1 := j)"
  note l2 = f(3)[folded ino2_def]
  have i2: "ino2 h = ino h" if "h \<in> fst ` set L" for h using le[OF that] by (simp add: ino2_def)
  define st3 where "st3 = st\<lparr>s_gen := g + 2, s_writer := writer_new i, s_disk := d2\<rparr>"
  have "handles_ok ino2 (L @ ?N) g (s_readers st)"
    by (rule handles_ok_evolve[OF store_viewD(8)[OF v, folded g_def]]) (auto simp: ino2_def)
  then have pre: "\<forall>e\<in>set ?ix. liftable E (contents L) (L @ ?N) ino2 g (w_ino (writer_new j)) (s_disk st3) e"
    "handles_ok ino2 (L @ ?N) g (s_readers st3)" "sk_iter S (s_index st3) = [] @ ?ix" "bt_ok ([] @ ?ix)"
    using ix view_liftable[OF v l2] i2 f(4) by (simp_all add: st3_def index_ok_def g_def writer_new_def)
  obtain cw d4 rs k where c: "copy_entries S (g + 1) ?ix 0 (writer_new j) st3 = (Ok cw, st3\<lparr>s_disk := d4, s_readers := rs, s_index := k\<rparr>)"
    "w_ino cw = w_ino (writer_new j)"
    "inodes d4 (w_ino (writer_new j)) @ w_buf cw = inodes (s_disk st3) (w_ino (writer_new j)) @ w_buf (writer_new j) @ encode E ?cmds"
    "\<forall>f. f \<noteq> w_ino (writer_new j) \<longrightarrow> inodes d4 f = inodes (s_disk st3) f"
    "dents d4 = dents (s_disk st3)" "next_ino d4 = next_ino (s_disk st3)" "handles_ok ino2 (L @ ?N) g rs"
    "sk_iter S k = [] @ laid E (g + 1) 0 ?cmds"
    using copy_entries_spec[OF pre S, of "g + 1" 0] by blast
  define d5 where "d5 = snd (writer_flush cw d4)"
  have l5: "log_dir E d5 (L @ [(g + 1, ?cmds), (g + 2, [])]) ino2"
    by (rule written_log[OF l2]) (use c(2-6) log_dirD(3)[OF l2, of "g + 1" "[]"] in
      \<open>auto simp: d5_def writer_flush_def writer_new_def st3_def ino2_def\<close>)
  let ?L' = "[(g + 1, ?cmds), (g + 2, [])]"
  let ?st = "st\<lparr>s_gen := g + 2, s_writer := writer_new i, s_disk := remove_logs (map fst L) d5, s_index := k, s_safe := g + 1,
     s_readers := close_stale_handles (g + 1) rs, s_uncompacted := 0\<rparr>"
  have "store_compact S st = (Ok (), ?st)"
    using bg f(1,2) c(1) sorted_stale[OF l5 store_viewD(2)[OF v] le]
    by (simp add: store_compact_def g_def[symmetric] Let_def st3_def d5_def)
  moreover have "store_view E S ?L' ino2 ?st"
    using compacted_view[OF ix drop_old_logs[OF l5 le] handles_ok_close[OF c(7)] _ _ store_viewD(10)[OF v]] c(8)
    by (simp add: ino2_def)
  moreover have "contents ?L' = contents L" by (rule compacted_contents[OF ix])
  moreover have "evolves E (L, ino, st) (?L', ino2, ?st)"
    by (auto simp: evolves_def g_def elim: handles_ok_evolve)
  ultimately show ?thesis by (intro exI[of _ ?L'] exI[of _ ino2] exI[of _ ?st]) (simp add: g_def)
qed

subsection \<open>The calls of the writer\<close>

lemma evolves_trans_compact:
  assumes "evolves E (L, ino, st) (L1, ino1, st1)" "s_gen st1 = s_gen st" "s_safe st1 = s_safe st"
    and "evolves E (L1, ino1, st1) (L2, ino2, st2)" "s_safe st2 = s_gen st1 + 1"
  shows "evolves E (L, ino, st) (L2, ino2, st2)"
  using assms by (simp add: evolves_def)

lemma compact_if_large_view:
  assumes e: "evolves E (L0, ino, st0) (L, ino, st)" "s_gen st = s_gen st0" "s_safe st = s_safe st0"
    and v: "store_view E S L ino st" and S: "skip_ok S" and b: "s_gen st + 2 < 2 ^ 64"
  shows "\<exists>L' ino' st'. compact_if_large S st = (Ok (), st') \<and> store_view E S L' ino' st' \<and> contents L' = contents L \<and>
     evolves E (L0, ino, st0) (L', ino', st') \<and> s_uncompacted st' \<le> COMPACTION_THRESHOLD \<and>
     (s_uncompacted st > COMPACTION_THRESHOLD \<longrightarrow> s_safe st' = s_gen st + 1)"
proof (cases "s_uncompacted st > COMPACTION_THRESHOLD")
  case True
  obtain L' ino' st' where c: "store_compact S st = (Ok (), st')" "store_view E S L' ino' st'" "contents L' = contents L"
    "s_safe st' = s_gen st + 1" "s_uncompacted st' = 0" "evolves E (L, ino, st) (L', ino', st')"
    using store_compact_view[OF v S b] by blast
  then show ?thesis using True evolves_trans_compact[OF e c(6,4)]
    by (intro exI[of _ L'] exI[of _ ino'] exI[of _ st']) (simp add: compact_if_large_def)
next
  case False
  then show ?thesis using v e(1) by (intro exI[of _ L] exI[of _ ino] exI[of _ st]) (simp add: compact_if_large_def)
qed

lemma index_uncompacted: "st\<lparr>s_uncompacted := u, s_index := i\<rparr> = st\<lparr>s_index := i, s_uncompacted := u\<rparr>"
  by (cases st) simp

lemma writer_set_view:
  assumes v: "store_view E S L ino st" and S: "skip_ok S" and b: "s_gen st + 2 < 2 ^ 64"
  shows "\<exists>L' ino' st'. writer_set E S k val st = (Ok (), st') \<and> store_view E S L' ino' st' \<and>
     contents L' = (contents L)(k \<mapsto> val) \<and> evolves E (L, ino, st) (L', ino', st') \<and> s_uncompacted st' \<le> COMPACTION_THRESHOLD \<and>
     (s_uncompacted st + old_of cp_len (sk_iter S (s_index st)) k > COMPACTION_THRESHOLD \<longrightarrow> s_safe st' = s_gen st + 1)"
proof -
  obtain M cs where L: "L = M @ [(s_gen st, cs)]" using store_view_last[OF v] by blast
  let ?c = "CSet k val" and ?g = "s_gen st" and ?p = "w_pos (s_writer st)"
  let ?cp = "mk_pos ?g ?p (?p + length (serialize E (CSet k val)))"
  let ?st = "(append_cmd E ?c st)\<lparr>s_index := sk_insert S k ?cp (s_index st),
     s_uncompacted := s_uncompacted st + old_of cp_len (sk_iter S (s_index st)) k\<rparr>"
  have ix: "(bt_insert k ?cp (sk_iter S (s_index st)), s_uncompacted st + old_of cp_len (sk_iter S (s_index st)) k) =
      cmd_step E ?g ?p ?c (sk_iter S (s_index st), s_uncompacted st)" by (simp add: cmd_step_def)
  note a = store_append_view[OF v[unfolded L] ix skip_okD(3)[OF S]]
  have same: "s_gen (append_cmd E ?c st) = ?g" "s_index (append_cmd E ?c st) = s_index st" "s_safe (append_cmd E ?c st) = s_safe st"
    "s_uncompacted (append_cmd E ?c st) = s_uncompacted st" by (simp_all add: append_cmd_def split_beta)
  have set: "writer_set E S k val st = compact_if_large S ?st"
    using a(2) by (simp add: writer_set_def Let_def same skip_okD(2)[OF S] index_uncompacted)
  have "contents (M @ [(?g, cs @ [?c])]) = (contents L)(k \<mapsto> val)" by (simp add: contents_snoc_cmd L)
  then show ?thesis using compact_if_large_view[OF a(3) _ _ a(1) S] b same unfolding set L by simp
qed

lemma writer_remove_view:
  assumes v: "store_view E S L ino st" and S: "skip_ok S" and b: "s_gen st + 2 < 2 ^ 64" and k: "contents L k \<noteq> None"
  shows "\<exists>L' ino' st'. writer_remove E S k st = (Ok (), st') \<and> store_view E S L' ino' st' \<and>
     contents L' = (contents L)(k := None) \<and> evolves E (L, ino, st) (L', ino', st') \<and> s_uncompacted st' \<le> COMPACTION_THRESHOLD"
proof -
  obtain M cs where L: "L = M @ [(s_gen st, cs)]" using store_view_last[OF v] by blast
  let ?c = "CRemove k" and ?g = "s_gen st" and ?p = "w_pos (s_writer st)"
  obtain cp where cp: "map_of (sk_iter S (s_index st)) k = Some cp"
    using index_ok_dom[OF store_view_index[OF v], of k] k by (metis map_of_eq_None_iff not_None_eq)
  let ?u = "s_uncompacted st + cp_len cp + length (serialize E ?c)"
  let ?st = "(append_cmd E ?c st)\<lparr>s_index := sk_remove S k (s_index st), s_uncompacted := ?u\<rparr>"
  have ix: "(bt_remove k (sk_iter S (s_index st)), ?u) = cmd_step E ?g ?p ?c (sk_iter S (s_index st), s_uncompacted st)"
    using cp by (simp add: cmd_step_def)
  note a = store_append_view[OF v[unfolded L] ix skip_okD(4)[OF S]]
  have same: "s_gen (append_cmd E ?c st) = ?g" "s_index (append_cmd E ?c st) = s_index st" "s_safe (append_cmd E ?c st) = s_safe st"
    "s_uncompacted (append_cmd E ?c st) = s_uncompacted st" by (simp_all add: append_cmd_def split_beta)
  have set: "writer_remove E S k st = compact_if_large S ?st"
    using a(2) cp by (simp add: writer_remove_def Let_def same skip_okD(2)[OF S])
  have "contents (M @ [(?g, cs @ [?c])]) = (contents L)(k := None)" by (simp add: contents_snoc_cmd L)
  then show ?thesis using compact_if_large_view[OF a(3) _ _ a(1) S] b same unfolding set L by simp blast
qed

subsection \<open>Reading while others write\<close>

lemma read_command_value:
  assumes v: "store_view E S L ino st" and sd: "serde_ok E" and p: "points_at E L cp c"
    and h: "handles_ok ino L (s_gen st) rs"
  shows "\<exists>rs'. read_command E (s_safe st) cp (s_disk st) rs = (Ok c, rs') \<and> handles_ok ino L (s_gen st) rs'"
proof -
  obtain cs where cs: "(cp_gen cp, cs) \<in> set L" "take (cp_len cp) (drop (cp_pos cp) (encode E cs)) = serialize E c"
    using p by (auto simp: points_at_def)
  have g: "cp_gen cp \<in> fst ` set L" using cs(1) by force
  have "fs_read (ino (cp_gen cp)) (cp_pos cp) (cp_len cp) (s_disk st) = serialize E c"
    using cs(2) log_dirD(3)[OF store_viewD(1)[OF v] cs(1)] by (simp add: fs_read_def)
  then show ?thesis
    using read_and_ok[OF log_dir_open[OF store_viewD(1)[OF v] g] h g store_view_le[OF v g], of "s_safe st"] serde_okD(1)[OF sd]
    by (auto simp: read_command_def)
qed

lemma read_command_gone:
  assumes v: "store_view E S L ino st" and cp: "cp_gen cp < s_safe st" "cp_gen cp < 2 ^ 64" and h: "handles_ok ino L (s_gen st) rs"
  shows "read_command E (s_safe st) cp (s_disk st) rs = (Err (Io NotFound), close_stale_handles (s_safe st) rs)"
proof -
  have "cp_gen cp \<notin> fst ` set L" using store_viewD(9)[OF v, of "cp_gen cp"] cp(1) by auto
  then show ?thesis using read_and_gone[OF store_viewD(1)[OF v] h _ cp(2,1)] by (simp add: read_command_def)
qed

lemma get_read_value:
  assumes "store_view E S L ino st" "serde_ok E" "points_at E L cp (CSet k val)" "handles_ok ino L (s_gen st) rs"
  shows "\<exists>rs'. get_read E cp rs st = (Ok (Some val), rs') \<and> handles_ok ino L (s_gen st) rs'"
  using read_command_value[OF assms] by (auto simp: get_read_def)

lemma get_read_gone:
  assumes "store_view E S L ino st" "cp_gen cp < s_safe st" "cp_gen cp < 2 ^ 64" "handles_ok ino L (s_gen st) rs"
  shows "get_read E cp rs st = (Err (Io NotFound), close_stale_handles (s_safe st) rs)"
  using read_command_gone[OF assms] by (simp add: get_read_def)

lemma store_get_view:
  assumes v: "store_view E S L ino st" and sd: "serde_ok E" and S: "skip_ok S" and h: "handles_ok ino L (s_gen st) rs"
  shows "\<exists>rs'. store_get E S k rs st = (Ok (contents L k), rs') \<and> handles_ok ino L (s_gen st) rs'"
proof (cases "map_of (sk_iter S (s_index st)) k")
  case None
  then have "contents L k = None" using index_ok_dom[OF store_view_index[OF v], of k] by (metis map_of_eq_None_iff)
  then show ?thesis using None h by (simp add: store_get_def skip_okD(2)[OF S])
next
  case (Some cp)
  then obtain val where "points_at E L cp (CSet k val)" "contents L k = Some val"
    using store_view_index[OF v] unfolding index_ok_def by (force split: option.splits)
  then show ?thesis using get_read_value[OF v sd _ h] Some by (simp add: store_get_def skip_okD(2)[OF S])
qed

subsection \<open>Many handles\<close>

text \<open>A system is the shared store and the open files of every handle. A handle is one clone of \<^verbatim>\<open>KvStore\<close>.\<close>

type_synonym 's system = "'s store \<times> (nat \<Rightarrow> handles)"

definition store_engine :: "kv_env \<Rightarrow> 's skip \<Rightarrow> nat \<Rightarrow> 's system engine" where
  "store_engine E S h =
     \<lparr>eng_set = (\<lambda>k v (st, hs). case store_set E S k v st of (r, st') \<Rightarrow> (r, st', hs)),
      eng_get = (\<lambda>k (st, hs). case store_get E S k (hs h) st of (r, rs) \<Rightarrow> (r, st, hs(h := rs))),
      eng_remove = (\<lambda>k (st, hs). case store_remove E S k st of (r, st') \<Rightarrow> (r, st', hs))\<rparr>"

definition shared_inv :: "kv_env \<Rightarrow> 's skip \<Rightarrow> nat \<Rightarrow> 's system \<Rightarrow> bool" where
  "shared_inv E S n s \<longleftrightarrow> serde_ok E \<and> skip_ok S \<and> s_gen (fst s) + 2 * n < 2 ^ 64 \<and>
     (\<exists>L ino. store_view E S L ino (fst s) \<and> (\<forall>h. handles_ok ino L (s_gen (fst s)) (snd s h)))"

definition shared_abs :: "kv_env \<Rightarrow> 's skip \<Rightarrow> 's system \<Rightarrow> string \<Rightarrow> string option" where
  "shared_abs E S s key =
     (case sk_get S (s_index (fst s)) key of
        None \<Rightarrow> None
      | Some cp \<Rightarrow>
          (case fs_open_read (log_path (cp_gen cp)) (s_disk (fst s)) of
             Inl e \<Rightarrow> None
           | Inr i \<Rightarrow>
               (case from_reader E (fs_read i (cp_pos cp) (cp_len cp) (s_disk (fst s))) of
                  Some (CSet k v) \<Rightarrow> Some v
                | _ \<Rightarrow> None)))"

lemma store_view_lookup:
  assumes v: "store_view E S L ino st" and S: "skip_ok S" and k: "sk_get S (s_index st) key = Some cp"
  obtains val where "points_at E L cp (CSet key val)" "contents L key = Some val" "cp_gen cp \<in> fst ` set L" "cp_gen cp < 2 ^ 64"
proof -
  obtain val where val: "points_at E L cp (CSet key val)" "contents L key = Some val"
    using store_view_index[OF v] k unfolding index_ok_def skip_okD(2)[OF S] by (force split: option.splits)
  then obtain cs where "(cp_gen cp, cs) \<in> set L" by (auto simp: points_at_def)
  then show thesis using val log_dirD(3)[OF store_viewD(1)[OF v]] that by force
qed

lemma shared_abs_contents:
  assumes v: "store_view E S L ino (fst s)" and S: "skip_ok S" and sd: "serde_ok E"
  shows "shared_abs E S s = contents L"
proof
  fix k
  show "shared_abs E S s k = contents L k"
  proof (cases "sk_get S (s_index (fst s)) k")
    case None
    then have "contents L k = None"
      using index_ok_dom[OF store_view_index[OF v], of k] by (metis skip_okD(2)[OF S] map_of_eq_None_iff)
    then show ?thesis using None by (simp add: shared_abs_def)
  next
    case (Some cp)
    from store_view_lookup[OF v S this] obtain val where
      p: "points_at E L cp (CSet k val)" "contents L k = Some val" "cp_gen cp \<in> fst ` set L" by blast
    then obtain cs where cs: "(cp_gen cp, cs) \<in> set L"
      "take (cp_len cp) (drop (cp_pos cp) (encode E cs)) = serialize E (CSet k val)" by (auto simp: points_at_def)
    have "fs_read (ino (cp_gen cp)) (cp_pos cp) (cp_len cp) (s_disk (fst s)) = serialize E (CSet k val)"
      using cs(2) log_dirD(3)[OF store_viewD(1)[OF v] cs(1)] by (simp add: fs_read_def)
    then show ?thesis using log_dir_open[OF store_viewD(1)[OF v] p(3)] p(2) serde_okD(1)[OF sd]
      by (simp add: shared_abs_def Some)
  qed
qed

lemma shared_abs_fst: "fst s = fst s' \<Longrightarrow> shared_abs E S s = shared_abs E S s'"
  unfolding shared_abs_def by presburger

lemma handles_ok_Nil [simp]: "handles_ok ino L cur []"
  by (simp add: handles_ok_def)

lemma with_writer_ok: "\<not> s_poisoned st \<Longrightarrow> f st = (Ok (), st') \<Longrightarrow> with_writer f st = (Ok (), st')"
  "\<not> s_poisoned st \<Longrightarrow> f st = (Err e, st') \<Longrightarrow> with_writer f st = (Err e, st')"
  by (simp_all add: with_writer_def)

lemma evolves_refl: "evolves E (L, ino, st) (L, ino, st)"
  by (simp add: evolves_def)

lemma store_set_view:
  assumes v: "store_view E S L ino st" and S: "skip_ok S" and b: "s_gen st + 2 < 2 ^ 64"
  shows "\<exists>L' ino' st'. store_set E S k val st = (Ok (), st') \<and> store_view E S L' ino' st' \<and>
     contents L' = (contents L)(k \<mapsto> val) \<and> evolves E (L, ino, st) (L', ino', st') \<and> s_uncompacted st' \<le> COMPACTION_THRESHOLD \<and>
     (s_uncompacted st + old_of cp_len (sk_iter S (s_index st)) k > COMPACTION_THRESHOLD \<longrightarrow> s_safe st' = s_gen st + 1)"
  using writer_set_view[OF assms, of k val] with_writer_ok(1)[of st "writer_set E S k val", OF store_viewD(10)[OF v]]
  unfolding store_set_def by blast

lemma store_remove_view:
  assumes v: "store_view E S L ino st" and S: "skip_ok S" and b: "s_gen st + 2 < 2 ^ 64"
  shows "\<exists>L' ino' st'. store_remove E S k st = (if contents L k = None then Err KeyNotFound else Ok (), st') \<and>
     store_view E S L' ino' st' \<and> contents L' = (contents L)(k := None) \<and> evolves E (L, ino, st) (L', ino', st')"
proof (cases "contents L k = None")
  case True
  then have "sk_get S (s_index st) k = None"
    using index_ok_dom[OF store_view_index[OF v], of k] by (simp add: skip_okD(2)[OF S] map_of_eq_None_iff)
  then have "store_remove E S k st = (Err KeyNotFound, st)"
    using with_writer_ok(2)[of st "writer_remove E S k", OF store_viewD(10)[OF v]] by (simp add: store_remove_def writer_remove_def)
  then show ?thesis using True v evolves_refl by (intro exI[of _ L] exI[of _ ino] exI[of _ st]) (simp add: fun_upd_idem)
next
  case False
  then show ?thesis
    using writer_remove_view[OF assms False] with_writer_ok(1)[of st "writer_remove E S k", OF store_viewD(10)[OF v]]
    unfolding store_remove_def if_not_P[OF False] by blast
qed

lemma shared_invE:
  assumes "shared_inv E S n s"
  obtains L ino where "store_view E S L ino (fst s)" "\<forall>h. handles_ok ino L (s_gen (fst s)) (snd s h)" "serde_ok E" "skip_ok S"
    "s_gen (fst s) + 2 * n < 2 ^ 64" "shared_abs E S s = contents L"
proof -
  obtain L ino where "store_view E S L ino (fst s)" "\<forall>h. handles_ok ino L (s_gen (fst s)) (snd s h)" "serde_ok E" "skip_ok S"
    "s_gen (fst s) + 2 * n < 2 ^ 64" using assms unfolding shared_inv_def by blast
  then show thesis using that shared_abs_contents by metis
qed

text \<open>A call of any handle, its result, and what the map would answer.\<close>

fun store_call :: "kv_env \<Rightarrow> 's skip \<Rightarrow> nat \<times> request \<Rightarrow> 's system \<Rightarrow> (kvs_error, string option) outcome \<times> 's system" where
  "store_call E S (h, ReqGet k) s = eng_get (store_engine E S h) k s"
| "store_call E S (h, ReqSet k v) s = attempt (eng_set (store_engine E S h) k v s) (\<lambda>_ s'. (Ok None, s'))"
| "store_call E S (h, ReqRemove k) s = attempt (eng_remove (store_engine E S h) k s) (\<lambda>_ s'. (Ok None, s'))"

fun map_answer :: "request \<Rightarrow> mem_store \<Rightarrow> (kvs_error, string option) outcome" where
  "map_answer (ReqGet k) m = Ok (m k)"
| "map_answer (ReqSet k v) m = Ok None"
| "map_answer (ReqRemove k) m = (if m k = None then Err KeyNotFound else Ok None)"

lemma store_call_view:
  assumes v: "store_view E S L ino (fst s)" and h: "\<forall>h. handles_ok ino L (s_gen (fst s)) (snd s h)"
    and sd: "serde_ok E" and S: "skip_ok S" and b: "s_gen (fst s) + 2 < 2 ^ 64"
  shows "\<exists>L' ino' s'. store_call E S c s = (map_answer (snd c) (contents L), s') \<and> store_view E S L' ino' (fst s') \<and>
     (\<forall>h. handles_ok ino' L' (s_gen (fst s')) (snd s' h)) \<and> contents L' = map_after (snd c) (contents L) \<and>
     evolves E (L, ino, fst s) (L', ino', fst s')"
proof -
  obtain st hs g r where sc: "s = (st, hs)" "c = (g, r)" by fastforce
  have v': "store_view E S L ino st" and b': "s_gen st + 2 < 2 ^ 64" and h': "handles_ok ino L (s_gen st) (hs f)" for f
    using v b h by (simp_all add: sc)
  show ?thesis
  proof (cases r)
    case (ReqGet k)
    obtain rs where "store_get E S k (hs g) st = (Ok (contents L k), rs)" "handles_ok ino L (s_gen st) rs"
      using store_get_view[OF v' sd S h'[of g], of k] by blast
    then show ?thesis using v' h' evolves_refl
      by (intro exI[of _ L] exI[of _ ino] exI[of _ "(st, hs(g := rs))"]) (simp add: sc ReqGet store_engine_def)
  next
    case (ReqSet k val)
    obtain L' ino' st' where "store_set E S k val st = (Ok (), st')" "store_view E S L' ino' st'"
      "contents L' = (contents L)(k \<mapsto> val)" "evolves E (L, ino, st) (L', ino', st')" using store_set_view[OF v' S b'] by blast
    then show ?thesis using h'
      by (intro exI[of _ L'] exI[of _ ino'] exI[of _ "(st', hs)"]) (simp add: sc ReqSet store_engine_def evolves_def)
  next
    case (ReqRemove k)
    obtain L' ino' st' where "store_remove E S k st = (if contents L k = None then Err KeyNotFound else Ok (), st')"
      "store_view E S L' ino' st'" "contents L' = (contents L)(k := None)" "evolves E (L, ino, st) (L', ino', st')"
      using store_remove_view[OF v' S b'] by blast
    then show ?thesis using h'
      by (intro exI[of _ L'] exI[of _ ino'] exI[of _ "(st', hs)"]) (simp add: sc ReqRemove store_engine_def evolves_def)
  qed
qed

lemma shared_inv_call:
  assumes "shared_inv E S (Suc n) s"
  shows "\<exists>s'. store_call E S c s = (map_answer (snd c) (shared_abs E S s), s') \<and> shared_inv E S n s' \<and>
     shared_abs E S s' = map_after (snd c) (shared_abs E S s)"
proof -
  obtain L ino where i: "store_view E S L ino (fst s)" "\<forall>h. handles_ok ino L (s_gen (fst s)) (snd s h)" "serde_ok E" "skip_ok S"
    "s_gen (fst s) + 2 * Suc n < 2 ^ 64" "shared_abs E S s = contents L" by (rule shared_invE[OF assms])
  have b: "s_gen (fst s) + 2 < 2 ^ 64" using i(5) by simp
  obtain L' ino' s' where c: "store_call E S c s = (map_answer (snd c) (contents L), s')" "store_view E S L' ino' (fst s')"
    "\<forall>h. handles_ok ino' L' (s_gen (fst s')) (snd s' h)" "contents L' = map_after (snd c) (contents L)"
    "evolves E (L, ino, fst s) (L', ino', fst s')" using store_call_view[OF i(1-4) b, of c] by blast
  have "s_gen (fst s') \<le> s_gen (fst s) + 2" using c(5) by (simp add: evolves_def)
  then have "shared_inv E S n s'" using c(2,3) i(3-5) by (auto simp: shared_inv_def)
  then show ?thesis using c i(6) shared_abs_contents[OF c(2) i(4,3)] by simp
qed

interpretation shr: kvs_engine "store_engine E S h" "shared_inv E S" "shared_abs E S" "\<lambda>_. True" for E S h
proof unfold_locales
  show "shared_inv E S n s" if "shared_inv E S (Suc n) s" for n s using that by (auto simp: shared_inv_def)
  show "\<exists>s'. eng_set (store_engine E S h) k v s = (Ok (), s') \<and> shared_inv E S n s' \<and> shared_abs E S s' = (shared_abs E S s)(k \<mapsto> v)"
    if "shared_inv E S (Suc n) s" for n s k v
    using shared_inv_call[OF that, of "(h, ReqSet k v)"] by (auto simp: attempt_Ok)
  show "\<exists>s'. eng_get (store_engine E S h) k s = (Ok (shared_abs E S s k), s') \<and> shared_inv E S n s' \<and> shared_abs E S s' = shared_abs E S s"
    if i: "shared_inv E S n s" for n s k
  proof -
    obtain L ino where v: "store_view E S L ino (fst s)" "\<forall>h. handles_ok ino L (s_gen (fst s)) (snd s h)" "serde_ok E" "skip_ok S"
      "s_gen (fst s) + 2 * n < 2 ^ 64" "shared_abs E S s = contents L" by (rule shared_invE[OF i])
    obtain rs where rs: "store_get E S k (snd s h) (fst s) = (Ok (contents L k), rs)" "handles_ok ino L (s_gen (fst s)) rs"
      using store_get_view[OF v(1,3,4), of "snd s h" k] v(2) by blast
    have "shared_inv E S n (fst s, (snd s)(h := rs))" using v rs(2) by (auto simp: shared_inv_def)
    moreover have "shared_abs E S (fst s, (snd s)(h := rs)) = shared_abs E S s" by (rule shared_abs_fst) simp
    ultimately show ?thesis using rs(1) v(6) by (cases s) (simp add: store_engine_def)
  qed
  show "\<exists>s'. eng_remove (store_engine E S h) k s = (if shared_abs E S s k = None then Err KeyNotFound else Ok (), s') \<and>
      shared_inv E S n s' \<and> shared_abs E S s' = (shared_abs E S s)(k := None)" if "shared_inv E S (Suc n) s" for n s k
    using shared_inv_call[OF that, of "(h, ReqRemove k)"]
    by (cases "eng_remove (store_engine E S h) k s"; cases "fst (eng_remove (store_engine E S h) k s)") (auto split: if_splits)
qed

subsection \<open>Sequences of calls\<close>

fun run_calls :: "kv_env \<Rightarrow> 's skip \<Rightarrow> (nat \<times> request) list \<Rightarrow> 's system \<Rightarrow> (kvs_error, string option) outcome list \<times> 's system" where
  "run_calls E S [] s = ([], s)"
| "run_calls E S (c # cs) s =
     (let (r, s') = store_call E S c s; (rs, s'') = run_calls E S cs s' in (r # rs, s''))"

fun map_answers :: "request list \<Rightarrow> mem_store \<Rightarrow> (kvs_error, string option) outcome list" where
  "map_answers [] m = []"
| "map_answers (r # rs) m = map_answer r m # map_answers rs (map_after r m)"

lemma run_calls_spec:
  assumes "shared_inv E S (length cs + n) s"
  shows "\<exists>s'. run_calls E S cs s = (map_answers (map snd cs) (shared_abs E S s), s') \<and> shared_inv E S n s' \<and>
     shared_abs E S s' = fold map_after (map snd cs) (shared_abs E S s)"
  using assms
proof (induction cs arbitrary: s)
  case (Cons c cs)
  have "shared_inv E S (Suc (length cs + n)) s" using Cons.prems by simp
  from shared_inv_call[OF this, of c] obtain s1 where s1: "store_call E S c s = (map_answer (snd c) (shared_abs E S s), s1)"
    "shared_inv E S (length cs + n) s1" "shared_abs E S s1 = map_after (snd c) (shared_abs E S s)" by blast
  from Cons.IH[OF s1(2)] s1 show ?case by auto
qed simp

text \<open>A position looked up before the calls: either the command is still where it was, or a compaction has moved the safe point
  past it.\<close>

definition settled :: "kv_env \<Rightarrow> nat \<Rightarrow> command_pos \<Rightarrow> command \<Rightarrow> (nat \<times> command list) list \<Rightarrow> 's store \<Rightarrow> bool" where
  "settled E sp cp c L st \<longleftrightarrow> s_safe st = sp \<and> points_at E L cp c \<or> sp < s_safe st \<and> cp_gen cp < s_safe st"

lemma settled_evolves:
  assumes "settled E sp cp c L st" "evolves E (L, ino, st) (L', ino', st')" "store_view E S L ino st"
  shows "settled E sp cp c L' st'"
proof -
  obtain M cs where L: "L = M @ [(s_gen st, cs)]" using store_view_last[OF assms(3)] by blast
  have sg: "s_safe st \<le> s_gen st" by (rule store_viewD(9)[OF assms(3)]) (simp add: L)
  have "cp_gen cp \<le> s_gen st" if "points_at E L cp c"
  proof -
    have "cp_gen cp \<in> fst ` set L" using that by (force simp: points_at_def)
    then show ?thesis by (rule store_view_le[OF assms(3)])
  qed
  then show ?thesis using assms(1,2) sg unfolding settled_def evolves_def by auto
qed

lemma run_calls_settled:
  assumes "store_view E S L ino (fst s)" "\<forall>h. handles_ok ino L (s_gen (fst s)) (snd s h)" "settled E sp cp c L (fst s)"
    and "serde_ok E" "skip_ok S" "s_gen (fst s) + 2 * length cs < 2 ^ 64"
  shows "\<exists>L' ino'. store_view E S L' ino' (fst (snd (run_calls E S cs s))) \<and>
     (\<forall>h. handles_ok ino' L' (s_gen (fst (snd (run_calls E S cs s)))) (snd (snd (run_calls E S cs s)) h)) \<and>
     settled E sp cp c L' (fst (snd (run_calls E S cs s)))"
  using assms
proof (induction cs arbitrary: L ino s)
  case (Cons a cs)
  have b: "s_gen (fst s) + 2 < 2 ^ 64" using Cons.prems(6) by simp
  from store_call_view[OF Cons.prems(1,2,4,5) b, of a] obtain L1 ino1 s1 where
    s1: "store_call E S a s = (map_answer (snd a) (contents L), s1)" "store_view E S L1 ino1 (fst s1)"
      "\<forall>h. handles_ok ino1 L1 (s_gen (fst s1)) (snd s1 h)" "evolves E (L, ino, fst s) (L1, ino1, fst s1)" by blast
  have "s_gen (fst s1) \<le> s_gen (fst s) + 2" using s1(4) by (simp add: evolves_def)
  then have "s_gen (fst s1) + 2 * length cs < 2 ^ 64" using Cons.prems(6) by simp
  from Cons.IH[OF s1(2,3) settled_evolves[OF Cons.prems(3) s1(4) Cons.prems(1)] Cons.prems(4,5) this]
  show ?case using s1(1) by (auto simp: split_beta)
qed auto

lemma shared_inv_open:
  assumes "log_dir E d L ino" "sorted_wrt (<) (map fst L)" "serde_ok E" "skip_ok S"
    and "(if L = [] then 0 else fst (last L)) + 1 + 2 * n < 2 ^ 64"
  shows "\<exists>rs st. store_open E S d = Ok (rs, st) \<and> shared_inv E S n (st, (\<lambda>_. [])(0 := rs)) \<and>
     shared_abs E S (st, (\<lambda>_. [])(0 := rs)) = contents L"
proof -
  let ?g = "(if L = [] then 0 else fst (last L)) + 1"
  have "?g < 2 ^ 64" using assms(5) by simp
  from store_open_view[OF assms(1-4) refl this] obtain rs st ino' where
    o: "store_open E S d = Ok (rs, st)" "store_view E S (L @ [(?g, [])]) ino' st" "s_gen st = ?g" "handles_ok ino' (L @ [(?g, [])]) ?g rs"
    by blast
  have "\<forall>h. handles_ok ino' (L @ [(?g, [])]) (s_gen st) (((\<lambda>_. [])(0 := rs)) h)" using o(3,4) by (metis fun_upd_apply handles_ok_Nil)
  then have "shared_inv E S n (st, (\<lambda>_. [])(0 := rs))"
    using o(2,3) assms(3-5) unfolding shared_inv_def fst_conv snd_conv by (intro conjI exI) auto
  moreover have "shared_abs E S (st, (\<lambda>_. [])(0 := rs)) = contents L"
    using shared_abs_contents[of E S _ ino' "(st, (\<lambda>_. [])(0 := rs))", OF _ assms(4,3)] o(2) by simp
  ultimately show ?thesis using o(1) by blast
qed

subsection \<open>An index for examples\<close>

definition list_skip :: "kv_index skip" where
  "list_skip = \<lparr>sk_new = [], sk_get = map_of, sk_insert = bt_insert, sk_remove = bt_remove, sk_iter = (\<lambda>m. m)\<rparr>"

lemma list_skip_ok: "skip_ok list_skip"
  by (simp add: skip_ok_def list_skip_def)

lemma fresh_system:
  "\<exists>rs st. store_open plain_env list_skip fs_empty = Ok (rs, st) \<and> shared_inv plain_env list_skip 9 (st, (\<lambda>_. [])(0 := rs)) \<and>
     shared_abs plain_env list_skip (st, (\<lambda>_. [])(0 := rs)) = (\<lambda>_. None)"
  using shared_inv_open[OF log_dir_empty _ plain_serde list_skip_ok, where n = 9] by (simp add: contents_def)

lemma put_string_length: "length v \<le> length (put_string v)"
  by (induction v rule: put_string.induct) auto

text \<open>Overwriting a binding larger than the threshold starts a compaction.\<close>

lemma big_overwrite:
  assumes i: "shared_inv E S (Suc n) s" and a: "shared_abs E S s k = Some big" and b: "COMPACTION_THRESHOLD < length (serialize E (CSet k big))"
  obtains cp st' where "sk_get S (s_index (fst s)) k = Some cp" "store_set E S k v (fst s) = (Ok (), st')" "s_safe st' \<noteq> s_safe (fst s)"
proof -
  obtain L ino where w: "store_view E S L ino (fst s)" "skip_ok S" "s_gen (fst s) + 2 * Suc n < 2 ^ 64" "shared_abs E S s = contents L"
    by (rule shared_invE[OF i])
  obtain cp where cp: "sk_get S (s_index (fst s)) k = Some cp"
    using a by (cases "sk_get S (s_index (fst s)) k") (simp_all add: shared_abs_def)
  obtain val where val: "points_at E L cp (CSet k val)" "contents L k = Some val" by (rule store_view_lookup[OF w(1,2) cp])
  have "val = big" using val(2) a w(4) by simp
  then obtain cs where "take (cp_len cp) (drop (cp_pos cp) (encode E cs)) = serialize E (CSet k big)"
    using val(1) by (auto simp: points_at_def)
  then have "length (serialize E (CSet k big)) \<le> cp_len cp" by (metis length_take min.cobounded2)
  then have big: "COMPACTION_THRESHOLD < s_uncompacted (fst s) + old_of cp_len (sk_iter S (s_index (fst s))) k"
    using b cp by (simp add: skip_okD(2)[OF w(2)])
  have room: "s_gen (fst s) + 2 < 2 ^ 64" using w(3) by simp
  obtain st' where st': "store_set E S k v (fst s) = (Ok (), st')" "s_safe st' = s_gen (fst s) + 1"
    using store_set_view[OF w(1,2) room, of k v] big by blast
  obtain M cs where "L = M @ [(s_gen (fst s), cs)]" using store_view_last[OF w(1)] by blast
  then have "s_safe (fst s) \<le> s_gen (fst s)" using store_viewD(9)[OF w(1), of "s_gen (fst s)"] by simp
  then show thesis using that[OF cp st'(1)] st'(2) by simp
qed

lemma big_system:
  "\<exists>(s :: kv_index system) big. shared_inv plain_env list_skip (Suc 7) s \<and> shared_abs plain_env list_skip s ''k'' = Some big \<and>
     COMPACTION_THRESHOLD < length (serialize plain_env (CSet ''k'' big))"
proof -
  obtain rs st where o: "shared_inv plain_env list_skip (Suc 8) (st, (\<lambda>_. [])(0 := rs))" using fresh_system by auto
  define big where "big = replicate COMPACTION_THRESHOLD CHR ''x''"
  obtain s' where s': "shared_inv plain_env list_skip 8 s'" "shared_abs plain_env list_skip s' ''k'' = Some big"
    using shared_inv_call[OF o, of "(0, ReqSet ''k'' big)"] by auto
  have "length big = COMPACTION_THRESHOLD" unfolding big_def by (rule length_replicate)
  then have "COMPACTION_THRESHOLD < length (serialize plain_env (CSet ''k'' big))" using put_string_length[of big] by simp
  then show ?thesis using s' by (intro exI[of _ s'] exI[of _ big]) simp
qed

section \<open>Properties\<close>

text \<open>C5. The shared store is a map, whichever handle a call goes through: any sequence of calls by any handles returns what
  the map would return, compactions included, and the directory they leave reopens with the same bindings. No call
  panics, and the only error is that of removing an absent key.\<close>

theorem shared_store_is_map:
  assumes "shared_inv E S (length cs + Suc n) s"
  shows "\<exists>s'. run_calls E S cs s = (map_answers (map snd cs) (shared_abs E S s), s') \<and> shared_inv E S (Suc n) s' \<and>
     shared_abs E S s' = fold map_after (map snd cs) (shared_abs E S s) \<and>
     (\<exists>rs st. store_open E S (s_disk (fst s')) = Ok (rs, st) \<and> shared_inv E S n (st, (\<lambda>_. [])(0 := rs)) \<and>
        shared_abs E S (st, (\<lambda>_. [])(0 := rs)) = shared_abs E S s')"
proof -
  obtain s' where s': "run_calls E S cs s = (map_answers (map snd cs) (shared_abs E S s), s')" "shared_inv E S (Suc n) s'"
    "shared_abs E S s' = fold map_after (map snd cs) (shared_abs E S s)" using run_calls_spec[OF assms] by blast
  obtain L ino where v: "store_view E S L ino (fst s')" "\<forall>h. handles_ok ino L (s_gen (fst s')) (snd s' h)" "serde_ok E" "skip_ok S"
    "s_gen (fst s') + 2 * Suc n < 2 ^ 64" "shared_abs E S s' = contents L" by (rule shared_invE[OF s'(2)])
  have "(if L = [] then 0 else fst (last L)) + 1 + 2 * n < 2 ^ 64" using v(5) store_viewD(3,4)[OF v(1)] by simp
  from shared_inv_open[OF store_viewD(1,2)[OF v(1)] v(3,4) this] s' v(6) show ?thesis by auto
qed

theorem shared_store_is_map_witness:
  "\<exists>(s :: kv_index system) s'. run_calls plain_env list_skip [(0, ReqSet ''k'' ''v''), (1, ReqGet ''k''), (2, ReqRemove ''x'')] s =
     ([Ok None, Ok (Some ''v''), Err KeyNotFound], s')"
proof -
  obtain rs st where "shared_inv plain_env list_skip (3 + Suc 5) (st, (\<lambda>_. [])(0 := rs))"
    "shared_abs plain_env list_skip (st, (\<lambda>_. [])(0 := rs)) = (\<lambda>_. None)" using fresh_system by auto
  then show ?thesis
    using shared_store_is_map[of plain_env list_skip "[(0, ReqSet ''k'' ''v''), (1, ReqGet ''k''), (2, ReqRemove ''x'')]" 5] by force
qed

text \<open>C17. A \<^verbatim>\<open>get\<close> that is overtaken: when other threads run any calls between the lookup of a key and the read of its
  position, the read returns the value the key had at the lookup, unless one of those calls completed a
  compaction; then it always fails because the file is gone, although the key was and may still be bound.\<close>

theorem overtaken_get:
  assumes "shared_inv E S (length cs) s" "sk_get S (s_index (fst s)) key = Some cp" "run_calls E S cs s = (outs, s')"
  shows "fst (get_read E cp (snd s' h) (fst s')) =
     (if s_safe (fst s') = s_safe (fst s) then Ok (shared_abs E S s key) else Err (Io NotFound))"
proof -
  obtain L ino where v: "store_view E S L ino (fst s)" "\<forall>h. handles_ok ino L (s_gen (fst s)) (snd s h)" "serde_ok E" "skip_ok S"
    "s_gen (fst s) + 2 * length cs < 2 ^ 64" "shared_abs E S s = contents L" by (rule shared_invE[OF assms(1)])
  obtain val where val: "points_at E L cp (CSet key val)" "contents L key = Some val" "cp_gen cp < 2 ^ 64"
    by (rule store_view_lookup[OF v(1,4) assms(2)])
  have "settled E (s_safe (fst s)) cp (CSet key val) L (fst s)" using val(1) by (simp add: settled_def)
  from run_calls_settled[OF v(1,2) this v(3-5)] assms(3) obtain L' ino' where
    w: "store_view E S L' ino' (fst s')" "\<forall>h. handles_ok ino' L' (s_gen (fst s')) (snd s' h)"
      "settled E (s_safe (fst s)) cp (CSet key val) L' (fst s')" by auto
  show ?thesis
  proof (cases "s_safe (fst s') = s_safe (fst s)")
    case True
    then have "points_at E L' cp (CSet key val)" using w(3) by (simp add: settled_def)
    from get_read_value[OF w(1) v(3) this w(2)[rule_format, of h]] True v(6) val(2) show ?thesis by auto
  next
    case False
    then have "cp_gen cp < s_safe (fst s')" using w(3) by (simp add: settled_def)
    from get_read_gone[OF w(1) this val(3) w(2)[rule_format, of h]] False show ?thesis by simp
  qed
qed

theorem overtaken_get_witness:
  "\<exists>(s :: kv_index system) cp outs s'. sk_get list_skip (s_index (fst s)) ''k'' = Some cp \<and>
     run_calls plain_env list_skip [(1, ReqSet ''k'' ''v'')] s = (outs, s') \<and>
     fst (get_read plain_env cp (snd s' 0) (fst s')) = Err (Io NotFound)"
proof -
  obtain s :: "kv_index system" and big where s: "shared_inv plain_env list_skip (Suc 7) s"
    "shared_abs plain_env list_skip s ''k'' = Some big" "COMPACTION_THRESHOLD < length (serialize plain_env (CSet ''k'' big))"
    using big_system by (elim exE conjE)
  obtain cp st' where c: "sk_get list_skip (s_index (fst s)) ''k'' = Some cp"
    "store_set plain_env list_skip ''k'' ''v'' (fst s) = (Ok (), st')" "s_safe st' \<noteq> s_safe (fst s)"
    by (rule big_overwrite[OF s])
  have r: "run_calls plain_env list_skip [(1, ReqSet ''k'' ''v'')] s = ([Ok None], st', snd s)"
    using c(2) by (cases s) (simp add: store_engine_def)
  have "shared_inv plain_env list_skip (length [(1 :: nat, ReqSet ''k'' ''v'')]) s" using s(1) by (auto simp: shared_inv_def)
  from overtaken_get[OF this c(1) r, of 0] c(3) have "fst (get_read plain_env cp (snd s 0) st') = Err (Io NotFound)" by simp
  then show ?thesis using c(1) r by (intro exI[of _ s] exI[of _ cp] exI[of _ "[Ok None]"] exI[of _ "(st', snd s)"]) simp
qed

end
