(* ===== verification/PooledStore.thy ===== *)
theory PooledStore
  imports SharedStore
begin

text \<open>
  The asynchronous engine of project 5 (\<^verbatim>\<open>courses/rust/projects/project-5/src/engines/kvs.rs\<close>): the shared store of project 4,
  whose calls run as jobs of a thread pool, with a pool of readers instead of a reader per handle. The
  reader pool is an \<^verbatim>\<open>ArrayQueue\<close> of the crate \<^verbatim>\<open>crossbeam\<close>, a parameter with the documented behaviour of a bounded queue. The
  thread pool is the subject of another theory: here a job runs to its end, and the result goes through a one-shot channel. A job that
  panics drops the sending end, and its caller gets an error whose text, \<open>canceled\<close>, is a parameter.

  A job for \<^verbatim>\<open>get\<close> has two parts, the lookup, which also takes a reader, and the read; calls of other threads may come between them.
\<close>

subsection \<open>The queue of readers\<close>

record 'q aqueue =
  aq_new :: "nat \<Rightarrow> 'q option"
  aq_push :: "handles \<Rightarrow> 'q \<Rightarrow> 'q option"
  aq_pop :: "'q \<Rightarrow> (handles \<times> 'q) option"
  aq_items :: "'q \<Rightarrow> handles list"
  aq_cap :: "'q \<Rightarrow> nat"

definition aqueue_ok :: "'q aqueue \<Rightarrow> bool" where
  "aqueue_ok Q \<longleftrightarrow>
     aq_new Q 0 = None \<and> (\<forall>n. \<exists>q. aq_new Q (Suc n) = Some q \<and> aq_items Q q = [] \<and> aq_cap Q q = Suc n) \<and>
     (\<forall>x q. if length (aq_items Q q) < aq_cap Q q
            then \<exists>q'. aq_push Q x q = Some q' \<and> aq_items Q q' = aq_items Q q @ [x] \<and> aq_cap Q q' = aq_cap Q q
            else aq_push Q x q = None) \<and>
     (\<forall>q. case aq_items Q q of
            [] \<Rightarrow> aq_pop Q q = None
          | x # xs \<Rightarrow> \<exists>q'. aq_pop Q q = Some (x, q') \<and> aq_items Q q' = xs \<and> aq_cap Q q' = aq_cap Q q)"

lemma aqueue_okD:
  assumes "aqueue_ok Q"
  shows "\<exists>q. aq_new Q (Suc n) = Some q \<and> aq_items Q q = [] \<and> aq_cap Q q = Suc n"
    "length (aq_items Q q) < aq_cap Q q \<Longrightarrow> \<exists>q'. aq_push Q x q = Some q' \<and> aq_items Q q' = aq_items Q q @ [x] \<and> aq_cap Q q' = aq_cap Q q"
    "aq_items Q q = [] \<Longrightarrow> aq_pop Q q = None"
    "aq_items Q q = x # xs \<Longrightarrow> \<exists>q'. aq_pop Q q = Some (x, q') \<and> aq_items Q q' = xs \<and> aq_cap Q q' = aq_cap Q q"
proof -
  show "\<exists>q. aq_new Q (Suc n) = Some q \<and> aq_items Q q = [] \<and> aq_cap Q q = Suc n" using assms unfolding aqueue_ok_def by blast
  show "\<exists>q'. aq_push Q x q = Some q' \<and> aq_items Q q' = aq_items Q q @ [x] \<and> aq_cap Q q' = aq_cap Q q"
    if "length (aq_items Q q) < aq_cap Q q" using assms that unfolding aqueue_ok_def by presburger
  have "case aq_items Q q of [] \<Rightarrow> aq_pop Q q = None
      | x # xs \<Rightarrow> \<exists>q'. aq_pop Q q = Some (x, q') \<and> aq_items Q q' = xs \<and> aq_cap Q q' = aq_cap Q q"
    using assms unfolding aqueue_ok_def by blast
  then show "aq_items Q q = [] \<Longrightarrow> aq_pop Q q = None"
    "aq_items Q q = x # xs \<Longrightarrow> \<exists>q'. aq_pop Q q = Some (x, q') \<and> aq_items Q q' = xs \<and> aq_cap Q q' = aq_cap Q q" by simp_all
qed

subsection \<open>The engine\<close>

record ('s, 'q) pooled =
  p_store :: "'s store"
  reader_pool :: 'q

fun fill_pool :: "'q aqueue \<Rightarrow> nat \<Rightarrow> 'q \<Rightarrow> 'q option" where
  "fill_pool Q 0 q = Some q"
| "fill_pool Q (Suc n) q = (case aq_push Q (reader_clone []) q of None \<Rightarrow> None | Some q' \<Rightarrow> fill_pool Q n q')"

text \<open>The readers that loaded the logs are dropped. The result of creating the thread pool is an argument.\<close>

definition pooled_open ::
  "kv_env \<Rightarrow> 's skip \<Rightarrow> 'q aqueue \<Rightarrow> (kvs_error, unit) outcome \<Rightarrow> nat \<Rightarrow> fs \<Rightarrow> (kvs_error, ('s, 'q) pooled) outcome" where
  "pooled_open E S Q thread_pool concurrency d =
     (case store_open E S d of
        Err e \<Rightarrow> Err e
      | Panic \<Rightarrow> Panic
      | Ok (loaders, st) \<Rightarrow>
          (case thread_pool of
             Err e \<Rightarrow> Err e
           | Panic \<Rightarrow> Panic
           | Ok _ \<Rightarrow>
               (case aq_new Q concurrency of
                  None \<Rightarrow> Panic
                | Some q \<Rightarrow>
                    (case fill_pool Q (concurrency - 1) q of
                       None \<Rightarrow> Panic
                     | Some q1 \<Rightarrow>
                         (case aq_push Q [] q1 of
                            None \<Rightarrow> Panic
                          | Some q2 \<Rightarrow> Ok \<lparr>p_store = st, reader_pool = q2\<rparr>)))))"

definition job_result :: "string \<Rightarrow> (kvs_error, 'a) outcome \<Rightarrow> (kvs_error, 'a) outcome" where
  "job_result canceled res = (case res of Ok x \<Rightarrow> Ok x | Err e \<Rightarrow> Err e | Panic \<Rightarrow> Err (StringError canceled))"

definition pooled_set ::
  "kv_env \<Rightarrow> 's skip \<Rightarrow> string \<Rightarrow> string \<Rightarrow> string \<Rightarrow> ('s, 'q) pooled \<Rightarrow> (kvs_error, unit) outcome \<times> ('s, 'q) pooled" where
  "pooled_set E S canceled key v s = (case store_set E S key v (p_store s) of (res, st) \<Rightarrow> (job_result canceled res, s\<lparr>p_store := st\<rparr>))"

definition pooled_remove ::
  "kv_env \<Rightarrow> 's skip \<Rightarrow> string \<Rightarrow> string \<Rightarrow> ('s, 'q) pooled \<Rightarrow> (kvs_error, unit) outcome \<times> ('s, 'q) pooled" where
  "pooled_remove E S canceled key s = (case store_remove E S key (p_store s) of (res, st) \<Rightarrow> (job_result canceled res, s\<lparr>p_store := st\<rparr>))"

datatype get_job = GetDone "(kvs_error, string option) outcome" | GetReading command_pos handles

definition get_lookup :: "'s skip \<Rightarrow> 'q aqueue \<Rightarrow> string \<Rightarrow> ('s, 'q) pooled \<Rightarrow> get_job \<times> ('s, 'q) pooled" where
  "get_lookup S Q key s =
     (case sk_get S (s_index (p_store s)) key of
        None \<Rightarrow> (GetDone (Ok None), s)
      | Some cmd_pos \<Rightarrow>
          (case aq_pop Q (reader_pool s) of
             None \<Rightarrow> (GetDone Panic, s)
           | Some (reader, q) \<Rightarrow> (GetReading cmd_pos reader, s\<lparr>reader_pool := q\<rparr>)))"

text \<open>An error of \<^verbatim>\<open>read_command\<close> leaves the closure by the operator \<^verbatim>\<open>?\<close>, before the reader is pushed back.\<close>

fun get_continue ::
  "kv_env \<Rightarrow> 'q aqueue \<Rightarrow> get_job \<Rightarrow> ('s, 'q) pooled \<Rightarrow> (kvs_error, string option) outcome \<times> ('s, 'q) pooled" where
  "get_continue E Q (GetDone res) s = (res, s)"
| "get_continue E Q (GetReading cmd_pos reader) s =
     (case read_command E (s_safe (p_store s)) cmd_pos (s_disk (p_store s)) reader of
        (Err e, _) \<Rightarrow> (Err e, s)
      | (Panic, _) \<Rightarrow> (Panic, s)
      | (Ok cmd, reader') \<Rightarrow>
          (case aq_push Q reader' (reader_pool s) of
             None \<Rightarrow> (Panic, s)
           | Some q \<Rightarrow> (case cmd of CSet k v \<Rightarrow> Ok (Some v) | CRemove k \<Rightarrow> Err UnexpectedCommandType, s\<lparr>reader_pool := q\<rparr>)))"

definition pooled_get ::
  "kv_env \<Rightarrow> 's skip \<Rightarrow> 'q aqueue \<Rightarrow> string \<Rightarrow> string \<Rightarrow> ('s, 'q) pooled \<Rightarrow> (kvs_error, string option) outcome \<times> ('s, 'q) pooled" where
  "pooled_get E S Q canceled key s =
     (case get_lookup S Q key s of (job, s1) \<Rightarrow> (case get_continue E Q job s1 of (res, s2) \<Rightarrow> (job_result canceled res, s2)))"

definition pooled_engine :: "kv_env \<Rightarrow> 's skip \<Rightarrow> 'q aqueue \<Rightarrow> string \<Rightarrow> ('s, 'q) pooled engine" where
  "pooled_engine E S Q canceled =
     \<lparr>eng_set = pooled_set E S canceled, eng_get = pooled_get E S Q canceled, eng_remove = pooled_remove E S canceled\<rparr>"

subsection \<open>The invariant\<close>

definition pooled_view ::
  "kv_env \<Rightarrow> 's skip \<Rightarrow> 'q aqueue \<Rightarrow> (nat \<times> command list) list \<Rightarrow> (nat \<Rightarrow> nat) \<Rightarrow> ('s, 'q) pooled \<Rightarrow> bool" where
  "pooled_view E S Q L ino s \<longleftrightarrow> store_view E S L ino (p_store s) \<and>
     (\<forall>rs\<in>set (aq_items Q (reader_pool s)). handles_ok ino L (s_gen (p_store s)) rs)"

definition pooled_inv :: "kv_env \<Rightarrow> 's skip \<Rightarrow> 'q aqueue \<Rightarrow> nat \<Rightarrow> nat \<Rightarrow> ('s, 'q) pooled \<Rightarrow> bool" where
  "pooled_inv E S Q c n s \<longleftrightarrow> serde_ok E \<and> skip_ok S \<and> aqueue_ok Q \<and> length (aq_items Q (reader_pool s)) = c \<and>
     c \<le> aq_cap Q (reader_pool s) \<and> s_gen (p_store s) + 2 * n < 2 ^ 64 \<and> (\<exists>L ino. pooled_view E S Q L ino s)"

definition pooled_abs :: "kv_env \<Rightarrow> 's skip \<Rightarrow> ('s, 'q) pooled \<Rightarrow> string \<Rightarrow> string option" where
  "pooled_abs E S s = shared_abs E S (p_store s, \<lambda>_. [])"

lemma pooled_invE:
  assumes "pooled_inv E S Q c n s"
  obtains L ino where "store_view E S L ino (p_store s)" "\<forall>rs\<in>set (aq_items Q (reader_pool s)). handles_ok ino L (s_gen (p_store s)) rs"
    "serde_ok E" "skip_ok S" "aqueue_ok Q" "s_gen (p_store s) + 2 * n < 2 ^ 64" "pooled_abs E S s = contents L"
    "length (aq_items Q (reader_pool s)) = c" "c \<le> aq_cap Q (reader_pool s)"
proof -
  obtain L ino where v: "pooled_view E S Q L ino s" using assms unfolding pooled_inv_def by blast
  then have "store_view E S L ino (fst (p_store s, \<lambda>_. []))" by (simp add: pooled_view_def)
  then have "pooled_abs E S s = contents L"
    using shared_abs_contents assms unfolding pooled_abs_def pooled_inv_def by blast
  then show thesis using assms v that unfolding pooled_inv_def pooled_view_def by blast
qed

lemma pooled_abs_eq:
  assumes "store_view E S L ino (p_store s)" "skip_ok S" "serde_ok E"
  shows "pooled_abs E S s = contents L"
  using shared_abs_contents[of E S L ino "(p_store s, \<lambda>_. [])"] assms by (simp add: pooled_abs_def)

text \<open>What calls that change the store keep of the reader pool.\<close>

lemma pooled_inv_store:
  assumes i: "pooled_inv E S Q c (Suc n) s"
    and v: "store_view E S L ino (p_store s)" "\<forall>rs\<in>set (aq_items Q (reader_pool s)). handles_ok ino L (s_gen (p_store s)) rs"
    and v': "store_view E S L' ino' st" "evolves E (L, ino, p_store s) (L', ino', st)"
  shows "pooled_inv E S Q c n (s\<lparr>p_store := st\<rparr>)"
proof -
  have "pooled_view E S Q L' ino' (s\<lparr>p_store := st\<rparr>)" using v(2) v' by (auto simp: pooled_view_def evolves_def)
  moreover have "s_gen st \<le> s_gen (p_store s) + 2" using v'(2) by (simp add: evolves_def)
  ultimately show ?thesis using i unfolding pooled_inv_def by auto
qed

lemma pooled_inv_set:
  assumes i: "pooled_inv E S Q c (Suc n) s"
  shows "\<exists>s'. pooled_set E S m k v s = (Ok (), s') \<and> pooled_inv E S Q c n s' \<and> pooled_abs E S s' = (pooled_abs E S s)(k \<mapsto> v) \<and>
     reader_pool s' = reader_pool s"
proof -
  obtain L ino where w: "store_view E S L ino (p_store s)" "\<forall>rs\<in>set (aq_items Q (reader_pool s)). handles_ok ino L (s_gen (p_store s)) rs"
    "serde_ok E" "skip_ok S" "s_gen (p_store s) + 2 * Suc n < 2 ^ 64" "pooled_abs E S s = contents L" by (rule pooled_invE[OF i])
  have b: "s_gen (p_store s) + 2 < 2 ^ 64" using w(5) by simp
  obtain L' ino' st where st: "store_set E S k v (p_store s) = (Ok (), st)" "store_view E S L' ino' st"
    "contents L' = (contents L)(k \<mapsto> v)" "evolves E (L, ino, p_store s) (L', ino', st)" using store_set_view[OF w(1,4) b] by blast
  then show ?thesis using pooled_inv_store[OF i w(1,2) st(2,4)] pooled_abs_eq[of E S L' ino' "s\<lparr>p_store := st\<rparr>"] w
    by (simp add: pooled_set_def job_result_def)
qed

lemma pooled_inv_remove:
  assumes i: "pooled_inv E S Q c (Suc n) s"
  shows "\<exists>s'. pooled_remove E S m k s = (if pooled_abs E S s k = None then Err KeyNotFound else Ok (), s') \<and>
     pooled_inv E S Q c n s' \<and> pooled_abs E S s' = (pooled_abs E S s)(k := None) \<and> reader_pool s' = reader_pool s"
proof -
  obtain L ino where w: "store_view E S L ino (p_store s)" "\<forall>rs\<in>set (aq_items Q (reader_pool s)). handles_ok ino L (s_gen (p_store s)) rs"
    "serde_ok E" "skip_ok S" "s_gen (p_store s) + 2 * Suc n < 2 ^ 64" "pooled_abs E S s = contents L" by (rule pooled_invE[OF i])
  have b: "s_gen (p_store s) + 2 < 2 ^ 64" using w(5) by simp
  obtain L' ino' st where st: "store_remove E S k (p_store s) = (if contents L k = None then Err KeyNotFound else Ok (), st)"
    "store_view E S L' ino' st" "contents L' = (contents L)(k := None)" "evolves E (L, ino, p_store s) (L', ino', st)"
    using store_remove_view[OF w(1,4) b] by blast
  then show ?thesis using pooled_inv_store[OF i w(1,2) st(2,4)] pooled_abs_eq[of E S L' ino' "s\<lparr>p_store := st\<rparr>"] w
    by (simp add: pooled_remove_def job_result_def)
qed

lemma pooled_inv_get:
  assumes i: "pooled_inv E S Q (Suc c) n s"
  shows "\<exists>s'. pooled_get E S Q m k s = (Ok (pooled_abs E S s k), s') \<and> pooled_inv E S Q (Suc c) n s' \<and> p_store s' = p_store s"
proof -
  obtain L ino where w: "store_view E S L ino (p_store s)" "\<forall>rs\<in>set (aq_items Q (reader_pool s)). handles_ok ino L (s_gen (p_store s)) rs"
    "serde_ok E" "skip_ok S" "aqueue_ok Q" "pooled_abs E S s = contents L" "length (aq_items Q (reader_pool s)) = Suc c"
    "Suc c \<le> aq_cap Q (reader_pool s)" by (rule pooled_invE[OF i])
  show ?thesis
  proof (cases "sk_get S (s_index (p_store s)) k")
    case None
    then have "contents L k = None"
      using index_ok_dom[OF store_view_index[OF w(1)], of k] by (metis skip_okD(2)[OF w(4)] map_of_eq_None_iff)
    then show ?thesis using None i w(6) by (simp add: pooled_get_def get_lookup_def job_result_def)
  next
    case (Some cp)
    obtain val where val: "points_at E L cp (CSet k val)" "contents L k = Some val" by (rule store_view_lookup[OF w(1,4) Some])
    obtain x xs where x: "aq_items Q (reader_pool s) = x # xs" using w(7) by (cases "aq_items Q (reader_pool s)") auto
    then obtain q where q: "aq_pop Q (reader_pool s) = Some (x, q)" "aq_items Q q = xs" "aq_cap Q q = aq_cap Q (reader_pool s)"
      using aqueue_okD(4)[OF w(5)] by blast
    have hx: "handles_ok ino L (s_gen (p_store s)) x" using w(2) x by simp
    obtain rs where rs: "read_command E (s_safe (p_store s)) cp (s_disk (p_store s)) x = (Ok (CSet k val), rs)"
      "handles_ok ino L (s_gen (p_store s)) rs" using read_command_value[OF w(1,3) val(1) hx] by blast
    have "length (aq_items Q q) < aq_cap Q q" using q(2,3) w(7,8) x by simp
    from aqueue_okD(2)[OF w(5) this, of rs] obtain q' where
      q': "aq_push Q rs q = Some q'" "aq_items Q q' = xs @ [rs]" "aq_cap Q q' = aq_cap Q (reader_pool s)" using q by auto
    have "pooled_view E S Q L ino (s\<lparr>reader_pool := q'\<rparr>)" using w(1,2) x q'(2) rs(2) by (simp add: pooled_view_def)
    then have "pooled_inv E S Q (Suc c) n (s\<lparr>reader_pool := q'\<rparr>)"
      using i w(7,8) x q'(2,3) unfolding pooled_inv_def by auto
    then show ?thesis using Some q(1) rs(1) q'(1) val(2) w(6)
      by (simp add: pooled_get_def get_lookup_def job_result_def)
  qed
qed

interpretation pld: kvs_engine "pooled_engine E S Q m" "pooled_inv E S Q (Suc c)" "pooled_abs E S" "\<lambda>_. True" for E S Q m c
proof unfold_locales
  show "pooled_inv E S Q (Suc c) n s" if "pooled_inv E S Q (Suc c) (Suc n) s" for n s
    using that unfolding pooled_inv_def by auto
  show "\<exists>s'. eng_set (pooled_engine E S Q m) k v s = (Ok (), s') \<and> pooled_inv E S Q (Suc c) n s' \<and>
      pooled_abs E S s' = (pooled_abs E S s)(k \<mapsto> v)" if "pooled_inv E S Q (Suc c) (Suc n) s" for n s k v
    using pooled_inv_set[OF that, of m k v] by (auto simp: pooled_engine_def)
  show "\<exists>s'. eng_get (pooled_engine E S Q m) k s = (Ok (pooled_abs E S s k), s') \<and> pooled_inv E S Q (Suc c) n s' \<and>
      pooled_abs E S s' = pooled_abs E S s" if "pooled_inv E S Q (Suc c) n s" for n s k
    using pooled_inv_get[OF that, of m k] by (auto simp: pooled_engine_def pooled_abs_def)
  show "\<exists>s'. eng_remove (pooled_engine E S Q m) k s = (if pooled_abs E S s k = None then Err KeyNotFound else Ok (), s') \<and>
      pooled_inv E S Q (Suc c) n s' \<and> pooled_abs E S s' = (pooled_abs E S s)(k := None)"
    if "pooled_inv E S Q (Suc c) (Suc n) s" for n s k
    using pooled_inv_remove[OF that, of m k] by (auto simp: pooled_engine_def)
qed

lemma fill_pool_spec:
  assumes ok: "aqueue_ok Q"
  shows "length (aq_items Q q) + n \<le> aq_cap Q q \<Longrightarrow>
    \<exists>q'. fill_pool Q n q = Some q' \<and> aq_items Q q' = aq_items Q q @ replicate n [] \<and> aq_cap Q q' = aq_cap Q q"
proof (induction n arbitrary: q)
  case (Suc n)
  obtain q1 where q1: "aq_push Q (reader_clone []) q = Some q1" "aq_items Q q1 = aq_items Q q @ [[]]" "aq_cap Q q1 = aq_cap Q q"
    using aqueue_okD(2)[OF ok, of q "reader_clone []"] Suc.prems by (auto simp: reader_clone_def)
  then show ?case using Suc.IH[of q1] Suc.prems by auto
qed simp

lemma pooled_open_spec:
  assumes d: "log_dir E d L ino" "sorted_wrt (<) (map fst L)" "serde_ok E" "skip_ok S" and Q: "aqueue_ok Q"
    and b: "(if L = [] then 0 else fst (last L)) + 1 + 2 * n < 2 ^ 64"
  shows "\<exists>s. pooled_open E S Q (Ok ()) (Suc c) d = Ok s \<and> pooled_inv E S Q (Suc c) n s \<and> pooled_abs E S s = contents L"
proof -
  let ?g = "(if L = [] then 0 else fst (last L)) + 1"
  have "?g < 2 ^ 64" using b by simp
  from store_open_view[OF d refl this] obtain rs st ino' where
    o: "store_open E S d = Ok (rs, st)" "store_view E S (L @ [(?g, [])]) ino' st" "s_gen st = ?g" by blast
  obtain q0 where q0: "aq_new Q (Suc c) = Some q0" "aq_items Q q0 = []" "aq_cap Q q0 = Suc c" using aqueue_okD(1)[OF Q] by blast
  obtain q1 where q1: "fill_pool Q c q0 = Some q1" "aq_items Q q1 = replicate c []" "aq_cap Q q1 = Suc c"
    using fill_pool_spec[OF Q, of q0 c] q0 by auto
  obtain q2 where q2: "aq_push Q [] q1 = Some q2" "aq_items Q q2 = replicate c [] @ [[]]" "aq_cap Q q2 = Suc c"
    using aqueue_okD(2)[OF Q, of q1 "[]"] q1 by auto
  let ?s = "\<lparr>p_store = st, reader_pool = q2\<rparr>"
  have "pooled_view E S Q (L @ [(?g, [])]) ino' ?s" using o(2) q2(2) by (auto simp: pooled_view_def)
  moreover have "s_gen st + 2 * n < 2 ^ 64" using o(3) b by presburger
  ultimately have "pooled_inv E S Q (Suc c) n ?s" using d(3,4) Q q2(2,3) unfolding pooled_inv_def by auto
  moreover have "pooled_abs E S ?s = contents L"
    using pooled_abs_eq[of E S "L @ [(?g, [])]" ino' ?s] o(2) d(3,4) by simp
  ultimately show ?thesis using o(1) q0(1) q1(1) q2(1) by (simp add: pooled_open_def)
qed

subsection \<open>Writes while a read is pending\<close>

text \<open>A sequence of writes by other jobs: a key with the value it is set to, or with \<^const>\<open>None\<close> when it is removed.\<close>

fun pooled_write :: "kv_env \<Rightarrow> 's skip \<Rightarrow> string \<Rightarrow> string \<times> string option \<Rightarrow> ('s, 'q) pooled \<Rightarrow> ('s, 'q) pooled" where
  "pooled_write E S m (k, Some v) s = snd (pooled_set E S m k v s)"
| "pooled_write E S m (k, None) s = snd (pooled_remove E S m k s)"

abbreviation pooled_writes :: "kv_env \<Rightarrow> 's skip \<Rightarrow> string \<Rightarrow> (string \<times> string option) list \<Rightarrow> ('s, 'q) pooled \<Rightarrow> ('s, 'q) pooled" where
  "pooled_writes E S m ws \<equiv> fold (pooled_write E S m) ws"

fun write_request :: "string \<times> string option \<Rightarrow> nat \<times> request" where
  "write_request (k, Some v) = (0, ReqSet k v)"
| "write_request (k, None) = (0, ReqRemove k)"

lemma snd_attempt: "snd (attempt a (\<lambda>_ s. (Ok x, s))) = snd a"
  by (cases a; cases "fst a") (auto simp: attempt_def)

lemma pooled_write_simps:
  "reader_pool (pooled_write E S m w s) = reader_pool s"
  "snd (store_call E S (write_request w) (p_store s, hs)) = (p_store (pooled_write E S m w s), hs)"
  by (cases w; cases "snd w"; simp add: pooled_set_def pooled_remove_def store_engine_def snd_attempt split: prod.splits)+

lemma pooled_writes_run:
  "reader_pool (pooled_writes E S m ws s) = reader_pool s \<and>
   snd (run_calls E S (map write_request ws) (p_store s, hs)) = (p_store (pooled_writes E S m ws s), hs)"
proof (induction ws arbitrary: s)
  case (Cons w ws)
  obtain r s' where c: "store_call E S (write_request w) (p_store s, hs) = (r, s')" by (metis surj_pair)
  then have "s' = (p_store (pooled_write E S m w s), hs)" using pooled_write_simps(2)[of E S w s hs m] by simp
  then show ?case using c Cons[of "pooled_write E S m w s"] by (simp add: pooled_write_simps(1) split_beta)
qed simp

lemma overtaken_job:
  assumes i: "pooled_inv E S Q (Suc c) (length ws) s" and k: "sk_get S (s_index (p_store s)) key = Some cp"
    and l: "get_lookup S Q key s = (job, s')" and s2: "s2 = pooled_writes E S m ws s'"
    and safe: "s_safe (p_store s2) \<noteq> s_safe (p_store s)"
  shows "get_continue E Q job s2 = (Err (Io NotFound), s2) \<and> length (aq_items Q (reader_pool s2)) = c"
proof -
  obtain L ino where w: "store_view E S L ino (p_store s)" "\<forall>rs\<in>set (aq_items Q (reader_pool s)). handles_ok ino L (s_gen (p_store s)) rs"
    "serde_ok E" "skip_ok S" "aqueue_ok Q" "s_gen (p_store s) + 2 * length ws < 2 ^ 64"
    "length (aq_items Q (reader_pool s)) = Suc c" by (rule pooled_invE[OF i])
  obtain x xs where x: "aq_items Q (reader_pool s) = x # xs" using w(7) by (cases "aq_items Q (reader_pool s)") auto
  then obtain q where q: "aq_pop Q (reader_pool s) = Some (x, q)" "aq_items Q q = xs" using aqueue_okD(4)[OF w(5)] by blast
  have job: "job = GetReading cp x" "s' = s\<lparr>reader_pool := q\<rparr>" using l k q(1) by (simp_all add: get_lookup_def)
  obtain val where val: "points_at E L cp (CSet key val)" "cp_gen cp < 2 ^ 64" by (rule store_view_lookup[OF w(1,4) k])
  let ?sys = "(p_store s', \<lambda>_. x)" and ?cs = "map write_request ws"
  have v: "store_view E S L ino (fst ?sys)" "\<forall>h. handles_ok ino L (s_gen (fst ?sys)) (snd ?sys h)"
    "settled E (s_safe (p_store s)) cp (CSet key val) L (fst ?sys)" "s_gen (fst ?sys) + 2 * length ?cs < 2 ^ 64"
    using w(1,2,6) x val(1) job(2) by (simp_all add: settled_def)
  note run = pooled_writes_run[of E S m ws s' "\<lambda>_. x", folded s2]
  from run_calls_settled[OF v(1-3) w(3,4) v(4)] obtain L' ino' where
    r: "store_view E S L' ino' (p_store s2)" "\<forall>h::nat. handles_ok ino' L' (s_gen (p_store s2)) x"
      "settled E (s_safe (p_store s)) cp (CSet key val) L' (p_store s2)" using run by auto
  have "cp_gen cp < s_safe (p_store s2)" using r(3) safe by (simp add: settled_def)
  from read_command_gone[OF r(1) this val(2)] r(2) have
    "get_continue E Q job s2 = (Err (Io NotFound), s2)" by (simp add: job(1))
  moreover have "length (aq_items Q (reader_pool s2)) = c" using run q(2) x w(7) job(2) by simp
  ultimately show ?thesis by blast
qed

lemma lookup_inv:
  assumes i: "pooled_inv E S Q (Suc c) n s" and k: "sk_get S (s_index (p_store s)) key = Some cp"
  shows "\<exists>x s'. get_lookup S Q key s = (GetReading cp x, s') \<and> p_store s' = p_store s \<and> pooled_inv E S Q c n s'"
proof -
  obtain L ino where w: "store_view E S L ino (p_store s)" "\<forall>rs\<in>set (aq_items Q (reader_pool s)). handles_ok ino L (s_gen (p_store s)) rs"
    "aqueue_ok Q" "length (aq_items Q (reader_pool s)) = Suc c" by (rule pooled_invE[OF i])
  obtain x xs where x: "aq_items Q (reader_pool s) = x # xs" using w(4) by (cases "aq_items Q (reader_pool s)") auto
  then obtain q where q: "aq_pop Q (reader_pool s) = Some (x, q)" "aq_items Q q = xs" "aq_cap Q q = aq_cap Q (reader_pool s)"
    using aqueue_okD(4)[OF w(3)] by blast
  have "pooled_view E S Q L ino (s\<lparr>reader_pool := q\<rparr>)" using w(1,2) x q(2) by (simp add: pooled_view_def)
  then have "pooled_inv E S Q c n (s\<lparr>reader_pool := q\<rparr>)" using i q x unfolding pooled_inv_def by auto
  then show ?thesis using k q(1) by (simp add: get_lookup_def)
qed

lemma pooled_abs_bound: "pooled_abs E S s k = Some v \<Longrightarrow> sk_get S (s_index (p_store s)) k \<noteq> None"
  by (cases "sk_get S (s_index (p_store s)) k") (simp_all add: pooled_abs_def shared_abs_def)

lemma pooled_shared: "pooled_inv E S Q c n s \<Longrightarrow> shared_inv E S n (p_store s, \<lambda>_. [])"
  by (auto simp: pooled_inv_def shared_inv_def pooled_view_def)

lemma empty_pool_get:
  assumes "aqueue_ok Q" "aq_items Q (reader_pool s) = []" "sk_get S (s_index (p_store s)) k \<noteq> None"
  shows "fst (pooled_get E S Q m k s) = Err (StringError m)"
  using assms(3) aqueue_okD(3)[OF assms(1,2)] by (auto simp: pooled_get_def get_lookup_def job_result_def)

subsection \<open>A queue for examples\<close>

definition list_queue :: "(handles list \<times> nat) aqueue" where
  "list_queue =
     \<lparr>aq_new = (\<lambda>n. if n = 0 then None else Some ([], n)),
      aq_push = (\<lambda>x (xs, n). if length xs < n then Some (xs @ [x], n) else None),
      aq_pop = (\<lambda>(xs, n). case xs of [] \<Rightarrow> None | x # ys \<Rightarrow> Some (x, ys, n)), aq_items = fst, aq_cap = snd\<rparr>"

lemma list_queue_ok: "aqueue_ok list_queue"
  by (auto simp: aqueue_ok_def list_queue_def split: list.splits)

lemma one_reader_store:
  "\<exists>s big. pooled_open plain_env list_skip list_queue (Ok ()) 1 fs_empty = Ok s \<and> pooled_inv plain_env list_skip list_queue (Suc 0) 9 s \<and>
     pooled_abs plain_env list_skip s = (\<lambda>_. None) \<and> COMPACTION_THRESHOLD < length (serialize plain_env (CSet ''k'' big))"
proof -
  define big where "big = replicate COMPACTION_THRESHOLD CHR ''x''"
  have "length big = COMPACTION_THRESHOLD" unfolding big_def by (rule length_replicate)
  then have "COMPACTION_THRESHOLD < length (serialize plain_env (CSet ''k'' big))" using put_string_length[of big] by simp
  moreover obtain s where "pooled_open plain_env list_skip list_queue (Ok ()) (Suc 0) fs_empty = Ok s"
    "pooled_inv plain_env list_skip list_queue (Suc 0) 9 s" "pooled_abs plain_env list_skip s = (\<lambda>_. None)"
    using pooled_open_spec[OF log_dir_empty _ plain_serde list_skip_ok list_queue_ok, where n = 9 and c = 0]
    by (auto simp: contents_def)
  ultimately show ?thesis by (intro exI[of _ s] exI[of _ big]) simp
qed

section \<open>Properties\<close>

text \<open>C21. A failed read loses its reader for good: when a compaction by another job overtakes a \<^verbatim>\<open>get\<close>, the \<^verbatim>\<open>get\<close> fails and its
  reader never returns to the pool. An engine opened with one reader is then unable to serve any further \<^verbatim>\<open>get\<close> of a bound key,
  whatever is written later: the job panics and the caller gets the error of the dropped channel.\<close>

theorem reader_leak:
  assumes "pooled_inv E S Q (Suc c) (length ws) s" "sk_get S (s_index (p_store s)) key = Some cp"
    and "get_lookup S Q key s = (job, s')" "s_safe (p_store (pooled_writes E S m ws s')) \<noteq> s_safe (p_store s)"
  shows "get_continue E Q job (pooled_writes E S m ws s') = (Err (Io NotFound), pooled_writes E S m ws s') \<and>
     length (aq_items Q (reader_pool (pooled_writes E S m ws s'))) = c \<and>
     (c = 0 \<longrightarrow> sk_get S (s_index (p_store (pooled_writes E S m (ws @ later) s'))) k \<noteq> None \<longrightarrow>
        fst (pooled_get E S Q m k (pooled_writes E S m (ws @ later) s')) = Err (StringError m))"
proof -
  note o = overtaken_job[OF assms(1-3) refl assms(4)]
  have "reader_pool (pooled_writes E S m (ws @ later) s') = reader_pool (pooled_writes E S m ws s')"
    using pooled_writes_run[of E S m later "pooled_writes E S m ws s'"] by simp
  then have "aq_items Q (reader_pool (pooled_writes E S m (ws @ later) s')) = []" if "c = 0" using o that by simp
  moreover have "aqueue_ok Q" using assms(1) by (simp add: pooled_inv_def)
  ultimately show ?thesis using o empty_pool_get by blast
qed

theorem reader_leak_witness:
  "\<exists>s (s' :: (kv_index, handles list \<times> nat) pooled) job. get_lookup list_skip list_queue ''k'' s = (job, s') \<and>
     get_continue plain_env list_queue job (pooled_write plain_env list_skip ''canceled'' (''k'', Some ''v'') s') =
       (Err (Io NotFound), pooled_write plain_env list_skip ''canceled'' (''k'', Some ''v'') s') \<and>
     fst (pooled_get plain_env list_skip list_queue ''canceled'' ''k''
       (pooled_write plain_env list_skip ''canceled'' (''k'', Some ''v'') s')) = Err (StringError ''canceled'')"
proof -
  let ?E = plain_env and ?S = list_skip and ?Q = list_queue and ?m = "''canceled''"
  obtain s0 big where o: "pooled_inv ?E ?S ?Q (Suc 0) (Suc 8) s0" "COMPACTION_THRESHOLD < length (serialize ?E (CSet ''k'' big))"
    using one_reader_store by auto
  obtain s where s: "pooled_inv ?E ?S ?Q (Suc 0) 8 s" "pooled_abs ?E ?S s = (pooled_abs ?E ?S s0)(''k'' \<mapsto> big)"
    using pooled_inv_set[OF o(1), of ?m "''k''" big] by blast
  have a: "shared_abs ?E ?S (p_store s, \<lambda>_. []) ''k'' = Some big" using s(2) by (simp add: pooled_abs_def)
  have i: "shared_inv ?E ?S (Suc 7) (p_store s, \<lambda>_. [])" using pooled_shared[OF s(1)] by simp
  obtain cp st where c: "sk_get ?S (s_index (p_store s)) ''k'' = Some cp" "store_set ?E ?S ''k'' ''v'' (p_store s) = (Ok (), st)"
    "s_safe st \<noteq> s_safe (p_store s)" using big_overwrite[OF i a o(2), of "''v''"] by auto
  obtain x s' where l: "get_lookup ?S ?Q ''k'' s = (GetReading cp x, s')" "p_store s' = p_store s" "pooled_inv ?E ?S ?Q 0 8 s'"
    using lookup_inv[OF s(1) c(1)] by blast
  let ?ws = "[(''k'', Some ''v'')]"
  have w: "p_store (pooled_writes ?E ?S ?m ?ws s') = st" using c(2) l(2) by (simp add: pooled_set_def)
  have "pooled_inv ?E ?S ?Q (Suc 0) (length ?ws) s" using s(1) by (auto simp: pooled_inv_def)
  moreover have "s_safe (p_store (pooled_writes ?E ?S ?m ?ws s')) \<noteq> s_safe (p_store s)" using c(3) w by simp
  moreover have "sk_get ?S (s_index (p_store (pooled_writes ?E ?S ?m (?ws @ []) s'))) ''k'' \<noteq> None"
  proof -
    obtain t where "pooled_set ?E ?S ?m ''k'' ''v'' s' = (Ok (), t)" "pooled_abs ?E ?S t ''k'' = Some ''v''"
      using pooled_inv_set[of ?E ?S ?Q 0 7 s' ?m "''k''" "''v''"] l(3) by auto
    then show ?thesis using pooled_abs_bound by fastforce
  qed
  ultimately show ?thesis using reader_leak[OF _ c(1) l(1), where c = 0 and ws = ?ws and E = ?E and m = ?m and later = "[]" and k = "''k''"] l(1)
    by (intro exI[of _ s] exI[of _ s'] exI[of _ "GetReading cp x"]) simp
qed

end
