(* ===== verification/AsyncServer.thy ===== *)
theory AsyncServer
  imports PooledStore SledEngine
begin

text \<open>
  Server, client and sled engine of project 5 (\<^verbatim>\<open>courses/rust/projects/project-5/src/server.rs\<close>, \<^verbatim>\<open>client.rs\<close>, \<^verbatim>\<open>common.rs\<close>,
  \<^verbatim>\<open>engines/sled.rs\<close>, \<^verbatim>\<open>bin/kvs-client.rs\<close>). Modelled are the closures the program hands to the combinators of \<^verbatim>\<open>tokio\<close>: what is done
  with a request, with the result of the engine, and with the response. How the combinators drive sockets and frames is not;
  the exchange of one request for one response is the parameter \<open>send_request\<close> of the client.
\<close>

subsection \<open>The protocol\<close>

datatype async_response = AGet "string option" | ASet | ARemove | AErr string

subsection \<open>The server\<close>

definition async_handle :: "'s engine \<Rightarrow> request \<Rightarrow> 's \<Rightarrow> (kvs_error, async_response) outcome \<times> 's" where
  "async_handle eng req s =
     (case req of
        ReqGet key \<Rightarrow> attempt (eng_get eng key s) (\<lambda>v s'. (Ok (AGet v), s'))
      | ReqSet key v \<Rightarrow> attempt (eng_set eng key v s) (\<lambda>_ s'. (Ok ASet, s'))
      | ReqRemove key \<Rightarrow> attempt (eng_remove eng key s) (\<lambda>_ s'. (Ok ARemove, s')))"

definition async_respond :: "(kvs_error \<Rightarrow> string) \<Rightarrow> (kvs_error, async_response) outcome \<Rightarrow> async_response option" where
  "async_respond cause r = (case r of Ok resp \<Rightarrow> Some resp | Err e \<Rightarrow> Some (AErr (show_error cause e)) | Panic \<Rightarrow> None)"

subsection \<open>The sled engine\<close>

definition async_sled_set :: "'t sled_tree \<Rightarrow> string \<Rightarrow> string \<Rightarrow> string \<Rightarrow> 't \<Rightarrow> (kvs_error, unit) outcome \<times> 't" where
  "async_sled_set T canceled key v db = (case sled_set T key v db of (res, db') \<Rightarrow> (job_result canceled res, db'))"

definition async_sled_get :: "'t sled_tree \<Rightarrow> string \<Rightarrow> string \<Rightarrow> 't \<Rightarrow> (kvs_error, string option) outcome \<times> 't" where
  "async_sled_get T canceled key db = (case sled_get T key db of (res, db') \<Rightarrow> (job_result canceled res, db'))"

definition async_sled_remove :: "'t sled_tree \<Rightarrow> string \<Rightarrow> string \<Rightarrow> 't \<Rightarrow> (kvs_error, unit) outcome \<times> 't" where
  "async_sled_remove T canceled key db = (case sled_remove T key db of (res, db') \<Rightarrow> (job_result canceled res, db'))"

definition async_sled :: "'t sled_tree \<Rightarrow> string \<Rightarrow> 't engine" where
  "async_sled T canceled =
     \<lparr>eng_set = async_sled_set T canceled, eng_get = async_sled_get T canceled, eng_remove = async_sled_remove T canceled\<rparr>"

subsection \<open>The client\<close>

text \<open>\<open>send_request\<close> yields the response, no response when the connection is closed, or the error of the transport.\<close>

type_synonym transport = "request \<Rightarrow> (kvs_error, async_response option) outcome"

definition async_get :: "transport \<Rightarrow> string \<Rightarrow> (kvs_error, string option) outcome" where
  "async_get send_request key =
     (case send_request (ReqGet key) of
        Err e \<Rightarrow> Err e
      | Panic \<Rightarrow> Panic
      | Ok resp \<Rightarrow>
          (case resp of
             Some (AGet v) \<Rightarrow> Ok v
           | Some (AErr msg) \<Rightarrow> Err (StringError msg)
           | Some _ \<Rightarrow> Err (StringError ''Invalid response'')
           | None \<Rightarrow> Err (StringError ''No response received'')))"

definition async_set :: "transport \<Rightarrow> string \<Rightarrow> string \<Rightarrow> (kvs_error, unit) outcome" where
  "async_set send_request key v =
     (case send_request (ReqSet key v) of
        Err e \<Rightarrow> Err e
      | Panic \<Rightarrow> Panic
      | Ok resp \<Rightarrow>
          (case resp of
             Some ASet \<Rightarrow> Ok ()
           | Some (AErr msg) \<Rightarrow> Err (StringError msg)
           | Some _ \<Rightarrow> Err (StringError ''Invalid response'')
           | None \<Rightarrow> Err (StringError ''No response received'')))"

definition async_remove :: "transport \<Rightarrow> string \<Rightarrow> (kvs_error, unit) outcome" where
  "async_remove send_request key =
     (case send_request (ReqRemove key) of
        Err e \<Rightarrow> Err e
      | Panic \<Rightarrow> Panic
      | Ok resp \<Rightarrow>
          (case resp of
             Some ARemove \<Rightarrow> Ok ()
           | Some (AErr msg) \<Rightarrow> Err (StringError msg)
           | Some _ \<Rightarrow> Err (StringError ''Invalid response'')
           | None \<Rightarrow> Err (StringError ''No response received'')))"

text \<open>The function \<^verbatim>\<open>run\<close> of the client binary, once it is connected: the lines it prints.\<close>

fun async_run :: "transport \<Rightarrow> request \<Rightarrow> (kvs_error, string list) outcome" where
  "async_run tr (ReqGet key) =
     (case async_get tr key of Ok (Some v) \<Rightarrow> Ok [v] | Ok None \<Rightarrow> Ok [''Key not found''] | Err e \<Rightarrow> Err e | Panic \<Rightarrow> Panic)"
| "async_run tr (ReqSet key v) = (case async_set tr key v of Ok _ \<Rightarrow> Ok [] | Err e \<Rightarrow> Err e | Panic \<Rightarrow> Panic)"
| "async_run tr (ReqRemove key) = (case async_remove tr key of Ok _ \<Rightarrow> Ok [] | Err e \<Rightarrow> Err e | Panic \<Rightarrow> Panic)"

text \<open>A transport that delivers the request to a server in state \<open>s\<close> and its response back.\<close>

definition direct :: "(kvs_error \<Rightarrow> string) \<Rightarrow> 's engine \<Rightarrow> 's \<Rightarrow> transport" where
  "direct cause eng s req = Ok (async_respond cause (fst (async_handle eng req s)))"

subsection \<open>Clients of an engine\<close>

fun run_spec :: "(string \<Rightarrow> string option) \<Rightarrow> request \<Rightarrow> (kvs_error, string list) outcome" where
  "run_spec m (ReqGet k) = Ok [case m k of Some v \<Rightarrow> v | None \<Rightarrow> ''Key not found'']"
| "run_spec m (ReqSet k v) = Ok []"
| "run_spec m (ReqRemove k) = (if m k = None then Err (StringError ''Key not found'') else Ok [])"

context kvs_engine
begin

lemma async_exchange:
  assumes "inv (Suc n) s" "request_ok ok req"
  shows "async_run (direct cause eng s) req = run_spec (abs s) req \<and>
     (\<exists>s'. snd (async_handle eng req s) = s' \<and> inv n s' \<and> abs s' = map_after req (abs s))"
proof (cases req)
  case (ReqGet k)
  then show ?thesis using get_law[OF inv_less[OF assms(1)], of k]
    by (auto simp: async_handle_def direct_def async_respond_def async_get_def split: option.splits)
next
  case (ReqSet k v)
  then show ?thesis using set_law[OF assms(1), of v k] assms(2)
    by (auto simp: async_handle_def direct_def async_respond_def async_set_def)
next
  case (ReqRemove k)
  then show ?thesis using remove_law[OF assms(1), of k]
    by (auto simp: async_handle_def direct_def async_respond_def async_remove_def show_error_def)
qed

end

lemma job_result_simps [simp]: "job_result m (Ok x) = Ok x" "job_result m (Err e) = Err e"
  by (simp_all add: job_result_def)

interpretation asl: kvs_engine "async_sled T m" "\<lambda>n. sled_inv T view" "sled_abs view" "\<lambda>v. utf8_valid (into_bytes v)"
  for T :: "'t sled_tree" and view m
proof unfold_locales
  show "\<exists>s'. eng_set (async_sled T m) k v s = (Ok (), s') \<and> sled_inv T view s' \<and> sled_abs view s' = (sled_abs view s)(k \<mapsto> v)"
    if "sled_inv T view s" "utf8_valid (into_bytes v)" for s k v
    using sled.set_law[OF that, of k] by (auto simp: async_sled_def async_sled_set_def sled_engine_def)
  show "\<exists>s'. eng_get (async_sled T m) k s = (Ok (sled_abs view s k), s') \<and> sled_inv T view s' \<and> sled_abs view s' = sled_abs view s"
    if "sled_inv T view s" for s k
    using sled.get_law[OF that, of k] by (auto simp: async_sled_def async_sled_get_def sled_engine_def)
  show "\<exists>s'. eng_remove (async_sled T m) k s = (if sled_abs view s k = None then Err KeyNotFound else Ok (), s') \<and>
      sled_inv T view s' \<and> sled_abs view s' = (sled_abs view s)(k := None)" if "sled_inv T view s" for s k
    using sled.remove_law[OF that, of k] by (auto simp: async_sled_def async_sled_remove_def sled_engine_def)
qed

text \<open>A sequence of invocations of the client against one server.\<close>

fun async_session :: "(kvs_error \<Rightarrow> string) \<Rightarrow> 's engine \<Rightarrow> request list \<Rightarrow> 's \<Rightarrow> (kvs_error, string list) outcome list" where
  "async_session cause eng [] s = []"
| "async_session cause eng (req # reqs) s =
     async_run (direct cause eng s) req # async_session cause eng reqs (snd (async_handle eng req s))"

fun run_specs :: "(string \<Rightarrow> string option) \<Rightarrow> request list \<Rightarrow> (kvs_error, string list) outcome list" where
  "run_specs m [] = []"
| "run_specs m (req # reqs) = run_spec m req # run_specs (map_after req m) reqs"

context kvs_engine
begin

lemma async_session_spec:
  "inv (length reqs + n) s \<Longrightarrow> list_all (request_ok ok) reqs \<Longrightarrow> async_session cause eng reqs s = run_specs (abs s) reqs"
proof (induction reqs arbitrary: s)
  case (Cons req reqs)
  then show ?case using async_exchange[of "length reqs + n" s req cause] by auto
qed simp

end

section \<open>Properties\<close>

text \<open>C20. The two asynchronous engines serve clients alike: a sequence of invocations of the client of project 5, against a server
  over the pooled log-structured store or over sled with the same bindings, prints the same lines and fails in the same cases,
  and these are those of a map.\<close>

theorem async_engines_agree:
  assumes "pooled_inv E S Q (Suc c) (length reqs + n) s" "sled_inv T view t" "pooled_abs E S s = sled_abs view t"
    and "list_all (request_ok (\<lambda>v. utf8_valid (into_bytes v))) reqs"
  shows "async_session cause (pooled_engine E S Q m) reqs s = run_specs (sled_abs view t) reqs \<and>
     async_session cause (async_sled T m) reqs t = run_specs (sled_abs view t) reqs"
  using pld.async_session_spec[OF assms(1), of cause m] asl.async_session_spec[OF assms(2,4), of cause m] assms(3)
  by simp

theorem async_engines_agree_witness:
  "\<exists>s. pooled_open plain_env list_skip list_queue (Ok ()) 1 fs_empty = Ok s \<and>
     async_session (\<lambda>_. '''') (pooled_engine plain_env list_skip list_queue ''canceled'') [ReqSet ''k'' ''v'', ReqGet ''k'', ReqRemove ''x''] s =
       [Ok [], Ok [''v''], Err (StringError ''Key not found'')] \<and>
     async_session (\<lambda>_. '''') (async_sled map_tree ''canceled'') [ReqSet ''k'' ''v'', ReqGet ''k'', ReqRemove ''x''] (\<lambda>_. None) =
       [Ok [], Ok [''v''], Err (StringError ''Key not found'')]"
proof -
  let ?reqs = "[ReqSet ''k'' ''v'', ReqGet ''k'', ReqRemove ''x'']"
  obtain s where s: "pooled_open plain_env list_skip list_queue (Ok ()) 1 fs_empty = Ok s"
    "pooled_inv plain_env list_skip list_queue (Suc 0) (length ?reqs + 6) s" "pooled_abs plain_env list_skip s = (\<lambda>_. None)"
    using one_reader_store by auto
  have t: "sled_inv map_tree (\<lambda>t. t) (\<lambda>_. None)" "pooled_abs plain_env list_skip s = sled_abs (\<lambda>t. t) (\<lambda>_. None)"
    using s(3) by (simp_all add: sled_inv_def map_tree_ok sled_abs_def fun_eq_iff)
  have u: "list_all (request_ok (\<lambda>v. utf8_valid (into_bytes v))) ?reqs" by (simp add: into_bytes_def)
  show ?thesis using async_engines_agree[OF s(2) t u, of "\<lambda>_. ''''" "''canceled''"] s(1) by (auto simp: sled_abs_def)
qed

end
