(* ===== verification/Spec2Isabelle.thy ===== *)
theory Spec2Isabelle
  imports KvModel KvProps HashJoin CaseGen LabCodec KvRaftConfig ThreadPools AsyncServer "HOL-Library.Code_Target_Nat"
begin

text \<open>
  A verification development for the programs of the talent-plan courses: the distributed-systems labs in Rust
  (\<^verbatim>\<open>src/courses/dss\<close>), the five key-value projects in Rust (\<^verbatim>\<open>src/courses/rust/projects\<close>) and the two
  programs in Go (\<^verbatim>\<open>src/tidb\<close>). The programs are independent of each other except where a theory below imports
  another one.

  \<^bold>\<open>Conventions\<close> (\<^verbatim>\<open>Prelude\<close>, \<^verbatim>\<open>Utf8\<close>, \<^verbatim>\<open>GoStd\<close>). A function that may fail returns a value of a sum type or of
  \<open>outcome\<close>, whose constructors \<open>Ok\<close>, \<open>Err\<close> and \<open>Panic\<close> are the return, the error and the panic of the source;
  where the only failure is a panic the result is an \<^typ>\<open>'a option\<close>. State is passed explicitly. Machine integers
  are words where they wrap or are read bitwise, naturals where the source only counts. A string is the sequence of
  its bytes. Code outside the repository is a record of functions, an argument of the definitions that call it; a
  predicate whose name ends in \<open>_ok\<close> states its documented behaviour, and the witness of each property that
  assumes such a predicate applies the property to a concrete instance: \<^verbatim>\<open>serde_json\<close> and the remaining
  environment of the stores (\<open>plain_env\<close>), the skip list of crossbeam (\<open>list_skip\<close>), its queues and channels
  (\<open>list_queue\<close>, \<open>list_channel\<close>), sled (\<open>map_tree\<close>), prost (\<open>proto_prost\<close>), and the hash table of TiDB.

  \<^bold>\<open>The linearizability checker\<close> (\<^verbatim>\<open>courses/dss/linearizability/src\<close>). \<^verbatim>\<open>Bitset\<close> is \<^verbatim>\<open>bitset.rs\<close>; \<^verbatim>\<open>LinModel\<close> the
  vocabulary of \<^verbatim>\<open>model.rs\<close>, the trait \<^verbatim>\<open>Model\<close> being the record of its methods; \<^verbatim>\<open>LinNodes\<close> the doubly linked list
  of \<^verbatim>\<open>lib.rs\<close>, its \<^verbatim>\<open>Rc<RefCell<Node>>\<close> cells kept in an explicit heap, with \<^verbatim>\<open>lift\<close> and \<^verbatim>\<open>unlift\<close>; \<^verbatim>\<open>LinCheck\<close> the
  loop of \<^verbatim>\<open>check_single\<close>; \<^verbatim>\<open>LinHist\<close> the two ways a history becomes entries (\<^verbatim>\<open>make_entries\<close>, \<^verbatim>\<open>renumber\<close>,
  \<^verbatim>\<open>convert_entries\<close>); \<^verbatim>\<open>LinTop\<close> the entry points, the threads and their channel being a schedule of arrivals and
  of timer expiries; \<^verbatim>\<open>KvModel\<close> the model of \<^verbatim>\<open>models.rs\<close>. \<^verbatim>\<open>LinSpec\<close> is the specification, linearizability of a
  sequence of events, independent of the code. \<^verbatim>\<open>LinCorrect\<close> proves that the search decides it and \<^verbatim>\<open>LinBuild\<close>
  that the list built from entries represents them. The properties are in this theory: the verdicts of
  \<open>check_operations\<close> and \<open>check_events\<close> are exactly linearizability of the history against the store with all
  keys, although the code looks at each key alone; with timeouts a negative verdict is still right; and the search
  always ends. The loop is \<open>partial_function (option)\<close>, and that it returns is proved, from a measure on the
  configurations it has not yet cached.

  \<^bold>\<open>The persistent stores.\<close> \<^verbatim>\<open>FileSys\<close> models directories, inodes that outlive their names while open, and buffered
  files. \<^verbatim>\<open>KvLog\<close> and \<^verbatim>\<open>KvStore\<close> are the logs and the engine of projects 2 and 3 (\<^verbatim>\<open>project-2/src/kv.rs\<close>,
  \<^verbatim>\<open>project-3/src/engines/kvs.rs\<close>) at the level of bytes; \<^verbatim>\<open>KvsEngine\<close> is the trait \<^verbatim>\<open>KvsEngine\<close> with its contract
  as a locale, refinement of a map, which every engine of the development interprets; \<^verbatim>\<open>SledEngine\<close> the second
  engine; \<^verbatim>\<open>KvsServer\<close> server, client and command lines of project 3 and the command line of project 2; \<^verbatim>\<open>Codec\<close> an
  encoding with the properties asked of \<^verbatim>\<open>serde_json\<close>. \<^verbatim>\<open>KvProps\<close> holds their properties: the store is a map across
  compactions and reopening, compaction leaves exactly the live bytes, and the two engines cannot be told apart
  through the server. \<^verbatim>\<open>SharedStore\<close> is the engine of project 4 (\<^verbatim>\<open>project-4/src/engines/kvs.rs\<close>), handles with open
  files of their own over one index and one writer; a \<^verbatim>\<open>get\<close> takes no lock and is split at its two accesses to
  shared state, so that other calls may come in between. \<^verbatim>\<open>PooledStore\<close> and \<^verbatim>\<open>AsyncServer\<close> are the engine, the
  server and the client of project 5, whose writer and reader repeat those of project 4. \<^verbatim>\<open>ThreadPools\<close> holds the
  pools of projects 4 and 5; the steps of a shared-queue pool are an inductive relation, and a work measure shows that
  every run ends with all tasks done.

  \<^bold>\<open>The labs' libraries.\<close> \<^verbatim>\<open>LabCodec\<close> is \<^verbatim>\<open>courses/dss/labcodec\<close> with the message implementation of its expanded
  fixture, down to the bytes of the protocol-buffer format. \<^verbatim>\<open>LabRpc\<close> is \<^verbatim>\<open>courses/dss/labrpc\<close>: servers, clients,
  the service macro and the network, in which a request is a state machine between its points of suspension, its
  steps interleaved with any calls of other threads; a panic under the lock poisons it.

  \<^bold>\<open>The test beds of the labs\<close> (\<^verbatim>\<open>courses/dss/raft/src\<close>). \<^verbatim>\<open>RaftCheck\<close> holds the checks of \<^verbatim>\<open>raft/config.rs\<close>: the storage every
  applied message goes through, which is shown to accept exactly the runs with state-machine safety, the checks on
  leaders and terms with exact conditions, and the loops \<^verbatim>\<open>wait\<close> and \<^verbatim>\<open>one\<close>. \<^verbatim>\<open>RaftConfig\<close> is the group of peers on the
  network of \<^verbatim>\<open>LabRpc\<close> that a test starts, crashes, connects and disconnects, with the persisters of \<^verbatim>\<open>raft/persister.rs\<close> in
  an explicit store because instances share them; an inductive relation gives its runs, with requests and writes of the
  peers between the calls of the test, each of which is one step. What happens inside such a call is the subject of two
  properties of their own: a request during the set-up of the peers, and a copy of a persister during a save. \<^verbatim>\<open>KvRaftConfig\<close> is the same for \<^verbatim>\<open>kvraft/config.rs\<close>, with partitions and clerks. The contract of a restart
  is the locale \<open>persisting\<close>, interpreted for both. The peers are the exercise of the labs and stay parameters: what
  they answer, and when, is universally quantified.

  \<^bold>\<open>The Go programs.\<close> \<^verbatim>\<open>HashJoin\<close> is \<^verbatim>\<open>join/join_example.go\<close>, \<^verbatim>\<open>MapReduce\<close> the map phase of
  \<^verbatim>\<open>mapreduce/mapreduce.go\<close> under every order of its tasks, \<^verbatim>\<open>UrlTop\<close> the map and reduce functions of the example job with
  the utilities they use, and \<^verbatim>\<open>CaseGen\<close> the generators of test cases. The cluster has no reduce phase to run: the properties
  of the example are about its functions, for every order in which values may be handed to them.

  \<^bold>\<open>Fuel and bounds.\<close> No definition has fuel. Recursions that are not structural carry a termination proof; loops
  that may not end are \<open>partial_function (option)\<close> or step relations, and their termination, where claimed, is a
  theorem. The constants in the loops of the test beds are those of the
  sources. Where a store advances its 64-bit generation number the hypothesis leaves it room for the calls considered;
  counters of names, servers and requests are taken not to wrap.

  \<^bold>\<open>Not modelled.\<close> The bodies of the Raft, key-value Raft and Percolator labs (\<^verbatim>\<open>raft/src/raft/mod.rs\<close>,
  \<^verbatim>\<open>raft/src/kvraft/client.rs\<close> and \<^verbatim>\<open>server.rs\<close>, \<^verbatim>\<open>percolator/src\<close>) and the TiDB exercises are left to the reader of the
  course: they are calls of \<^verbatim>\<open>your_code_here\<close> or \<^verbatim>\<open>unimplemented!\<close>, panics or empty. Build scripts, benchmarks, examples and tests contain
  no part of the programs. Argument parsing, logging, sockets and the executors of futures are calls of libraries; what
  the sources hand to them is modelled. Server, client and binaries of project 4 repeat those of project 3, with each
  connection served by a job of a thread pool. Dropping a test bed kills its peers, which does what the exercise makes of
  it. The reduce phase of the map-reduce cluster is a panic in the sources. The \<^verbatim>\<open>Debug\<close> output of generated messages
  rests on Unicode tables. Crashes of the machine between the steps of one call of a store are outside the model: the
  sources make no claim about them.
\<close>

section \<open>Linearizability of key-value histories\<close>

text \<open>C1. The verdict of \<^verbatim>\<open>check_operations\<close> on a key-value history decides linearizability of the whole
  history against the store with all keys, under every order of arrival of the threads' verdicts and every
  iteration order of the hash map: partitioning by key, the stable sort by time, the pointer surgery on the
  list of entries, the cache with its hash and the early stop through \<^verbatim>\<open>kill\<close> are all sound and complete.\<close>

theorem kv_check_operations:
  assumes "iteration_order ord" "timed ops" "ops \<noteq> []"
    and "schedule (operations_worker (kv_model ord) kills (kv_partition ord ops)) kills (length (kv_partition ord ops)) s"
    and "complete (length (kv_partition ord ops)) s"
  shows "check_operations (kv_model ord) ops kills s = Some (ops_linearizable kv_object (\<lambda>_. '''') ops)"
  using kv.check_operations_decides[of ord ops kills s] kv_partition_linearizable[OF assms(1,2)]
    kv_partition_timed[OF assms(1,2)] kv_partition_Nil[OF assms(1), of ops] assms by simp

definition put_get :: "(kv_input, kv_output) operation list" where
  "put_get =
     [\<lparr>op_input = \<lparr>kv_op = PUT, kv_key = ''k'', kv_value = ''v''\<rparr>, op_call = 0, op_output = \<lparr>out_value = ''''\<rparr>, op_finish = 10\<rparr>,
      \<lparr>op_input = \<lparr>kv_op = GET, kv_key = ''k'', kv_value = ''''\<rparr>, op_call = 5, op_output = \<lparr>out_value = ''v''\<rparr>, op_finish = 20\<rparr>]"

lemma put_get_facts:
  "timed put_get" "put_get \<noteq> []" "length (kv_partition (\<lambda>ks. ks) put_get) = 1" "iteration_order (\<lambda>ks. ks)"
  by (simp_all add: put_get_def timed_def kv_partition_def map_values_def iteration_order_def)

lemma put_get_linearizable: "ops_linearizable kv_object (\<lambda>_. '''') put_get"
  by (auto simp: ops_linearizable_def lin_struct_def put_get_def rt_precedes_def kv_object_def intro!: exI[of _ "[0, 1]"])

theorem kv_check_operations_witness:
  "check_operations (kv_model (\<lambda>ks. ks)) put_get (\<lambda>_ _. False) [Arrive 0] = Some True"
  using kv_check_operations[of "\<lambda>ks. ks" put_get "\<lambda>_ _. False" "[Arrive 0]"]
  by (simp add: put_get_facts put_get_linearizable schedule_def complete_def lessThan_Suc)

text \<open>C3. The same for event logs: on a log in which every call has one later return, \<^verbatim>\<open>check_events\<close>
  decides linearizability of the whole log, through \<^verbatim>\<open>partition_event\<close>, \<^verbatim>\<open>renumber\<close> and \<^verbatim>\<open>convert_entries\<close>.\<close>

theorem kv_check_events:
  assumes "iteration_order ord" "wf_events evs inp outp" "kv_partition_event ord evs = Some parts" "evs \<noteq> []"
    and "schedule (events_worker (kv_model ord) kills parts) kills (length parts) s" "complete (length parts) s"
  shows "check_events (kv_model ord) evs kills s =
           Some (linearizable (\<lambda>\<sigma> i. kv_object \<sigma> (inp i) (outp i)) (\<lambda>_. '''') (map hev_event evs))"
proof -
  have p: "set parts = (\<lambda>k. filter (\<lambda>ev. kv_key (inp (ev_id ev)) = k) evs) ` (\<lambda>ev. kv_key (inp (ev_id ev))) ` set evs"
    using kv_partition_event_set[OF assms(1,2)] assms(3) by auto
  then have "\<forall>part\<in>set parts. wf_events part inp outp" "parts \<noteq> []"
    using kv_event_part(1)[OF assms(2)] assms(4) by auto
  from kv.check_events_decides[of ord evs parts inp outp, unfolded kv_model_simps, OF assms(3) this assms(5,6)]
  show ?thesis using kv_events_local[OF assms(2) p, of ord] by (simp add: kv_model_def kv_init_def)
qed

definition put_get_log :: "(kv_input, kv_output) event list" where
  "put_get_log =
     [\<lparr>ev_kind = CallEvent, ev_value = Input \<lparr>kv_op = PUT, kv_key = ''k'', kv_value = ''v''\<rparr>, ev_id = 7\<rparr>,
      \<lparr>ev_kind = CallEvent, ev_value = Input \<lparr>kv_op = GET, kv_key = ''k'', kv_value = ''''\<rparr>, ev_id = 3\<rparr>,
      \<lparr>ev_kind = ReturnEvent, ev_value = Output \<lparr>out_value = ''w''\<rparr>, ev_id = 3\<rparr>,
      \<lparr>ev_kind = ReturnEvent, ev_value = Output \<lparr>out_value = ''''\<rparr>, ev_id = 7\<rparr>]"

definition log_input :: "nat \<Rightarrow> kv_input" where
  "log_input i = (if i = 7 then \<lparr>kv_op = PUT, kv_key = ''k'', kv_value = ''v''\<rparr> else \<lparr>kv_op = GET, kv_key = ''k'', kv_value = ''''\<rparr>)"

definition log_output :: "nat \<Rightarrow> kv_output" where
  "log_output i = (if i = 7 then \<lparr>out_value = ''''\<rparr> else \<lparr>out_value = ''w''\<rparr>)"

lemma put_get_log_facts:
  "wf_events put_get_log log_input log_output" "put_get_log \<noteq> []"
  "kv_partition_event (\<lambda>ks. ks) put_get_log = Some [put_get_log]"
  by (simp_all add: put_get_log_def wf_events_def log_input_def log_output_def whist_def hev_event_def
      kv_partition_event_def map_values_def)

theorem kv_check_events_witness:
  "check_events (kv_model (\<lambda>ks. ks)) put_get_log (\<lambda>_ _. False) [Arrive 0] =
     Some (linearizable (\<lambda>\<sigma> i. kv_object \<sigma> (log_input i) (log_output i)) (\<lambda>_. '''') (map hev_event put_get_log))"
  using kv_check_events[OF put_get_facts(4) put_get_log_facts(1,3,2), of "\<lambda>_ _. False" "[Arrive 0]"]
  by (simp add: schedule_def complete_def lessThan_Suc)

text \<open>C7. The search itself, for any model whose state comparison is equality and any well-formed list of
  entries: it terminates whatever the \<^verbatim>\<open>kill\<close> flag does and never panics, a positive verdict is always right,
  and when \<^verbatim>\<open>kill\<close> stays unset the verdict is exactly linearizability.\<close>

theorem check_single_decides:
  assumes "\<forall>s t. equal_state M s t = (s = t)" "wf_entries es inp outp" "from_entries es = Some l"
  shows "\<exists>b. check_single M l kill = Some b \<and>
           (b \<longrightarrow> linearizable (model_step M inp outp) (init_state M) (map hev_of es)) \<and>
           ((\<forall>n. \<not> kill n) \<longrightarrow> b = linearizable (model_step M inp outp) (init_state M) (map hev_of es))"
  using state_equality.check_single_entries[of M, OF _ assms(2), of kill] assms(1,3)
  by (auto simp: state_equality_def)

theorem check_single_decides_witness:
  "\<exists>l. from_entries (make_entries put_get) = Some l \<and>
     (\<exists>b. check_single (kv_model (\<lambda>ks. ks)) l (\<lambda>n. n = 2) = Some b \<and>
        (b \<longrightarrow> linearizable (model_step (kv_model (\<lambda>ks. ks)) (\<lambda>i. op_input (put_get ! i)) (\<lambda>i. op_output (put_get ! i))) ''''
                 (map hev_of (make_entries put_get))))"
proof -
  have wf: "wf_entries (make_entries put_get) (\<lambda>i. op_input (put_get ! i)) (\<lambda>i. op_output (put_get ! i))"
    by (rule make_entries_wf[OF put_get_facts(1)])
  then obtain l where "from_entries (make_entries put_get) = Some l" using from_entries_spec by blast
  with check_single_decides[OF _ wf this, of "kv_model (\<lambda>ks. ks)" "\<lambda>n. n = 2"] show ?thesis
    by (auto simp: default_equal_def)
qed

text \<open>C13. With a timeout a positive verdict may be wrong, but a negative verdict never is.\<close>

theorem kv_timeout_negative_sound:
  assumes "iteration_order ord" "timed ops"
    and "schedule (operations_worker (kv_model ord) kills (kv_partition ord ops)) kills (length (kv_partition ord ops)) s"
    and "check_operations_timeout (kv_model ord) ops t kills s = Some False"
  shows "\<not> ops_linearizable kv_object (\<lambda>_. '''') ops"
  using kv.check_operations_timeout_sound[of ord ops kills s t] kv_partition_linearizable[OF assms(1,2)]
    kv_partition_timed[OF assms(1,2)] assms(3,4) by auto

definition stale_get :: "(kv_input, kv_output) operation list" where
  "stale_get =
     [\<lparr>op_input = \<lparr>kv_op = GET, kv_key = ''k'', kv_value = ''''\<rparr>, op_call = 5, op_output = \<lparr>out_value = ''x''\<rparr>, op_finish = 20\<rparr>]"

lemma stale_get_facts:
  "timed stale_get" "stale_get \<noteq> []" "kv_partition (\<lambda>ks. ks) stale_get = [stale_get]"
  by (simp_all add: stale_get_def timed_def kv_partition_def map_values_def)

lemma stale_get_not_linearizable: "\<not> ops_linearizable kv_step '''' stale_get"
proof
  assume "ops_linearizable kv_step '''' stale_get"
  then obtain ord where "set ord = {0}" "accepts (\<lambda>s i. kv_step s (op_input (stale_get ! i)) (op_output (stale_get ! i))) '''' ord"
    by (auto simp: ops_linearizable_def lin_struct_def stale_get_def lessThan_Suc)
  then show False by (cases ord) (auto simp: stale_get_def kv_step_def)
qed

theorem kv_timeout_negative_sound_witness:
  "check_operations_timeout (kv_model (\<lambda>ks. ks)) stale_get 3 (\<lambda>_ _. False) [Arrive 0] = Some False \<and>
   \<not> ops_linearizable kv_object (\<lambda>_. '''') stale_get"
proof -
  let ?res = "operations_worker (kv_model (\<lambda>ks. ks)) (\<lambda>_ _. False) [stale_get]"
  have "timed ([stale_get] ! 0)" by (simp add: stale_get_facts)
  from kv.operations_worker_decides[OF this, of "\<lambda>ks. ks" "\<lambda>_ _. False"] have r: "?res 0 = Some False"
    by (auto simp: decides_def stale_get_not_linearizable)
  then have v: "check_operations_timeout (kv_model (\<lambda>ks. ks)) stale_get 3 (\<lambda>_ _. False) [Arrive 0] = Some False"
    by (auto simp: check_operations_timeout_def stale_get_facts)
  with kv_timeout_negative_sound[OF put_get_facts(4) stale_get_facts(1) _ v] show ?thesis
    by (simp add: stale_get_facts schedule_def)
qed

text \<open>C24. The entry point with a timeout always returns: once every thread has sent its verdict, or the timer
  has expired, for every reading of the \<^verbatim>\<open>kill\<close> flag by the threads that are still running.\<close>

theorem kv_timeout_returns:
  assumes "iteration_order ord" "timed ops" "ops \<noteq> []"
    and "schedule (operations_worker (kv_model ord) kills (kv_partition ord ops)) kills (length (kv_partition ord ops)) s"
    and "complete (length (kv_partition ord ops)) s \<or> (t \<noteq> 0 \<and> Expire \<in> set s)"
  shows "\<exists>b. check_operations_timeout (kv_model ord) ops t kills s = Some b"
  using kv.check_operations_timeout_returns[of ord ops kills s t] kv_partition_timed[OF assms(1,2)]
    kv_partition_Nil[OF assms(1), of ops] assms(3-5) by simp

theorem kv_timeout_returns_witness:
  "\<exists>b. check_operations_timeout (kv_model (\<lambda>ks. ks)) put_get 5 (\<lambda>_ n. 100 < n) [Expire] = Some b"
  by (rule kv_timeout_returns) (simp_all add: put_get_facts schedule_def)

text \<open>C40. \<^verbatim>\<open>check_operations\<close> blocks on the empty history and on no other. On every schedule the code can produce in which
  each thread that was started has sent its verdict, it fails to return exactly when the history is empty: then there is no
  partition and no thread, so no schedule has a verdict to receive, while the main thread keeps its own sender alive.\<close>

theorem kv_check_blocks_iff_empty:
  assumes "iteration_order ord" "timed ops"
    and "schedule (operations_worker (kv_model ord) kills (kv_partition ord ops)) kills (length (kv_partition ord ops)) s"
    and "complete (length (kv_partition ord ops)) s"
  shows "check_operations (kv_model ord) ops kills s = None \<longleftrightarrow> ops = []"
proof
  assume "ops = []"
  then have p: "kv_partition ord ops = []" using kv_partition_Nil[OF assms(1)] by blast
  then have "arrivals s = []" using assms(3) by (simp add: schedule_def)
  then have "channel_stream result s = replicate (length s) RecvTimeout" for result
    by (induction s rule: arrivals.induct) auto
  moreover have "wait_res (replicate n RecvTimeout) c 0 ok = None" for n c ok by (induction n) auto
  ultimately show "check_operations (kv_model ord) ops kills s = None"
    by (simp add: check_operations_def check_operations_timeout_def)
next
  assume "check_operations (kv_model ord) ops kills s = None"
  then show "ops = []"
    using kv.check_operations_timeout_returns[of ord ops kills s 0] kv_partition_timed[OF assms(1,2)]
      kv_partition_Nil[OF assms(1), of ops] assms(3,4) by (auto simp: check_operations_def)
qed

theorem kv_check_blocks_iff_empty_witness:
  "check_operations (kv_model rev) [] (\<lambda>_ _. False) [Expire, Expire] = None"
proof -
  have "kv_partition rev [] = []" using kv_partition_Nil[of rev "[]"] by (simp add: iteration_order_def)
  then show ?thesis using kv_check_blocks_iff_empty[of rev "[]" "\<lambda>_ _. False" "[Expire, Expire]"]
    by (simp add: iteration_order_def timed_def schedule_def complete_def)
qed

text \<open>The order the entries encode: in the history made by \<^verbatim>\<open>make_entries\<close> an operation precedes another
  exactly when it finishes before the other is called; when it finishes at the very instant the other is
  called, their positions in the input decide.\<close>

theorem make_entries_order:
  assumes "i < length ops" "j < length ops"
  shows "precedes (map hev_of (make_entries ops)) i j \<longleftrightarrow>
           op_finish (ops ! i) < op_call (ops ! j) \<or> (op_finish (ops ! i) = op_call (ops ! j) \<and> i < j)"
  using make_entries_before(1)[OF assms] by (simp add: precedes_def rt_precedes_def)

theorem make_entries_order_witness:
  "\<not> precedes (map hev_of (make_entries put_get)) 0 1"
  using make_entries_order[of 0 put_get 1] by (simp add: put_get_def)

text \<open>C29. \<^verbatim>\<open>unlift\<close> undoes \<^verbatim>\<open>lift\<close> exactly. In a well-formed doubly linked list, lifting a call that is not the
  head removes it and its matching return without a borrow conflict or any other panic, and unlifting it
  restores the very heap.\<close>

theorem lift_unlift_roundtrip:
  assumes "dll h (us @ e # mid @ m # post)" "us \<noteq> []" "distinct (us @ e # mid @ m # post)"
    and "h e = Some nd" "matched nd = Some m"
  shows "\<exists>h'. lift h e = Some h' \<and> dll h' (us @ mid @ post) \<and> unlift h' e = Some h"
  using lift_spec[OF assms] by blast

definition three_cells :: "nat heap" where
  "three_cells = (\<lambda>_. None)
     (0 \<mapsto> \<lparr>nvalue = 0, matched = None, nid = 9, nxt = Some 1, prv = None\<rparr>,
      1 \<mapsto> \<lparr>nvalue = 1, matched = Some 2, nid = 0, nxt = Some 2, prv = Some 0\<rparr>,
      2 \<mapsto> \<lparr>nvalue = 2, matched = None, nid = 0, nxt = None, prv = Some 1\<rparr>)"

theorem lift_unlift_roundtrip_witness:
  "\<exists>h'. lift three_cells 1 = Some h' \<and> dll h' [0] \<and> unlift h' 1 = Some three_cells"
  using lift_unlift_roundtrip[of three_cells "[0]" 1 "[]" 2 "[]"] by (simp add: three_cells_def)

text \<open>The renumbering of an event log is a bijection between the operation numbers of the log and an initial
  segment of the naturals, and changes nothing else.\<close>

theorem renumber_bijective:
  "\<exists>\<phi>. renumber evs = map (\<lambda>ev. ev\<lparr>ev_id := \<phi> (ev_id ev)\<rparr>) evs \<and>
       bij_betw \<phi> (ev_id ` set evs) {..<card (ev_id ` set evs)}"
  by (rule renumber_bij)

text \<open>The bit set represents a set: on indices below the capacity, \<^verbatim>\<open>set\<close> inserts and \<^verbatim>\<open>clear\<close> removes
  exactly that index without a panic; beyond the capacity both panic.\<close>

theorem bitset_represents:
  "(pos < bitset_cap b \<longrightarrow>
     (\<exists>b1 b2. bitset_set b pos = Some b1 \<and> bitset_elems b1 = insert pos (bitset_elems b) \<and>
        bitset_clear b pos = Some b2 \<and> bitset_elems b2 = bitset_elems b - {pos})) \<and>
   (bitset_cap b \<le> pos \<longrightarrow> bitset_set b pos = None \<and> bitset_clear b pos = None)"
  using bitset_set_spec[of pos b] bitset_clear_spec[of pos b] in_range_iff[of pos b]
  by (auto simp: bitset_set_def bitset_clear_def bitset_index_def)

theorem bitset_represents_witness:
  "\<exists>b1. bitset_set (new_bitset 70) 69 = Some b1 \<and> bitset_elems b1 = {69}"
proof -
  have "69 < bitset_cap (new_bitset 70)" by (simp add: bitset_cap_def new_bitset_def)
  then show ?thesis using bitset_represents[of 69 "new_bitset 70"] by auto
qed

end
